theory Spec2Isabelle
  imports Main "HOL-Library.Log_Nat"
begin

section \<open>Raw memory, element types and outcomes\<close>

text \<open>
  The source is one header, \<^verbatim>\<open>vector.h\<close>, with two class templates:
  \<^verbatim>\<open>RawMemory<T>\<close> (an owning pointer to an uninitialised block and its capacity) and
  \<^verbatim>\<open>Vector<T>\<close> (a \<^verbatim>\<open>RawMemory<T> data_\<close> and a \<^verbatim>\<open>size_t size_\<close>).

  The embedding keeps an explicit store.  A block obtained from \<^verbatim>\<open>operator new\<close> is a
  list of cells; a cell is either raw storage or holds a live object.  A \<^verbatim>\<open>T*\<close> is a
  block address (or \<^verbatim>\<open>nullptr\<close>) with an element offset.  \<^verbatim>\<open>Vector\<close> objects live in
  the store under their own address, so that \<^verbatim>\<open>this != &rhs\<close> is a comparison of
  addresses.  Sizes are natural numbers, and every subtraction that would wrap is a branch
  of its own that ends in a fault.  The products and sums of the source,
  \<^verbatim>\<open>n * sizeof(T)\<close>, \<^verbatim>\<open>Capacity() * 2\<close> and \<^verbatim>\<open>size_ + 1\<close>, are followed as long as they
  do not leave \<^verbatim>\<open>size_t\<close> (\<open>fits\<close> below): they cannot for a block that was really
  allocated, and a count that the caller chooses is bounded where it is used.
\<close>

type_synonym addr = nat

datatype 'a cell = Raw | Live 'a

type_synonym ptr = "addr option \<times> nat"

text \<open>Undefined behaviour is a value: the operation stops with the fault it ran into.\<close>

datatype fault =
    Null_deref      \<comment> \<open>an object is accessed through \<^verbatim>\<open>nullptr\<close>\<close>
  | Dangling        \<comment> \<open>the block has been released (or was never allocated)\<close>
  | Out_of_bounds   \<comment> \<open>the cell lies outside its block\<close>
  | Read_raw        \<comment> \<open>the value of a never-constructed cell is read\<close>
  | Destroy_raw     \<comment> \<open>a destructor runs on a never-constructed cell\<close>
  | Assign_raw      \<comment> \<open>an assignment operator runs on a never-constructed cell\<close>
  | No_object       \<comment> \<open>there is no \<^verbatim>\<open>Vector\<close> object at the address\<close>

text \<open>
  An operation returns normally with a new store and a result, or an exception leaves it
  with the store as it stands at that moment, or it runs into undefined behaviour.
\<close>

datatype ('h, 'r) outcome = Done 'h 'r | Thrown 'h | Fault fault

definition and_then ::
  "('h, 'r) outcome \<Rightarrow> ('h \<Rightarrow> 'r \<Rightarrow> ('h, 's) outcome) \<Rightarrow> ('h, 's) outcome" where
  "and_then m f = (case m of Done h r \<Rightarrow> f h r | Thrown h \<Rightarrow> Thrown h | Fault e \<Rightarrow> Fault e)"

text \<open>\<^verbatim>\<open>try { m } catch (...) { handler }\<close>\<close>

definition try_catch ::
  "('h, 'r) outcome \<Rightarrow> ('h \<Rightarrow> ('h, 'r) outcome) \<Rightarrow> ('h, 'r) outcome" where
  "try_catch m handler = (case m of Thrown h \<Rightarrow> handler h | other \<Rightarrow> other)"

record raw_memory =
  buffer_m :: "addr option"
  capacity_m :: nat

record vector =
  data_m :: raw_memory
  size_m :: nat

record 'a heap =
  blocks :: "addr \<rightharpoonup> 'a cell list"
  next_block :: addr
  vectors :: "addr \<rightharpoonup> vector"

text \<open>
  The template parameter \<^verbatim>\<open>T\<close>.  Its special member functions copy and move values
  faithfully when they return; which calls throw is up to the type.  A move leaves its
  source alive with the value \<open>moved_from\<close>.  The two flags are the traits the source
  tests with \<^verbatim>\<open>if constexpr\<close>.  For a \<open>trivial\<close> type (an implicit-lifetime type such as
  \<^verbatim>\<open>int\<close>) raw storage needs no constructor call before an assignment and no destructor
  call is ever wrong.  \<open>size_of\<close> is \<^verbatim>\<open>sizeof(T)\<close>.
\<close>

record 'a elem_type =
  copy_throws :: "'a \<Rightarrow> bool"
  move_throws :: "'a \<Rightarrow> bool"
  copy_assign_throws :: "'a \<Rightarrow> bool"
  move_assign_throws :: "'a \<Rightarrow> bool"
  moved_from :: "'a \<Rightarrow> 'a"
  default_ctor :: "'a option"
  nothrow_move_constructible :: bool
  copy_constructible :: bool
  trivial :: bool
  size_of :: nat

subsection \<open>Cells\<close>

definition load :: "'a heap \<Rightarrow> ptr \<Rightarrow> fault + 'a cell" where
  "load h p =
     (case fst p of
        None \<Rightarrow> Inl Null_deref
      | Some b \<Rightarrow>
          (case blocks h b of
             None \<Rightarrow> Inl Dangling
           | Some cs \<Rightarrow> if snd p < length cs then Inr (cs ! snd p) else Inl Out_of_bounds))"

definition store :: "ptr \<Rightarrow> 'a cell \<Rightarrow> 'a heap \<Rightarrow> 'a heap" where
  "store p c h =
     (case fst p of
        None \<Rightarrow> h
      | Some b \<Rightarrow>
          (case blocks h b of
             None \<Rightarrow> h
           | Some cs \<Rightarrow> h\<lparr>blocks := (blocks h)(b \<mapsto> cs[snd p := c])\<rparr>))"

definition ptr_add :: "ptr \<Rightarrow> nat \<Rightarrow> ptr" where
  "ptr_add p k = (fst p, snd p + k)"

text \<open>\<^verbatim>\<open>new (p) T(values...)\<close>, the constructor call having produced \<open>x\<close>.\<close>

definition construct_at :: "ptr \<Rightarrow> 'a \<Rightarrow> 'a heap \<Rightarrow> ('a heap, unit) outcome" where
  "construct_at p x h =
     (case load h p of Inl f \<Rightarrow> Fault f | Inr c \<Rightarrow> Done (store p (Live x) h) ())"

text \<open>
  \<^verbatim>\<open>new (p) T(std::forward<Types>(values)...)\<close> for arguments outside the store: the
  constructor call is given by what it produces, \<open>None\<close> when it throws.
\<close>

definition emplace_at :: "ptr \<Rightarrow> 'a option \<Rightarrow> 'a heap \<Rightarrow> ('a heap, unit) outcome" where
  "emplace_at p values h =
     (case values of None \<Rightarrow> Thrown h | Some x \<Rightarrow> construct_at p x h)"

definition destroy_at :: "'a elem_type \<Rightarrow> ptr \<Rightarrow> 'a heap \<Rightarrow> ('a heap, unit) outcome" where
  "destroy_at T p h =
     (case load h p of
        Inl f \<Rightarrow> Fault f
      | Inr Raw \<Rightarrow> if trivial T then Done h () else Fault Destroy_raw
      | Inr (Live x) \<Rightarrow> Done (store p Raw h) ())"

text \<open>\<^verbatim>\<open>*p = x\<close> and \<^verbatim>\<open>*p = std::move(x)\<close> for a value \<open>x\<close> outside the store.\<close>

definition assign_at ::
  "'a elem_type \<Rightarrow> bool \<Rightarrow> ptr \<Rightarrow> 'a \<Rightarrow> 'a heap \<Rightarrow> ('a heap, unit) outcome" where
  "assign_at T throws p x h =
     (case load h p of
        Inl f \<Rightarrow> Fault f
      | Inr c \<Rightarrow>
          if c = Raw \<and> \<not> trivial T then Fault Assign_raw
          else if throws then Thrown h
          else Done (store p (Live x) h) ())"

text \<open>\<^verbatim>\<open>*d = *s\<close>\<close>

definition copy_assign_cell ::
  "'a elem_type \<Rightarrow> ptr \<Rightarrow> ptr \<Rightarrow> 'a heap \<Rightarrow> ('a heap, unit) outcome" where
  "copy_assign_cell T d s h =
     (case load h s of
        Inl f \<Rightarrow> Fault f
      | Inr Raw \<Rightarrow> Fault Read_raw
      | Inr (Live x) \<Rightarrow> assign_at T (copy_assign_throws T x) d x h)"

text \<open>\<^verbatim>\<open>*d = std::move(*s)\<close>\<close>

definition move_assign_cell ::
  "'a elem_type \<Rightarrow> ptr \<Rightarrow> ptr \<Rightarrow> 'a heap \<Rightarrow> ('a heap, unit) outcome" where
  "move_assign_cell T d s h =
     (case load h s of
        Inl f \<Rightarrow> Fault f
      | Inr Raw \<Rightarrow> Fault Read_raw
      | Inr (Live x) \<Rightarrow>
          (case load h d of
             Inl f \<Rightarrow> Fault f
           | Inr c \<Rightarrow>
               if c = Raw \<and> \<not> trivial T then Fault Assign_raw
               else if move_assign_throws T x then Thrown h
               else Done (store d (Live x) (store s (Live (moved_from T x)) h)) ()))"

subsection \<open>The algorithms of \<^verbatim>\<open><memory>\<close> and \<^verbatim>\<open><algorithm>\<close> the source calls\<close>

primrec destroy_n ::
  "'a elem_type \<Rightarrow> ptr \<Rightarrow> nat \<Rightarrow> 'a heap \<Rightarrow> ('a heap, unit) outcome" where
  "destroy_n T first 0 h = Done h ()"
| "destroy_n T first (Suc n) h =
     and_then (destroy_at T first h) (\<lambda>h' _. destroy_n T (ptr_add first 1) n h')"

text \<open>
  The uninitialised algorithms have no effect when a constructor throws: they destroy the
  \<open>k\<close> objects they have constructed from \<open>d_first\<close> on and rethrow.
\<close>

primrec uninit_copy_loop ::
  "'a elem_type \<Rightarrow> ptr \<Rightarrow> ptr \<Rightarrow> nat \<Rightarrow> nat \<Rightarrow> 'a heap \<Rightarrow> ('a heap, unit) outcome" where
  "uninit_copy_loop T s d_first k 0 h = Done h ()"
| "uninit_copy_loop T s d_first k (Suc n) h =
     (case load h s of
        Inl f \<Rightarrow> Fault f
      | Inr Raw \<Rightarrow> Fault Read_raw
      | Inr (Live x) \<Rightarrow>
          if copy_throws T x
          then and_then (destroy_n T d_first k h) (\<lambda>h' _. Thrown h')
          else and_then (construct_at (ptr_add d_first k) x h)
                 (\<lambda>h' _. uninit_copy_loop T (ptr_add s 1) d_first (Suc k) n h'))"

definition uninitialized_copy_n ::
  "'a elem_type \<Rightarrow> ptr \<Rightarrow> nat \<Rightarrow> ptr \<Rightarrow> 'a heap \<Rightarrow> ('a heap, unit) outcome" where
  "uninitialized_copy_n T first n d_first h = uninit_copy_loop T first d_first 0 n h"

primrec uninit_move_loop ::
  "'a elem_type \<Rightarrow> ptr \<Rightarrow> ptr \<Rightarrow> nat \<Rightarrow> nat \<Rightarrow> 'a heap \<Rightarrow> ('a heap, unit) outcome" where
  "uninit_move_loop T s d_first k 0 h = Done h ()"
| "uninit_move_loop T s d_first k (Suc n) h =
     (case load h s of
        Inl f \<Rightarrow> Fault f
      | Inr Raw \<Rightarrow> Fault Read_raw
      | Inr (Live x) \<Rightarrow>
          if move_throws T x
          then and_then (destroy_n T d_first k h) (\<lambda>h' _. Thrown h')
          else and_then (construct_at (ptr_add d_first k) x (store s (Live (moved_from T x)) h))
                 (\<lambda>h' _. uninit_move_loop T (ptr_add s 1) d_first (Suc k) n h'))"

definition uninitialized_move_n ::
  "'a elem_type \<Rightarrow> ptr \<Rightarrow> nat \<Rightarrow> ptr \<Rightarrow> 'a heap \<Rightarrow> ('a heap, unit) outcome" where
  "uninitialized_move_n T first n d_first h = uninit_move_loop T first d_first 0 n h"

primrec uninit_value_loop ::
  "'a elem_type \<Rightarrow> ptr \<Rightarrow> nat \<Rightarrow> nat \<Rightarrow> 'a heap \<Rightarrow> ('a heap, unit) outcome" where
  "uninit_value_loop T first k 0 h = Done h ()"
| "uninit_value_loop T first k (Suc n) h =
     (case default_ctor T of
        None \<Rightarrow> and_then (destroy_n T first k h) (\<lambda>h' _. Thrown h')
      | Some x \<Rightarrow>
          and_then (construct_at (ptr_add first k) x h)
            (\<lambda>h' _. uninit_value_loop T first (Suc k) n h'))"

definition uninitialized_value_construct_n ::
  "'a elem_type \<Rightarrow> ptr \<Rightarrow> nat \<Rightarrow> 'a heap \<Rightarrow> ('a heap, unit) outcome" where
  "uninitialized_value_construct_n T first n h = uninit_value_loop T first 0 n h"

text \<open>
  \<^verbatim>\<open>std::copy(first, first + n, d_first)\<close> and \<^verbatim>\<open>std::move(first, first + n, d_first)\<close>
  assign from the front; \<^verbatim>\<open>std::move_backward(first, first + n, d_last)\<close> assigns from
  the back.  None of them undoes anything when an assignment throws.
\<close>

primrec std_copy ::
  "'a elem_type \<Rightarrow> ptr \<Rightarrow> nat \<Rightarrow> ptr \<Rightarrow> 'a heap \<Rightarrow> ('a heap, unit) outcome" where
  "std_copy T first 0 d_first h = Done h ()"
| "std_copy T first (Suc n) d_first h =
     and_then (copy_assign_cell T d_first first h)
       (\<lambda>h' _. std_copy T (ptr_add first 1) n (ptr_add d_first 1) h')"

primrec std_move ::
  "'a elem_type \<Rightarrow> ptr \<Rightarrow> nat \<Rightarrow> ptr \<Rightarrow> 'a heap \<Rightarrow> ('a heap, unit) outcome" where
  "std_move T first 0 d_first h = Done h ()"
| "std_move T first (Suc n) d_first h =
     and_then (move_assign_cell T d_first first h)
       (\<lambda>h' _. std_move T (ptr_add first 1) n (ptr_add d_first 1) h')"

primrec move_backward ::
  "'a elem_type \<Rightarrow> ptr \<Rightarrow> nat \<Rightarrow> ptr \<Rightarrow> 'a heap \<Rightarrow> ('a heap, unit) outcome" where
  "move_backward T first 0 d_last h = Done h ()"
| "move_backward T first (Suc n) d_last h =
     (if snd d_last = 0 then Fault Out_of_bounds
      else and_then (move_assign_cell T (fst d_last, snd d_last - 1) (ptr_add first n) h)
             (\<lambda>h' _. move_backward T first n (fst d_last, snd d_last - 1) h'))"

text \<open>
  \<^verbatim>\<open>std::copy(list.begin(), list.end(), d_first)\<close>: the elements of an
  \<^verbatim>\<open>initializer_list\<close> are values outside the store.
\<close>

primrec std_copy_list ::
  "'a elem_type \<Rightarrow> 'a list \<Rightarrow> ptr \<Rightarrow> 'a heap \<Rightarrow> ('a heap, unit) outcome" where
  "std_copy_list T [] d_first h = Done h ()"
| "std_copy_list T (x # xs) d_first h =
     and_then (assign_at T (copy_assign_throws T x) d_first x h)
       (\<lambda>h' _. std_copy_list T xs (ptr_add d_first 1) h')"

section \<open>\<^verbatim>\<open>RawMemory<T>\<close>\<close>

text \<open>
  \<^verbatim>\<open>Allocate\<close> returns \<^verbatim>\<open>nullptr\<close> for \<open>n = 0\<close> and a block of \<open>n\<close> raw cells otherwise.
  The address of a new block is one that was never handed out before.  The source asks
  \<^verbatim>\<open>operator new\<close> for \<^verbatim>\<open>n * sizeof(T)\<close> bytes, a product in \<^verbatim>\<open>size_t\<close> (taken to have 64
  bits): the block has \<open>n\<close> cells when the product does not wrap, which is \<open>fits T n\<close>, and
  when \<^verbatim>\<open>operator new\<close> finds the memory.  A request that wraps, or one that ends in
  \<^verbatim>\<open>std::bad_alloc\<close>, is not an input of \<open>Allocate\<close>.
\<close>

definition SIZE_MAX :: nat where
  "SIZE_MAX = 2 ^ 64 - 1"

definition fits :: "'a elem_type \<Rightarrow> nat \<Rightarrow> bool" where
  "fits T n \<longleftrightarrow> 0 < size_of T \<and> n * size_of T \<le> SIZE_MAX"

definition Allocate :: "nat \<Rightarrow> 'a heap \<Rightarrow> 'a heap \<times> addr option" where
  "Allocate n h =
     (if n \<noteq> 0
      then (h\<lparr>blocks := (blocks h)(next_block h \<mapsto> replicate n Raw),
               next_block := Suc (next_block h)\<rparr>, Some (next_block h))
      else (h, None))"

text \<open>\<^verbatim>\<open>operator delete(buf)\<close>: nothing for \<^verbatim>\<open>nullptr\<close>; no destructor runs.\<close>

definition Deallocate :: "addr option \<Rightarrow> 'a heap \<Rightarrow> ('a heap, unit) outcome" where
  "Deallocate buf h =
     (case buf of
        None \<Rightarrow> Done h ()
      | Some b \<Rightarrow>
          (case blocks h b of
             None \<Rightarrow> Fault Dangling
           | Some cs \<Rightarrow> Done (h\<lparr>blocks := (blocks h)(b := None)\<rparr>) ()))"

text \<open>
  A local \<^verbatim>\<open>RawMemory<T> new_data\<close> is destroyed when an exception leaves its scope:
  \<^verbatim>\<open>~RawMemory\<close> releases the block and the exception travels on.
\<close>

definition unwinding ::
  "addr option \<Rightarrow> ('a heap, 'r) outcome \<Rightarrow> ('a heap, 'r) outcome" where
  "unwinding buf m =
     try_catch m (\<lambda>h. and_then (Deallocate buf h) (\<lambda>h' _. Thrown h'))"

definition RawMemory_Swap :: "raw_memory \<Rightarrow> raw_memory \<Rightarrow> raw_memory \<times> raw_memory" where
  "RawMemory_Swap a b =
     (a\<lparr>buffer_m := buffer_m b, capacity_m := capacity_m b\<rparr>,
      b\<lparr>buffer_m := buffer_m a, capacity_m := capacity_m a\<rparr>)"

section \<open>\<^verbatim>\<open>Vector<T>\<close>\<close>

definition begin_v :: "vector \<Rightarrow> ptr" where
  "begin_v v = (buffer_m (data_m v), 0)"

definition end_v :: "vector \<Rightarrow> ptr" where
  "end_v v = (buffer_m (data_m v), size_m v)"

text \<open>
  The reallocating paths transfer the old elements by move when
  \<^verbatim>\<open>is_nothrow_move_constructible_v<T> || !is_copy_constructible_v<T>\<close>, by copy otherwise.
\<close>

definition transfer_n ::
  "'a elem_type \<Rightarrow> ptr \<Rightarrow> nat \<Rightarrow> ptr \<Rightarrow> 'a heap \<Rightarrow> ('a heap, unit) outcome" where
  "transfer_n T first n d_first h =
     (if nothrow_move_constructible T \<or> \<not> copy_constructible T
      then uninitialized_move_n T first n d_first h
      else uninitialized_copy_n T first n d_first h)"

definition EmplaceBack ::
  "'a elem_type \<Rightarrow> addr \<Rightarrow> 'a option \<Rightarrow> 'a heap \<Rightarrow> ('a heap, ptr) outcome" where
  "EmplaceBack T this values h =
     (case vectors h this of
        None \<Rightarrow> Fault No_object
      | Some v \<Rightarrow>
          if capacity_m (data_m v) > size_m v
          then and_then (emplace_at (end_v v) values h)
                 (\<lambda>h1 _. Done (h1\<lparr>vectors := (vectors h1)(this \<mapsto> v\<lparr>size_m := size_m v + 1\<rparr>)\<rparr>)
                             (end_v v))
          else
            let new_cap = max (capacity_m (data_m v) * 2) (size_m v + 1);
                (h0, new_buf) = Allocate new_cap h;
                new_data = \<lparr>buffer_m = new_buf, capacity_m = new_cap\<rparr>
            in unwinding new_buf
                 (and_then (emplace_at (new_buf, size_m v) values h0) (\<lambda>h1 _.
                  and_then
                    (try_catch (transfer_n T (begin_v v) (size_m v) (new_buf, 0) h1)
                       (\<lambda>h2. and_then (destroy_n T (new_buf, 0) (size_m v + 1) h2)
                                (\<lambda>h3 _. Thrown h3))) (\<lambda>h2 _.
                  and_then (destroy_n T (begin_v v) (size_m v) h2) (\<lambda>h3 _.
                  let (new_data', old_data) = RawMemory_Swap (data_m v) new_data;
                      h4 = h3\<lparr>vectors := (vectors h3)
                               (this \<mapsto> v\<lparr>data_m := new_data', size_m := size_m v + 1\<rparr>)\<rparr>
                  in and_then (Deallocate (buffer_m old_data) h4) (\<lambda>h5 _.
                       Done h5 (buffer_m new_data', size_m v)))))))"


text \<open>
  The argument of \<^verbatim>\<open>PushBack(U&& value)\<close> and \<^verbatim>\<open>Insert(pos, U&& value)\<close> when it refers
  to an object outside the store (a temporary or a local of the caller, with the value
  \<open>x\<close>): forwarding an lvalue calls the copy constructor of \<^verbatim>\<open>T\<close>, forwarding an rvalue its
  move constructor.  Arguments that refer to an element of a vector follow below
  (\<open>EmplaceBack_args\<close>, \<open>Emplace_args\<close>, \<open>PushBack_args\<close>).
\<close>

datatype 'a arg = Lvalue 'a | Rvalue 'a

fun forwarded :: "'a elem_type \<Rightarrow> 'a arg \<Rightarrow> 'a option" where
  "forwarded T (Lvalue x) = (if copy_throws T x then None else Some x)"
| "forwarded T (Rvalue x) = (if move_throws T x then None else Some x)"

definition PushBack ::
  "'a elem_type \<Rightarrow> addr \<Rightarrow> 'a arg \<Rightarrow> 'a heap \<Rightarrow> ('a heap, unit) outcome" where
  "PushBack T this val h =
     and_then (EmplaceBack T this (forwarded T val) h) (\<lambda>h' _. Done h' ())"

text \<open>
  \<^verbatim>\<open>Emplace(pos, args...)\<close>.  The position is given by \<^verbatim>\<open>offset = pos - begin()\<close>; a
  \<^verbatim>\<open>pos\<close> into another block or before \<^verbatim>\<open>begin()\<close> is not an input of the model.
\<close>

definition Emplace ::
  "'a elem_type \<Rightarrow> addr \<Rightarrow> nat \<Rightarrow> 'a option \<Rightarrow> 'a heap \<Rightarrow> ('a heap, ptr) outcome" where
  "Emplace T this offset args h =
     (case vectors h this of
        None \<Rightarrow> Fault No_object
      | Some v \<Rightarrow>
          if capacity_m (data_m v) > size_m v
          then
            and_then
              (if offset \<noteq> size_m v
               then (case args of
                       None \<Rightarrow> Thrown h
                     | Some value_to_emplace \<Rightarrow>
                         if size_m v = 0 \<or> size_m v - 1 < offset then Fault Out_of_bounds
                         else
                           and_then (uninitialized_move_n T (ptr_add (begin_v v) (size_m v - 1)) 1
                                       (end_v v) h) (\<lambda>h1 _.
                           and_then (move_backward T (ptr_add (begin_v v) offset)
                                       (size_m v - 1 - offset) (ptr_add (begin_v v) (size_m v)) h1)
                             (\<lambda>h2 _.
                           if offset < capacity_m (data_m v)
                           then assign_at T (move_assign_throws T value_to_emplace)
                                  (ptr_add (begin_v v) offset) value_to_emplace h2
                           else Fault Out_of_bounds)))
               else emplace_at (end_v v) args h)
              (\<lambda>h3 _. Done (h3\<lparr>vectors := (vectors h3)(this \<mapsto> v\<lparr>size_m := size_m v + 1\<rparr>)\<rparr>)
                          (ptr_add (begin_v v) offset))
          else
            let new_cap = max (capacity_m (data_m v) * 2) (size_m v + 1);
                (h0, new_buf) = Allocate new_cap h;
                new_data = \<lparr>buffer_m = new_buf, capacity_m = new_cap\<rparr>
            in unwinding new_buf
                 (and_then (emplace_at (new_buf, offset) args h0) (\<lambda>h1 _.
                  and_then
                    (try_catch
                       (and_then (transfer_n T (begin_v v) offset (new_buf, 0) h1) (\<lambda>h2 _.
                          if size_m v < offset then Fault Out_of_bounds
                          else transfer_n T (ptr_add (begin_v v) offset) (size_m v - offset)
                                 (new_buf, offset + 1) h2))
                       (\<lambda>h2. and_then (destroy_n T (new_buf, 0) (size_m v + 1) h2)
                                (\<lambda>h3 _. Thrown h3))) (\<lambda>h2 _.
                  and_then (destroy_n T (begin_v v) (size_m v) h2) (\<lambda>h3 _.
                  let (new_data', old_data) = RawMemory_Swap (data_m v) new_data;
                      h4 = h3\<lparr>vectors := (vectors h3)
                               (this \<mapsto> v\<lparr>data_m := new_data', size_m := size_m v + 1\<rparr>)\<rparr>
                  in and_then (Deallocate (buffer_m old_data) h4) (\<lambda>h5 _.
                       Done h5 (buffer_m new_data', offset)))))))"

definition Insert ::
  "'a elem_type \<Rightarrow> addr \<Rightarrow> nat \<Rightarrow> 'a arg \<Rightarrow> 'a heap \<Rightarrow> ('a heap, ptr) outcome" where
  "Insert T this offset val h = Emplace T this offset (forwarded T val) h"

subsection \<open>Arguments that refer to objects in the store\<close>

text \<open>
  \<^verbatim>\<open>EmplaceBack(Types&&... values)\<close>, \<^verbatim>\<open>Emplace(pos, Args&&... args)\<close>,
  \<^verbatim>\<open>PushBack(U&& value)\<close> and \<^verbatim>\<open>Insert(pos, U&& value)\<close> take references.  They refer
  to objects outside the store, or to one object of type \<^verbatim>\<open>T\<close> in the store (an element of
  this or of another vector), passed as an lvalue, from which the new element is
  copy-constructed, or as an rvalue (\<^verbatim>\<open>v.PushBack(std::move(v[0]))\<close>), from which it is
  move-constructed.
\<close>

datatype 'a args = Outside "'a option" | Lvalue_ref ptr | Rvalue_ref ptr

text \<open>
  \<^verbatim>\<open>T(std::forward<Types>(values)...)\<close>: the value constructed and the store as the
  constructor leaves it.  A move constructor leaves its argument moved-from; a constructor
  that throws has changed nothing.
\<close>

definition construct_value ::
  "'a elem_type \<Rightarrow> 'a args \<Rightarrow> 'a heap \<Rightarrow> ('a heap, 'a) outcome" where
  "construct_value T values h =
     (case values of
        Outside None \<Rightarrow> Thrown h
      | Outside (Some x) \<Rightarrow> Done h x
      | Lvalue_ref q \<Rightarrow>
          (case load h q of
             Inl f \<Rightarrow> Fault f
           | Inr Raw \<Rightarrow> Fault Read_raw
           | Inr (Live y) \<Rightarrow> if copy_throws T y then Thrown h else Done h y)
      | Rvalue_ref q \<Rightarrow>
          (case load h q of
             Inl f \<Rightarrow> Fault f
           | Inr Raw \<Rightarrow> Fault Read_raw
           | Inr (Live y) \<Rightarrow>
               if move_throws T y then Thrown h
               else Done (store q (Live (moved_from T y)) h) y))"

text \<open>\<^verbatim>\<open>new (p) T(std::forward<Types>(values)...)\<close>\<close>

definition emplace_args ::
  "'a elem_type \<Rightarrow> ptr \<Rightarrow> 'a args \<Rightarrow> 'a heap \<Rightarrow> ('a heap, unit) outcome" where
  "emplace_args T p values h =
     and_then (construct_value T values h) (\<lambda>h1 x. construct_at p x h1)"

definition EmplaceBack_args ::
  "'a elem_type \<Rightarrow> addr \<Rightarrow> 'a args \<Rightarrow> 'a heap \<Rightarrow> ('a heap, ptr) outcome" where
  "EmplaceBack_args T this values h =
     (case vectors h this of
        None \<Rightarrow> Fault No_object
      | Some v \<Rightarrow>
          if capacity_m (data_m v) > size_m v
          then and_then (emplace_args T (end_v v) values h)
                 (\<lambda>h1 _. Done (h1\<lparr>vectors := (vectors h1)(this \<mapsto> v\<lparr>size_m := size_m v + 1\<rparr>)\<rparr>)
                             (end_v v))
          else
            let new_cap = max (capacity_m (data_m v) * 2) (size_m v + 1);
                (h0, new_buf) = Allocate new_cap h;
                new_data = \<lparr>buffer_m = new_buf, capacity_m = new_cap\<rparr>
            in unwinding new_buf
                 (and_then (emplace_args T (new_buf, size_m v) values h0) (\<lambda>h1 _.
                  and_then
                    (try_catch (transfer_n T (begin_v v) (size_m v) (new_buf, 0) h1)
                       (\<lambda>h2. and_then (destroy_n T (new_buf, 0) (size_m v + 1) h2)
                                (\<lambda>h3 _. Thrown h3))) (\<lambda>h2 _.
                  and_then (destroy_n T (begin_v v) (size_m v) h2) (\<lambda>h3 _.
                  let (new_data', old_data) = RawMemory_Swap (data_m v) new_data;
                      h4 = h3\<lparr>vectors := (vectors h3)
                               (this \<mapsto> v\<lparr>data_m := new_data', size_m := size_m v + 1\<rparr>)\<rparr>
                  in and_then (Deallocate (buffer_m old_data) h4) (\<lambda>h5 _.
                       Done h5 (buffer_m new_data', size_m v)))))))"

definition PushBack_args ::
  "'a elem_type \<Rightarrow> addr \<Rightarrow> 'a args \<Rightarrow> 'a heap \<Rightarrow> ('a heap, unit) outcome" where
  "PushBack_args T this val h =
     and_then (EmplaceBack_args T this val h) (\<lambda>h' _. Done h' ())"

definition Emplace_args ::
  "'a elem_type \<Rightarrow> addr \<Rightarrow> nat \<Rightarrow> 'a args \<Rightarrow> 'a heap \<Rightarrow> ('a heap, ptr) outcome" where
  "Emplace_args T this offset args h =
     (case vectors h this of
        None \<Rightarrow> Fault No_object
      | Some v \<Rightarrow>
          if capacity_m (data_m v) > size_m v
          then
            and_then
              (if offset \<noteq> size_m v
               then
                 and_then (construct_value T args h) (\<lambda>h0 value_to_emplace.
                   if size_m v = 0 \<or> size_m v - 1 < offset then Fault Out_of_bounds
                   else
                     and_then (uninitialized_move_n T (ptr_add (begin_v v) (size_m v - 1)) 1
                                 (end_v v) h0) (\<lambda>h1 _.
                     and_then (move_backward T (ptr_add (begin_v v) offset)
                                 (size_m v - 1 - offset) (ptr_add (begin_v v) (size_m v)) h1)
                       (\<lambda>h2 _.
                     if offset < capacity_m (data_m v)
                     then assign_at T (move_assign_throws T value_to_emplace)
                            (ptr_add (begin_v v) offset) value_to_emplace h2
                     else Fault Out_of_bounds)))
               else emplace_args T (end_v v) args h)
              (\<lambda>h3 _. Done (h3\<lparr>vectors := (vectors h3)(this \<mapsto> v\<lparr>size_m := size_m v + 1\<rparr>)\<rparr>)
                          (ptr_add (begin_v v) offset))
          else
            let new_cap = max (capacity_m (data_m v) * 2) (size_m v + 1);
                (h0, new_buf) = Allocate new_cap h;
                new_data = \<lparr>buffer_m = new_buf, capacity_m = new_cap\<rparr>
            in unwinding new_buf
                 (and_then (emplace_args T (new_buf, offset) args h0) (\<lambda>h1 _.
                  and_then
                    (try_catch
                       (and_then (transfer_n T (begin_v v) offset (new_buf, 0) h1) (\<lambda>h2 _.
                          if size_m v < offset then Fault Out_of_bounds
                          else transfer_n T (ptr_add (begin_v v) offset) (size_m v - offset)
                                 (new_buf, offset + 1) h2))
                       (\<lambda>h2. and_then (destroy_n T (new_buf, 0) (size_m v + 1) h2)
                                (\<lambda>h3 _. Thrown h3))) (\<lambda>h2 _.
                  and_then (destroy_n T (begin_v v) (size_m v) h2) (\<lambda>h3 _.
                  let (new_data', old_data) = RawMemory_Swap (data_m v) new_data;
                      h4 = h3\<lparr>vectors := (vectors h3)
                               (this \<mapsto> v\<lparr>data_m := new_data', size_m := size_m v + 1\<rparr>)\<rparr>
                  in and_then (Deallocate (buffer_m old_data) h4) (\<lambda>h5 _.
                       Done h5 (buffer_m new_data', offset)))))))"

definition Insert_args ::
  "'a elem_type \<Rightarrow> addr \<Rightarrow> nat \<Rightarrow> 'a args \<Rightarrow> 'a heap \<Rightarrow> ('a heap, ptr) outcome" where
  "Insert_args T this offset val h = Emplace_args T this offset val h"

text \<open>
  \<^verbatim>\<open>Erase(pos)\<close>.  On an empty vector \<^verbatim>\<open>end() - 1\<close> leaves the block; a range whose first
  pointer lies behind its last is no range.
\<close>

definition Erase ::
  "'a elem_type \<Rightarrow> addr \<Rightarrow> nat \<Rightarrow> 'a heap \<Rightarrow> ('a heap, ptr) outcome" where
  "Erase T this offset h =
     (case vectors h this of
        None \<Rightarrow> Fault No_object
      | Some v \<Rightarrow>
          if size_m v = 0 then Fault Out_of_bounds
          else
            and_then
              (if offset \<noteq> size_m v - 1
               then (if size_m v < offset + 1 then Fault Out_of_bounds
                     else std_move T (ptr_add (begin_v v) (offset + 1)) (size_m v - (offset + 1))
                            (ptr_add (begin_v v) offset) h)
               else Done h ()) (\<lambda>h1 _.
            and_then (destroy_n T (ptr_add (begin_v v) (size_m v - 1)) 1 h1) (\<lambda>h2 _.
            Done (h2\<lparr>vectors := (vectors h2)(this \<mapsto> v\<lparr>size_m := size_m v - 1\<rparr>)\<rparr>)
                 (ptr_add (begin_v v) offset))))"

definition PopBack :: "'a elem_type \<Rightarrow> addr \<Rightarrow> 'a heap \<Rightarrow> ('a heap, unit) outcome" where
  "PopBack T this h =
     (case vectors h this of
        None \<Rightarrow> Fault No_object
      | Some v \<Rightarrow>
          if size_m v = 0 then Fault Out_of_bounds
          else
            and_then (destroy_n T (ptr_add (begin_v v) (size_m v - 1)) 1 h) (\<lambda>h1 _.
            Done (h1\<lparr>vectors := (vectors h1)(this \<mapsto> v\<lparr>size_m := size_m v - 1\<rparr>)\<rparr>) ()))"

definition Reserve :: "'a elem_type \<Rightarrow> addr \<Rightarrow> nat \<Rightarrow> 'a heap \<Rightarrow> ('a heap, unit) outcome" where
  "Reserve T this new_capacity h =
     (case vectors h this of
        None \<Rightarrow> Fault No_object
      | Some v \<Rightarrow>
          if new_capacity \<le> capacity_m (data_m v) then Done h ()
          else
            let (h0, new_buf) = Allocate new_capacity h;
                new_data = \<lparr>buffer_m = new_buf, capacity_m = new_capacity\<rparr>
            in unwinding new_buf
                 (and_then (transfer_n T (begin_v v) (size_m v) (new_buf, 0) h0) (\<lambda>h1 _.
                  and_then (destroy_n T (begin_v v) (size_m v) h1) (\<lambda>h2 _.
                  let (new_data', old_data) = RawMemory_Swap (data_m v) new_data;
                      h3 = h2\<lparr>vectors := (vectors h2)(this \<mapsto> v\<lparr>data_m := new_data'\<rparr>)\<rparr>
                  in Deallocate (buffer_m old_data) h3))))"

definition Resize :: "'a elem_type \<Rightarrow> addr \<Rightarrow> nat \<Rightarrow> 'a heap \<Rightarrow> ('a heap, unit) outcome" where
  "Resize T this new_size h =
     (case vectors h this of
        None \<Rightarrow> Fault No_object
      | Some v \<Rightarrow>
          and_then
            (if new_size < size_m v
             then destroy_n T (ptr_add (begin_v v) new_size) (size_m v - new_size) h
             else if new_size > size_m v
             then and_then (Reserve T this new_size h) (\<lambda>h1 _.
                    case vectors h1 this of
                      None \<Rightarrow> Fault No_object
                    | Some v1 \<Rightarrow>
                        uninitialized_value_construct_n T (ptr_add (begin_v v1) (size_m v1))
                          (new_size - size_m v1) h1)
             else Done h ()) (\<lambda>h2 _.
          case vectors h2 this of
            None \<Rightarrow> Fault No_object
          | Some v2 \<Rightarrow> Done (h2\<lparr>vectors := (vectors h2)(this \<mapsto> v2\<lparr>size_m := new_size\<rparr>)\<rparr>) ()))"

subsection \<open>Construction, destruction, assignment, exchange\<close>

definition Vector_default :: "addr \<Rightarrow> 'a heap \<Rightarrow> ('a heap, unit) outcome" where
  "Vector_default this h =
     Done (h\<lparr>vectors := (vectors h)
              (this \<mapsto> \<lparr>data_m = \<lparr>buffer_m = None, capacity_m = 0\<rparr>, size_m = 0\<rparr>)\<rparr>) ()"

text \<open>
  A constructor body that throws destroys the members built so far (\<^verbatim>\<open>data_\<close> releases
  its block) and no \<^verbatim>\<open>Vector\<close> object comes into being.
\<close>

definition Vector_sized ::
  "'a elem_type \<Rightarrow> addr \<Rightarrow> nat \<Rightarrow> 'a heap \<Rightarrow> ('a heap, unit) outcome" where
  "Vector_sized T this n h =
     (let (h0, buf) = Allocate n h
      in unwinding buf
           (and_then (uninitialized_value_construct_n T (buf, 0) n h0) (\<lambda>h1 _.
            Done (h1\<lparr>vectors := (vectors h1)
                     (this \<mapsto> \<lparr>data_m = \<lparr>buffer_m = buf, capacity_m = n\<rparr>, size_m = n\<rparr>)\<rparr>) ())))"

text \<open>
  \<^verbatim>\<open>Vector(const Vector& other)\<close>, for an object in the store and, as \<open>copy_construct\<close>,
  for the local \<^verbatim>\<open>rhs_copy\<close> of the copy assignment.
\<close>

definition copy_construct ::
  "'a elem_type \<Rightarrow> vector \<Rightarrow> 'a heap \<Rightarrow> ('a heap, vector) outcome" where
  "copy_construct T other h =
     (let (h0, buf) = Allocate (size_m other) h
      in unwinding buf
           (and_then (uninitialized_copy_n T (begin_v other) (size_m other) (buf, 0) h0) (\<lambda>h1 _.
            Done h1 \<lparr>data_m = \<lparr>buffer_m = buf, capacity_m = size_m other\<rparr>,
                     size_m = size_m other\<rparr>)))"

definition Vector_copy ::
  "'a elem_type \<Rightarrow> addr \<Rightarrow> addr \<Rightarrow> 'a heap \<Rightarrow> ('a heap, unit) outcome" where
  "Vector_copy T this other h =
     (case vectors h other of
        None \<Rightarrow> Fault No_object
      | Some ov \<Rightarrow>
          and_then (copy_construct T ov h) (\<lambda>h1 v.
          Done (h1\<lparr>vectors := (vectors h1)(this \<mapsto> v)\<rparr>) ()))"

text \<open>
  \<^verbatim>\<open>Vector(Vector&& other)\<close>: \<^verbatim>\<open>data_(std::move(other.data_))\<close> is the move constructor
  of \<^verbatim>\<open>RawMemory\<close>, a \<^verbatim>\<open>Swap\<close> with a default-initialised member;
  \<^verbatim>\<open>size_(std::move(other.size_))\<close> copies a \<^verbatim>\<open>size_t\<close>.
\<close>

definition Vector_move :: "addr \<Rightarrow> addr \<Rightarrow> 'a heap \<Rightarrow> ('a heap, unit) outcome" where
  "Vector_move this other h =
     (case vectors h other of
        None \<Rightarrow> Fault No_object
      | Some ov \<Rightarrow>
          let (new_data, other_data) =
                RawMemory_Swap \<lparr>buffer_m = None, capacity_m = 0\<rparr> (data_m ov)
          in Done (h\<lparr>vectors := (vectors h)
                      (other \<mapsto> ov\<lparr>data_m := other_data\<rparr>,
                       this \<mapsto> \<lparr>data_m = new_data, size_m = size_m ov\<rparr>)\<rparr>) ())"

definition Vector_init_list ::
  "'a elem_type \<Rightarrow> addr \<Rightarrow> 'a list \<Rightarrow> 'a heap \<Rightarrow> ('a heap, unit) outcome" where
  "Vector_init_list T this list h =
     (let (h0, buf) = Allocate (length list) h
      in unwinding buf
           (and_then (std_copy_list T list (buf, 0) h0) (\<lambda>h1 _.
            Done (h1\<lparr>vectors := (vectors h1)
                     (this \<mapsto> \<lparr>data_m = \<lparr>buffer_m = buf, capacity_m = length list\<rparr>,
                               size_m = length list\<rparr>)\<rparr>) ())))"

text \<open>\<^verbatim>\<open>~Vector()\<close> and then \<^verbatim>\<open>~RawMemory()\<close> of the member \<^verbatim>\<open>data_\<close>.\<close>

definition destroy_vector ::
  "'a elem_type \<Rightarrow> vector \<Rightarrow> 'a heap \<Rightarrow> ('a heap, unit) outcome" where
  "destroy_vector T v h =
     and_then
       (if buffer_m (data_m v) \<noteq> None then destroy_n T (begin_v v) (size_m v) h else Done h ())
       (\<lambda>h1 _. Deallocate (buffer_m (data_m v)) h1)"

definition Vector_dtor :: "'a elem_type \<Rightarrow> addr \<Rightarrow> 'a heap \<Rightarrow> ('a heap, unit) outcome" where
  "Vector_dtor T this h =
     (case vectors h this of
        None \<Rightarrow> Fault No_object
      | Some v \<Rightarrow>
          and_then (destroy_vector T v h) (\<lambda>h1 _.
          Done (h1\<lparr>vectors := (vectors h1)(this := None)\<rparr>) ()))"

text \<open>\<^verbatim>\<open>Swap\<close> exchanges only when the two buffers differ.\<close>

definition Swap_v :: "vector \<Rightarrow> vector \<Rightarrow> vector \<times> vector" where
  "Swap_v a b =
     (if buffer_m (data_m a) \<noteq> buffer_m (data_m b)
      then (let (da, db) = RawMemory_Swap (data_m a) (data_m b)
            in (a\<lparr>data_m := da, size_m := size_m b\<rparr>, b\<lparr>data_m := db, size_m := size_m a\<rparr>))
      else (a, b))"

definition Swap :: "addr \<Rightarrow> addr \<Rightarrow> 'a heap \<Rightarrow> ('a heap, unit) outcome" where
  "Swap this other h =
     (case vectors h this of
        None \<Rightarrow> Fault No_object
      | Some v \<Rightarrow>
          (case vectors h other of
             None \<Rightarrow> Fault No_object
           | Some ov \<Rightarrow>
               if buffer_m (data_m v) \<noteq> buffer_m (data_m ov)
               then (let (v', ov') = Swap_v v ov
                     in Done (h\<lparr>vectors := (vectors h)(this \<mapsto> v', other \<mapsto> ov')\<rparr>) ())
               else Done h ()))"

text \<open>\<^verbatim>\<open>operator=(const Vector& rhs)\<close>\<close>

definition copy_assign ::
  "'a elem_type \<Rightarrow> addr \<Rightarrow> addr \<Rightarrow> 'a heap \<Rightarrow> ('a heap, unit) outcome" where
  "copy_assign T this rhs h =
     (if this \<noteq> rhs
      then
        (case vectors h this of
           None \<Rightarrow> Fault No_object
         | Some v \<Rightarrow>
             (case vectors h rhs of
                None \<Rightarrow> Fault No_object
              | Some r \<Rightarrow>
                  if size_m r > capacity_m (data_m v)
                  then
                    and_then (copy_construct T r h) (\<lambda>h1 rhs_copy.
                    let (v', rhs_copy') = Swap_v v rhs_copy;
                        h2 = h1\<lparr>vectors := (vectors h1)(this \<mapsto> v')\<rparr>
                    in destroy_vector T rhs_copy' h2)
                  else
                    and_then
                      (if size_m r > size_m v
                       then
                         and_then (std_copy T (begin_v r) (size_m v) (begin_v v) h) (\<lambda>h1 _.
                         uninitialized_copy_n T (ptr_add (begin_v r) (size_m v))
                           (size_m r - size_m v) (ptr_add (begin_v v) (size_m v)) h1)
                       else
                         and_then (std_copy T (begin_v r) (size_m r) (begin_v v) h) (\<lambda>h1 _.
                         if size_m v > size_m r
                         then destroy_n T (ptr_add (begin_v v) (size_m r)) (size_m v - size_m r) h1
                         else Done h1 ())) (\<lambda>h2 _.
                    Done (h2\<lparr>vectors := (vectors h2)(this \<mapsto> v\<lparr>size_m := size_m r\<rparr>)\<rparr>) ())))
      else Done h ())"

text \<open>
  \<^verbatim>\<open>operator=(Vector&& rhs)\<close>: \<^verbatim>\<open>data_ = std::move(rhs.data_)\<close> is the move assignment of
  \<^verbatim>\<open>RawMemory\<close>, a \<^verbatim>\<open>Swap\<close>; \<^verbatim>\<open>size_ = std::move(rhs.size_)\<close> copies a \<^verbatim>\<open>size_t\<close>.
\<close>

definition move_assign :: "addr \<Rightarrow> addr \<Rightarrow> 'a heap \<Rightarrow> ('a heap, unit) outcome" where
  "move_assign this rhs h =
     (if this \<noteq> rhs
      then
        (case vectors h this of
           None \<Rightarrow> Fault No_object
         | Some v \<Rightarrow>
             (case vectors h rhs of
                None \<Rightarrow> Fault No_object
              | Some r \<Rightarrow>
                  let (data', rhs_data) = RawMemory_Swap (data_m v) (data_m r)
                  in Done (h\<lparr>vectors := (vectors h)
                              (rhs \<mapsto> r\<lparr>data_m := rhs_data\<rparr>,
                               this \<mapsto> v\<lparr>data_m := data', size_m := size_m r\<rparr>)\<rparr>) ()))
      else Done h ())"

subsection \<open>Observers\<close>

definition Size :: "'a heap \<Rightarrow> addr \<Rightarrow> nat option" where
  "Size h this = map_option size_m (vectors h this)"

definition Capacity :: "'a heap \<Rightarrow> addr \<Rightarrow> nat option" where
  "Capacity h this = map_option (\<lambda>v. capacity_m (data_m v)) (vectors h this)"

text \<open>
  \<^verbatim>\<open>operator[]\<close> with both assertions (\<^verbatim>\<open>index < size_\<close> in \<^verbatim>\<open>Vector\<close>,
  \<^verbatim>\<open>index < capacity_\<close> in \<^verbatim>\<open>RawMemory\<close>), reading the element.
\<close>

definition at_index :: "'a heap \<Rightarrow> addr \<Rightarrow> nat \<Rightarrow> fault + 'a" where
  "at_index h this index =
     (case vectors h this of
        None \<Rightarrow> Inl No_object
      | Some v \<Rightarrow>
          if index < size_m v \<and> index < capacity_m (data_m v)
          then (case load h (ptr_add (begin_v v) index) of
                  Inl f \<Rightarrow> Inl f
                | Inr Raw \<Rightarrow> Inl Read_raw
                | Inr (Live x) \<Rightarrow> Inr x)
          else Inl Out_of_bounds)"

text \<open>
  Writing an element in place: \<^verbatim>\<open>v[index] = value\<close> through the non-const \<^verbatim>\<open>operator[]\<close>
  with its two assertions, and \<^verbatim>\<open>*(v.begin() + k) = value\<close> through an iterator.  The
  value assigned is outside the store; an lvalue is copy-assigned, an rvalue move-assigned.
\<close>

fun assign_from ::
  "'a elem_type \<Rightarrow> ptr \<Rightarrow> 'a arg \<Rightarrow> 'a heap \<Rightarrow> ('a heap, unit) outcome" where
  "assign_from T p (Lvalue x) h = assign_at T (copy_assign_throws T x) p x h"
| "assign_from T p (Rvalue x) h = assign_at T (move_assign_throws T x) p x h"

definition Subscript_assign ::
  "'a elem_type \<Rightarrow> addr \<Rightarrow> nat \<Rightarrow> 'a arg \<Rightarrow> 'a heap \<Rightarrow> ('a heap, unit) outcome" where
  "Subscript_assign T this index val h =
     (case vectors h this of
        None \<Rightarrow> Fault No_object
      | Some v \<Rightarrow>
          if index < size_m v \<and> index < capacity_m (data_m v)
          then assign_from T (ptr_add (begin_v v) index) val h
          else Fault Out_of_bounds)"

definition Iterator_assign ::
  "'a elem_type \<Rightarrow> addr \<Rightarrow> nat \<Rightarrow> 'a arg \<Rightarrow> 'a heap \<Rightarrow> ('a heap, unit) outcome" where
  "Iterator_assign T this k val h =
     (case vectors h this of
        None \<Rightarrow> Fault No_object
      | Some v \<Rightarrow> assign_from T (ptr_add (begin_v v) k) val h)"

section \<open>Abstraction: what a vector holds\<close>

definition set_block :: "addr \<Rightarrow> 'a cell list \<Rightarrow> 'a heap \<Rightarrow> 'a heap" where
  "set_block b cs h = h\<lparr>blocks := (blocks h)(b \<mapsto> cs)\<rparr>"

text \<open>
  \<open>holds h this xs c\<close>: the object at \<open>this\<close> is a vector of size \<open>length xs\<close> and
  capacity \<open>c\<close>, its buffer is null exactly when \<open>c = 0\<close>, and its block has the live
  elements \<open>xs\<close> in the cells \<open>[0, size)\<close> and raw storage in \<open>[size, capacity)\<close>.
\<close>

definition holds :: "'a heap \<Rightarrow> addr \<Rightarrow> 'a list \<Rightarrow> nat \<Rightarrow> bool" where
  "holds h this xs c \<longleftrightarrow>
     (case vectors h this of
        None \<Rightarrow> False
      | Some v \<Rightarrow>
          size_m v = length xs \<and> capacity_m (data_m v) = c \<and> length xs \<le> c \<and>
          (case buffer_m (data_m v) of
             None \<Rightarrow> c = 0
           | Some a \<Rightarrow> 0 < c \<and> blocks h a = Some (map Live xs @ replicate (c - length xs) Raw)))"

text \<open>Every block of the store was handed out by \<open>Allocate\<close>.\<close>

definition heap_ok :: "'a heap \<Rightarrow> bool" where
  "heap_ok h \<longleftrightarrow> (\<forall>b. blocks h b \<noteq> None \<longrightarrow> b < next_block h)"

text \<open>Whether transferring \<open>x\<close> into a new block throws, and what the transfer leaves behind.\<close>

definition transfer_throws :: "'a elem_type \<Rightarrow> 'a \<Rightarrow> bool" where
  "transfer_throws T x =
     (if nothrow_move_constructible T \<or> \<not> copy_constructible T
      then move_throws T x else copy_throws T x)"

definition transferred :: "'a elem_type \<Rightarrow> 'a list \<Rightarrow> 'a list" where
  "transferred T xs =
     (if nothrow_move_constructible T \<or> \<not> copy_constructible T
      then map (moved_from T) xs else xs)"

text \<open>The capacity after an insertion into a vector of capacity \<open>c\<close> and size \<open>n\<close>.\<close>

definition grow :: "nat \<Rightarrow> nat \<Rightarrow> nat" where
  "grow c n = (if c > n then c else max (c * 2) (n + 1))"

section \<open>Sequences of appends\<close>

text \<open>
  A call of \<^verbatim>\<open>PushBack\<close> or of \<^verbatim>\<open>EmplaceBack\<close>, the value it appends when it returns,
  and a run of such calls on one vector that stops at the first call that does not return
  and reports \<^verbatim>\<open>Capacity()\<close> after every call.
\<close>

datatype 'a call = Push_back "'a arg" | Emplace_back "'a option"

fun append_call ::
  "'a elem_type \<Rightarrow> addr \<Rightarrow> 'a call \<Rightarrow> 'a heap \<Rightarrow> ('a heap, unit) outcome" where
  "append_call T this (Push_back val) h = PushBack T this val h"
| "append_call T this (Emplace_back values) h =
     and_then (EmplaceBack T this values h) (\<lambda>h' _. Done h' ())"

fun appended :: "'a call \<Rightarrow> 'a list" where
  "appended (Push_back (Lvalue x)) = [x]"
| "appended (Push_back (Rvalue x)) = [x]"
| "appended (Emplace_back (Some x)) = [x]"
| "appended (Emplace_back None) = []"

fun appends ::
  "'a elem_type \<Rightarrow> addr \<Rightarrow> 'a call list \<Rightarrow> 'a heap \<Rightarrow> ('a heap, nat list) outcome"
  where
  "appends T this [] h = Done h []"
| "appends T this (call # calls) h =
     and_then (append_call T this call h) (\<lambda>h1 _.
       case Capacity h1 this of
         None \<Rightarrow> Fault No_object
       | Some cap \<Rightarrow> and_then (appends T this calls h1) (\<lambda>h2 caps. Done h2 (cap # caps)))"

text \<open>The number of places where a sequence of observed capacities changes.\<close>

fun changes :: "nat list \<Rightarrow> nat" where
  "changes (a # b # cs) = (if a \<noteq> b then 1 else 0) + changes (b # cs)"
| "changes cs = 0"

section \<open>Mutations of one vector and what they leave alone\<close>

text \<open>
  The public mutators, applied to the vector at \<open>w\<close>, the two ways of writing an element
  in place, and the destructor.  Copy assignment, move assignment and \<^verbatim>\<open>Swap\<close> name their
  other operand by its address.
\<close>

datatype 'a mutation =
    M_Reserve nat
  | M_Resize nat
  | M_PushBack "'a arg"
  | M_PopBack
  | M_EmplaceBack "'a option"
  | M_Emplace nat "'a option"
  | M_Insert nat "'a arg"
  | M_Erase nat
  | M_Assign addr
  | M_MoveAssign addr
  | M_Swap addr
  | M_Subscript nat "'a arg"
  | M_Iterator nat "'a arg"
  | M_Destroy

fun mutate ::
  "'a elem_type \<Rightarrow> addr \<Rightarrow> 'a mutation \<Rightarrow> 'a heap \<Rightarrow> ('a heap, unit) outcome" where
  "mutate T w (M_Reserve n) h = Reserve T w n h"
| "mutate T w (M_Resize n) h = Resize T w n h"
| "mutate T w (M_PushBack val) h = PushBack T w val h"
| "mutate T w M_PopBack h = PopBack T w h"
| "mutate T w (M_EmplaceBack args) h =
     and_then (EmplaceBack T w args h) (\<lambda>h' _. Done h' ())"
| "mutate T w (M_Emplace offset args) h =
     and_then (Emplace T w offset args h) (\<lambda>h' _. Done h' ())"
| "mutate T w (M_Insert offset val) h =
     and_then (Insert T w offset val h) (\<lambda>h' _. Done h' ())"
| "mutate T w (M_Erase offset) h = and_then (Erase T w offset h) (\<lambda>h' _. Done h' ())"
| "mutate T w (M_Assign rhs) h = copy_assign T w rhs h"
| "mutate T w (M_MoveAssign rhs) h = move_assign w rhs h"
| "mutate T w (M_Swap other) h = Swap w other h"
| "mutate T w (M_Subscript index val) h = Subscript_assign T w index val h"
| "mutate T w (M_Iterator k val) h = Iterator_assign T w k val h"
| "mutate T w M_Destroy h = Vector_dtor T w h"

text \<open>
  A mutation of \<open>w\<close> that also writes to its other operand: moving from it or swapping
  with it.  \<open>spares v m\<close> says that this operand is not \<open>v\<close>.
\<close>

fun spares :: "addr \<Rightarrow> 'a mutation \<Rightarrow> bool" where
  "spares v (M_MoveAssign rhs) = (rhs \<noteq> v)"
| "spares v (M_Swap other) = (other \<noteq> v)"
| "spares v m = True"

text \<open>
  A run of mutations of \<open>w\<close>.  A call that throws leaves the store as the exception found
  it and the run goes on (the caller catches); undefined behaviour ends it.
\<close>

fun mutations ::
  "'a elem_type \<Rightarrow> addr \<Rightarrow> 'a mutation list \<Rightarrow> 'a heap \<Rightarrow> 'a heap option" where
  "mutations T w [] h = Some h"
| "mutations T w (m # ms) h =
     (case mutate T w m h of
        Done h1 _ \<Rightarrow> mutations T w ms h1
      | Thrown h1 \<Rightarrow> mutations T w ms h1
      | Fault f \<Rightarrow> None)"

text \<open>
  The number of cells a mutation of \<open>w\<close> asks \<^verbatim>\<open>Allocate\<close> for, \<open>0\<close> when it does not
  allocate: \<^verbatim>\<open>new_capacity\<close> or \<^verbatim>\<open>new_size\<close> when it exceeds the capacity,
  \<^verbatim>\<open>max(Capacity() * 2, size_ + 1)\<close> for an insertion into a full vector, \<^verbatim>\<open>rhs.size_\<close> for
  a copy assignment from a longer vector.  \<open>within_size_t T w ms h\<close>: in the run \<open>ms\<close> from
  \<open>h\<close> no such number leaves \<^verbatim>\<open>size_t\<close> when multiplied by \<^verbatim>\<open>sizeof(T)\<close>.
\<close>

definition growth :: "'a heap \<Rightarrow> addr \<Rightarrow> nat" where
  "growth h w =
     (case vectors h w of
        None \<Rightarrow> 0
      | Some v \<Rightarrow>
          if capacity_m (data_m v) > size_m v then 0
          else max (capacity_m (data_m v) * 2) (size_m v + 1))"

definition reserved :: "'a heap \<Rightarrow> addr \<Rightarrow> nat \<Rightarrow> nat" where
  "reserved h w n =
     (case vectors h w of
        None \<Rightarrow> 0
      | Some v \<Rightarrow> if n \<le> capacity_m (data_m v) then 0 else n)"

fun requested :: "'a heap \<Rightarrow> addr \<Rightarrow> 'a mutation \<Rightarrow> nat" where
  "requested h w (M_Reserve n) = reserved h w n"
| "requested h w (M_Resize n) = reserved h w n"
| "requested h w (M_PushBack val) = growth h w"
| "requested h w (M_EmplaceBack args) = growth h w"
| "requested h w (M_Emplace offset args) = growth h w"
| "requested h w (M_Insert offset val) = growth h w"
| "requested h w (M_Assign rhs) =
     (case vectors h rhs of None \<Rightarrow> 0 | Some r \<Rightarrow> reserved h w (size_m r))"
| "requested h w m = 0"

fun within_size_t :: "'a elem_type \<Rightarrow> addr \<Rightarrow> 'a mutation list \<Rightarrow> 'a heap \<Rightarrow> bool" where
  "within_size_t T w [] h \<longleftrightarrow> True"
| "within_size_t T w (m # ms) h \<longleftrightarrow>
     fits T (requested h w m) \<and>
     (case mutate T w m h of
        Done h1 _ \<Rightarrow> within_size_t T w ms h1
      | Thrown h1 \<Rightarrow> within_size_t T w ms h1
      | Fault f \<Rightarrow> True)"

text \<open>
  Exclusive ownership: the block \<open>pv\<close> (if any) was handed out by \<open>Allocate\<close> and no
  vector other than \<open>v\<close> has it as its buffer.
\<close>

definition sole_owner :: "addr \<Rightarrow> addr option \<Rightarrow> 'a heap \<Rightarrow> bool" where
  "sole_owner v pv h \<longleftrightarrow>
     (\<forall>a. pv = Some a \<longrightarrow>
        a < next_block h \<and>
        (\<forall>u uv. u \<noteq> v \<longrightarrow> vectors h u = Some uv \<longrightarrow> buffer_m (data_m uv) \<noteq> Some a))"

definition owns_alone :: "'a heap \<Rightarrow> addr \<Rightarrow> bool" where
  "owns_alone h v \<longleftrightarrow>
     (case vectors h v of None \<Rightarrow> False | Some vv \<Rightarrow> sole_owner v (buffer_m (data_m vv)) h)"

text \<open>
  \<open>kept v pv h h'\<close>: from \<open>h\<close> to \<open>h'\<close> the vector object at \<open>v\<close> and the block \<open>pv\<close> are
  unchanged, and \<open>v\<close> is still the only owner of \<open>pv\<close>.
\<close>

definition kept :: "addr \<Rightarrow> addr option \<Rightarrow> 'a heap \<Rightarrow> 'a heap \<Rightarrow> bool" where
  "kept v pv h h' \<longleftrightarrow>
     vectors h' v = vectors h v \<and> (\<forall>a. pv = Some a \<longrightarrow> blocks h' a = blocks h a) \<and>
     sole_owner v pv h'"

text \<open>What holds of the store an operation leaves, whether it returns or throws.\<close>

definition on_exit :: "('h, 'r) outcome \<Rightarrow> ('h \<Rightarrow> bool) \<Rightarrow> bool" where
  "on_exit m Q = (case m of Done h' r \<Rightarrow> Q h' | Thrown h' \<Rightarrow> Q h' | Fault f \<Rightarrow> True)"

text \<open>A pointer that does not point into the block \<open>pv\<close>.\<close>

definition other_block :: "addr option \<Rightarrow> addr option \<Rightarrow> bool" where
  "other_block pv b \<longleftrightarrow> (\<forall>a. pv = Some a \<longrightarrow> b \<noteq> Some a)"

text \<open>
  The transfer into a new block is by copy: \<^verbatim>\<open>T\<close> is copy-constructible and its move
  constructor is not \<^verbatim>\<open>noexcept\<close>.
\<close>

definition copies_on_transfer :: "'a elem_type \<Rightarrow> bool" where
  "copies_on_transfer T \<longleftrightarrow> \<not> (nothrow_move_constructible T \<or> \<not> copy_constructible T)"

text \<open>The construction of the new element from the argument of a call does not throw.\<close>

fun constructs :: "'a elem_type \<Rightarrow> 'a call \<Rightarrow> bool" where
  "constructs T (Push_back val) \<longleftrightarrow> forwarded T val \<noteq> None"
| "constructs T (Emplace_back values) \<longleftrightarrow> values \<noteq> None"

text \<open>
  \<open>reallocated h h' this n\<close>: in \<open>h'\<close> the buffer of the vector at \<open>this\<close> is a block of
  \<open>n\<close> cells at an address that \<open>h\<close> had not handed out, and \<open>n\<close> is its capacity.
\<close>

definition reallocated :: "'a heap \<Rightarrow> 'a heap \<Rightarrow> addr \<Rightarrow> nat \<Rightarrow> bool" where
  "reallocated h h' this n \<longleftrightarrow>
     (case vectors h' this of
        None \<Rightarrow> False
      | Some v' \<Rightarrow>
          buffer_m (data_m v') = Some (next_block h) \<and> capacity_m (data_m v') = n \<and>
          blocks h (next_block h) = None \<and>
          map_option length (blocks h' (next_block h)) = Some n)"

text \<open>
  A run of appends whose caller catches every exception and goes on: \<^verbatim>\<open>Capacity()\<close> is
  observed after every call, whether it returned or threw.  Undefined behaviour ends the
  run with no result.
\<close>

definition caught :: "('h, 'r) outcome \<Rightarrow> 'h option" where
  "caught m = (case m of Done h r \<Rightarrow> Some h | Thrown h \<Rightarrow> Some h | Fault f \<Rightarrow> None)"

fun attempts ::
  "'a elem_type \<Rightarrow> addr \<Rightarrow> 'a call list \<Rightarrow> 'a heap \<Rightarrow> ('a heap \<times> nat list) option"
  where
  "attempts T this [] h = Some (h, [])"
| "attempts T this (call # calls) h =
     (case caught (append_call T this call h) of
        None \<Rightarrow> None
      | Some h1 \<Rightarrow>
          (case Capacity h1 this of
             None \<Rightarrow> None
           | Some cap \<Rightarrow>
               map_option (\<lambda>(h2, caps). (h2, cap # caps)) (attempts T this calls h1)))"

section \<open>Concrete element types and stores\<close>

text \<open>\<^verbatim>\<open>int\<close>: nothing throws, a move is a copy, no constructor or destructor is needed.\<close>

definition Int_type :: "int elem_type" where
  "Int_type =
     \<lparr>copy_throws = (\<lambda>x. False), move_throws = (\<lambda>x. False),
      copy_assign_throws = (\<lambda>x. False), move_assign_throws = (\<lambda>x. False),
      moved_from = (\<lambda>x. x), default_ctor = Some 0,
      nothrow_move_constructible = True, copy_constructible = True, trivial = True,
      size_of = 4\<rparr>"

text \<open>
  A type like \<^verbatim>\<open>std::string\<close>: a class with a destructor, a \<^verbatim>\<open>noexcept\<close> move that leaves
  the source empty, and copies that do not throw here.
\<close>

definition String_type :: "string elem_type" where
  "String_type =
     \<lparr>copy_throws = (\<lambda>x. False), move_throws = (\<lambda>x. False),
      copy_assign_throws = (\<lambda>x. False), move_assign_throws = (\<lambda>x. False),
      moved_from = (\<lambda>x. []), default_ctor = Some [],
      nothrow_move_constructible = True, copy_constructible = True, trivial = False,
      size_of = 32\<rparr>"

text \<open>
  A class with a destructor whose copy constructor throws for the value \<open>13\<close> and whose
  move constructor is not \<^verbatim>\<open>noexcept\<close>, so that reallocation copies.
\<close>

definition Guarded_type :: "nat elem_type" where
  "Guarded_type =
     \<lparr>copy_throws = (\<lambda>x. x = 13), move_throws = (\<lambda>x. False),
      copy_assign_throws = (\<lambda>x. False), move_assign_throws = (\<lambda>x. False),
      moved_from = (\<lambda>x. 0), default_ctor = Some 0,
      nothrow_move_constructible = False, copy_constructible = True, trivial = False,
      size_of = 8\<rparr>"

definition empty_heap :: "'a heap" where
  "empty_heap = \<lparr>blocks = Map.empty, next_block = 0, vectors = Map.empty\<rparr>"

text \<open>One vector at address \<open>0\<close>, full: size and capacity \<open>2\<close>.\<close>

definition full_guarded :: "nat heap" where
  "full_guarded =
     \<lparr>blocks = [0 \<mapsto> [Live 13, Live 5]], next_block = 1,
      vectors = [0 \<mapsto> \<lparr>data_m = \<lparr>buffer_m = Some 0, capacity_m = 2\<rparr>, size_m = 2\<rparr>]\<rparr>"

text \<open>
  \<^verbatim>\<open>A = {"a", "b", "c"}\<close> at address \<open>0\<close>, \<^verbatim>\<open>B = {"z"}\<close> at address \<open>1\<close> and an empty
  vector at address \<open>2\<close>.
\<close>

definition three_vectors :: "string heap" where
  "three_vectors =
     \<lparr>blocks = [0 \<mapsto> [Live ''a'', Live ''b'', Live ''c''], 1 \<mapsto> [Live ''z'']],
      next_block = 2,
      vectors = [0 \<mapsto> \<lparr>data_m = \<lparr>buffer_m = Some 0, capacity_m = 3\<rparr>, size_m = 3\<rparr>,
                 1 \<mapsto> \<lparr>data_m = \<lparr>buffer_m = Some 1, capacity_m = 1\<rparr>, size_m = 1\<rparr>,
                 2 \<mapsto> \<lparr>data_m = \<lparr>buffer_m = None, capacity_m = 0\<rparr>, size_m = 0\<rparr>]\<rparr>"

text \<open>A default-constructed vector at address \<open>0\<close>.\<close>

definition empty_vector :: "'a heap" where
  "empty_vector =
     \<lparr>blocks = Map.empty, next_block = 0,
      vectors = [0 \<mapsto> \<lparr>data_m = \<lparr>buffer_m = None, capacity_m = 0\<rparr>, size_m = 0\<rparr>]\<rparr>"

text \<open>The vector \<open>[2, 4, 6]\<close> at address \<open>0\<close> with capacity \<open>c\<close> (\<open>3\<close> at least).\<close>

definition ints_246 :: "nat \<Rightarrow> int heap" where
  "ints_246 c =
     \<lparr>blocks = [0 \<mapsto> [Live 2, Live 4, Live 6] @ replicate (c - 3) Raw], next_block = 1,
      vectors = [0 \<mapsto> \<lparr>data_m = \<lparr>buffer_m = Some 0, capacity_m = c\<rparr>, size_m = 3\<rparr>]\<rparr>"

text \<open>The vector \<open>[1, 2, 3, 4]\<close> at address \<open>0\<close> with capacity \<open>4\<close>.\<close>

definition ints_1234 :: "int heap" where
  "ints_1234 =
     \<lparr>blocks = [0 \<mapsto> [Live 1, Live 2, Live 3, Live 4]], next_block = 1,
      vectors = [0 \<mapsto> \<lparr>data_m = \<lparr>buffer_m = Some 0, capacity_m = 4\<rparr>, size_m = 4\<rparr>]\<rparr>"

text \<open>
  A move-only type with a trivial destructor: the copy constructor is deleted, the move
  constructor is not \<^verbatim>\<open>noexcept\<close>, throws for the value \<open>13\<close> and otherwise leaves \<open>0\<close> in
  its source.
\<close>

definition Movable_type :: "nat elem_type" where
  "Movable_type =
     \<lparr>copy_throws = (\<lambda>x. False), move_throws = (\<lambda>x. x = 13),
      copy_assign_throws = (\<lambda>x. False), move_assign_throws = (\<lambda>x. False),
      moved_from = (\<lambda>x. 0), default_ctor = Some 0,
      nothrow_move_constructible = False, copy_constructible = False, trivial = True,
      size_of = 8\<rparr>"

text \<open>
  A copyable type with a trivial destructor whose copy constructor throws for the value
  \<open>13\<close> and whose move constructor is not \<^verbatim>\<open>noexcept\<close>.
\<close>

definition Checked_type :: "nat elem_type" where
  "Checked_type =
     \<lparr>copy_throws = (\<lambda>x. x = 13), move_throws = (\<lambda>x. False),
      copy_assign_throws = (\<lambda>x. False), move_assign_throws = (\<lambda>x. False),
      moved_from = (\<lambda>x. 0), default_ctor = Some 0,
      nothrow_move_constructible = False, copy_constructible = True, trivial = True,
      size_of = 8\<rparr>"

text \<open>One vector \<open>[5, 13]\<close> at address \<open>0\<close>, full.\<close>

definition full_movable :: "nat heap" where
  "full_movable =
     \<lparr>blocks = [0 \<mapsto> [Live 5, Live 13]], next_block = 1,
      vectors = [0 \<mapsto> \<lparr>data_m = \<lparr>buffer_m = Some 0, capacity_m = 2\<rparr>, size_m = 2\<rparr>]\<rparr>"
section \<open>Lemmas about cells, blocks and the algorithms\<close>

lemma set_block_simps [simp]:
  "blocks (set_block b cs h) = (blocks h)(b \<mapsto> cs)"
  "vectors (set_block b cs h) = vectors h"
  "next_block (set_block b cs h) = next_block h"
  "set_block b cs (set_block b ds h) = set_block b cs h"
  by (simp_all add: set_block_def)

lemma set_block_same: "blocks h b = Some cs \<Longrightarrow> set_block b cs h = h"
  by (simp add: set_block_def map_upd_triv)

lemma set_block_twice:
  "a \<noteq> b \<Longrightarrow> set_block b B' (set_block a A' (set_block b B (set_block a A h)))
     = set_block b B' (set_block a A' h)"
  by (simp add: set_block_def fun_upd_twist)

lemma and_then_simps [simp]:
  "and_then (Done h r) f = f h r"
  "and_then (Thrown h) f = Thrown h"
  "and_then (Fault e) f = Fault e"
  by (simp_all add: and_then_def)

lemma and_then_Thrown_not_Done [simp]: "and_then m (\<lambda>h _. Thrown h) \<noteq> Done h' r"
  by (cases m) simp_all

lemma and_then_Done_iff:
  "and_then m f = Done h' r \<longleftrightarrow> (\<exists>h1 r1. m = Done h1 r1 \<and> f h1 r1 = Done h' r)"
  by (cases m) simp_all

lemma load_block:
  "blocks h b = Some cs \<Longrightarrow>
   load h (Some b, i) = (if i < length cs then Inr (cs ! i) else Inl Out_of_bounds)"
  by (simp add: load_def)

lemma store_block:
  "blocks h b = Some cs \<Longrightarrow> store (Some b, i) c h = set_block b (cs[i := c]) h"
  by (simp add: store_def set_block_def)

lemma ptr_add_simp [simp]: "ptr_add (b, i) k = (b, i + k)"
  by (simp add: ptr_add_def)

lemma destroy_n_live:
  "blocks h b = Some (pre @ map Live xs @ post) \<Longrightarrow> i = length pre \<Longrightarrow>
   destroy_n T (Some b, i) (length xs) h =
     Done (set_block b (pre @ replicate (length xs) Raw @ post) h) ()"
proof (induction xs arbitrary: pre h i)
  case Nil
  then show ?case by (simp add: set_block_same)
next
  case (Cons x xs)
  have "blocks (set_block b (pre @ Raw # map Live xs @ post) h) b
        = Some ((pre @ [Raw]) @ map Live xs @ post)" by simp
  from Cons.IH [OF this, of "Suc i"] Cons.prems show ?case
    by (simp add: destroy_at_def load_block store_block nth_append replicate_app_Cons_same)
qed

lemma construct_at_block:
  "blocks h b = Some (pre @ c # post) \<Longrightarrow> i = length pre \<Longrightarrow>
   construct_at (Some b, i) x h = Done (set_block b (pre @ Live x # post) h) ()"
  by (simp add: construct_at_def load_block store_block)

lemma uninit_copy_loop_Done:
  "a \<noteq> b \<Longrightarrow> blocks h a = Some (spre @ map Live xs @ spost) \<Longrightarrow>
   blocks h b = Some (dpre @ replicate (length xs) Raw @ dpost) \<Longrightarrow>
   i = length spre \<Longrightarrow> d0 + k = length dpre \<Longrightarrow>
   uninit_copy_loop T (Some a, i) (Some b, d0) k (length xs) h = Done h' u \<longleftrightarrow>
     (\<forall>x\<in>set xs. \<not> copy_throws T x) \<and> h' = set_block b (dpre @ map Live xs @ dpost) h"
proof (induction xs arbitrary: spre dpre h i k)
  case Nil
  then show ?case by (auto simp: set_block_same)
next
  case (Cons x xs)
  let ?h1 = "set_block b (dpre @ Live x # replicate (length xs) Raw @ dpost) h"
  have A: "blocks ?h1 a = Some ((spre @ [Live x]) @ map Live xs @ spost)"
    using Cons.prems by simp
  have B: "blocks ?h1 b = Some ((dpre @ [Live x]) @ replicate (length xs) Raw @ dpost)"
    by simp
  have C: "d0 + Suc k = length (dpre @ [Live x])" using Cons.prems by simp
  have D: "Suc i = length (spre @ [Live x])" using Cons.prems by simp
  have E: "construct_at (Some b, d0 + k) x h = Done ?h1 ()"
    by (rule construct_at_block [where c = Raw]) (use Cons.prems in simp_all)
  from Cons.IH [OF Cons.prems(1) A B D C] E Cons.prems show ?case
    by (simp add: load_block nth_append)
qed

lemma uninit_move_loop_Done:
  "a \<noteq> b \<Longrightarrow> blocks h a = Some (spre @ map Live xs @ spost) \<Longrightarrow>
   blocks h b = Some (dpre @ replicate (length xs) Raw @ dpost) \<Longrightarrow>
   i = length spre \<Longrightarrow> d0 + k = length dpre \<Longrightarrow>
   uninit_move_loop T (Some a, i) (Some b, d0) k (length xs) h = Done h' u \<longleftrightarrow>
     (\<forall>x\<in>set xs. \<not> move_throws T x) \<and>
     h' = set_block b (dpre @ map Live xs @ dpost)
            (set_block a (spre @ map Live (map (moved_from T) xs) @ spost) h)"
proof (induction xs arbitrary: spre dpre h i k)
  case Nil
  then show ?case by (auto simp: set_block_same)
next
  case (Cons x xs)
  let ?h0 = "set_block a (spre @ Live (moved_from T x) # map Live xs @ spost) h"
  let ?h1 = "set_block b (dpre @ Live x # replicate (length xs) Raw @ dpost) ?h0"
  have A: "blocks ?h1 a = Some ((spre @ [Live (moved_from T x)]) @ map Live xs @ spost)"
    using Cons.prems by simp
  have B: "blocks ?h1 b = Some ((dpre @ [Live x]) @ replicate (length xs) Raw @ dpost)"
    by simp
  have C: "d0 + Suc k = length (dpre @ [Live x])" using Cons.prems by simp
  have D: "Suc i = length (spre @ [Live (moved_from T x)])" using Cons.prems by simp
  have S: "store (Some a, i) (Live (moved_from T x)) h = ?h0"
    using Cons.prems by (simp add: store_block)
  have E: "construct_at (Some b, d0 + k) x ?h0 = Done ?h1 ()"
    by (rule construct_at_block [where c = Raw]) (use Cons.prems in simp_all)
  from Cons.IH [OF Cons.prems(1) A B D C] E S Cons.prems show ?case
    by (simp add: load_block nth_append set_block_twice)
qed


lemma length_transferred [simp]: "length (transferred T xs) = length xs"
  by (simp add: transferred_def)

lemma transfer_n_Done:
  "a \<noteq> b \<Longrightarrow> blocks h a = Some (spre @ map Live xs @ spost) \<Longrightarrow>
   blocks h b = Some (dpre @ replicate (length xs) Raw @ dpost) \<Longrightarrow>
   i = length spre \<Longrightarrow> d0 = length dpre \<Longrightarrow>
   transfer_n T (Some a, i) (length xs) (Some b, d0) h = Done h' u \<longleftrightarrow>
     (\<forall>x\<in>set xs. \<not> transfer_throws T x) \<and>
     h' = set_block b (dpre @ map Live xs @ dpost)
            (set_block a (spre @ map Live (transferred T xs) @ spost) h)"
  using uninit_move_loop_Done [of a b h spre xs spost dpre dpost i d0 0 T h' u]
        uninit_copy_loop_Done [of a b h spre xs spost dpre dpost i d0 0 T h' u]
  by (simp add: transfer_n_def uninitialized_move_n_def uninitialized_copy_n_def
        transfer_throws_def transferred_def set_block_same)

lemma transfer_n_0 [simp]: "transfer_n T p 0 q h = Done h ()"
  by (simp add: transfer_n_def uninitialized_move_n_def uninitialized_copy_n_def)

lemma try_catch_Done_iff [simp]:
  "try_catch m (\<lambda>h. and_then (f h) (\<lambda>h' _. Thrown h')) = Done h' r \<longleftrightarrow> m = Done h' r"
  by (cases m) (simp_all add: try_catch_def)

lemma unwinding_Done_iff [simp]: "unwinding buf m = Done h' r \<longleftrightarrow> m = Done h' r"
  by (simp add: unwinding_def)

lemma holds_vector:
  "holds h this xs c \<Longrightarrow> \<exists>v. vectors h this = Some v"
  by (cases "vectors h this") (simp_all add: holds_def)

lemma holds_Some:
  "vectors h this = Some v \<Longrightarrow>
   holds h this xs c \<longleftrightarrow>
     size_m v = length xs \<and> capacity_m (data_m v) = c \<and> length xs \<le> c \<and>
     (buffer_m (data_m v) = None \<longrightarrow> c = 0) \<and>
     (\<forall>a. buffer_m (data_m v) = Some a \<longrightarrow>
        0 < c \<and> blocks h a = Some (map Live xs @ replicate (c - length xs) Raw))"
  by (cases "buffer_m (data_m v)") (simp_all add: holds_def)

lemma emplace_at_Done_iff:
  "emplace_at p arg h = Done h' u \<longleftrightarrow> (\<exists>x. arg = Some x \<and> construct_at p x h = Done h' u)"
  by (cases arg) (simp_all add: emplace_at_def)

lemma EmplaceBack_spare:
  assumes "holds h this xs c" "length xs < c" "EmplaceBack T this arg h = Done h' r"
  shows "\<exists>x. arg = Some x \<and> holds h' this (xs @ [x]) c \<and> next_block h' = next_block h
           \<and> dom (blocks h') = dom (blocks h)"
proof -
  from holds_vector [OF assms(1)] obtain v where vv: "vectors h this = Some v" ..
  from assms(1) have v: "size_m v = length xs" "capacity_m (data_m v) = c"
    and buf: "\<And>a. buffer_m (data_m v) = Some a \<Longrightarrow>
       0 < c \<and> blocks h a = Some (map Live xs @ replicate (c - length xs) Raw)"
    and nobuf: "buffer_m (data_m v) = None \<Longrightarrow> c = 0"
    by (simp_all add: holds_Some [OF vv])
  from nobuf assms(2) obtain a where a: "buffer_m (data_m v) = Some a"
    by (cases "buffer_m (data_m v)") auto
  from assms(2) obtain m where m: "c - length xs = Suc m" by (cases "c - length xs") auto
  from buf [OF a] m have blk: "blocks h a = Some (map Live xs @ Raw # replicate m Raw)" by simp
  have eq: "EmplaceBack T this arg h =
      and_then (emplace_at (Some a, length xs) arg h)
        (\<lambda>h1 _. Done (h1\<lparr>vectors := (vectors h1)(this \<mapsto> v\<lparr>size_m := length xs + 1\<rparr>)\<rparr>)
                    (Some a, length xs))"
    using vv v a assms(2) by (simp add: EmplaceBack_def end_v_def)
  from assms(3) eq obtain x h1 where x: "arg = Some x"
    and c1: "construct_at (Some a, length xs) x h = Done h1 ()"
    and h': "h' = h1\<lparr>vectors := (vectors h1)(this \<mapsto> v\<lparr>size_m := length xs + 1\<rparr>)\<rparr>"
    by (auto simp: and_then_Done_iff emplace_at_Done_iff)
  have "construct_at (Some a, length xs) x h
        = Done (set_block a (map Live xs @ Live x # replicate m Raw) h) ()"
    by (rule construct_at_block [OF blk]) simp
  with c1 have h1: "h1 = set_block a (map Live xs @ Live x # replicate m Raw) h" by simp
  have "c - Suc (length xs) = m" using m by simp
  moreover have "Suc (length xs) \<le> c" using assms(2) by simp
  ultimately have "holds h' this (xs @ [x]) c"
    using v a by (simp add: holds_def h' h1)
  moreover have "dom (blocks h') = dom (blocks h)" using blk by (auto simp: h' h1)
  ultimately show ?thesis using x by (simp add: h' h1)
qed

lemma Allocate_pos:
  "0 < n \<Longrightarrow> Allocate n h =
     (h\<lparr>blocks := (blocks h)(next_block h \<mapsto> replicate n Raw),
        next_block := Suc (next_block h)\<rparr>, Some (next_block h))"
  by (simp add: Allocate_def)

lemma Deallocate_block:
  "blocks h a = Some cs \<Longrightarrow> Deallocate (Some a) h = Done (h\<lparr>blocks := (blocks h)(a := None)\<rparr>) ()"
  by (simp add: Deallocate_def)

lemma EmplaceBack_full:
  assumes "holds h this xs c" "\<not> length xs < c" "heap_ok h"
    "EmplaceBack T this arg h = Done h' r"
  shows "\<exists>x. arg = Some x \<and> holds h' this (xs @ [x]) (max (c * 2) (length xs + 1)) \<and>
           heap_ok h' \<and> (\<forall>x\<in>set xs. \<not> transfer_throws T x) \<and>
           r = (Some (next_block h), length xs) \<and>
           (\<exists>v'. vectors h' this = Some v' \<and> buffer_m (data_m v') = Some (next_block h))"
proof -
  let ?n = "length xs"
  let ?nb = "next_block h"
  define nc where "nc = max (c * 2) (Suc ?n)"
  from holds_vector [OF assms(1)] obtain v where vv: "vectors h this = Some v" ..
  from assms(1) have v: "size_m v = ?n" "capacity_m (data_m v) = c" and le: "?n \<le> c"
    and buf: "\<And>a. buffer_m (data_m v) = Some a \<Longrightarrow>
       0 < c \<and> blocks h a = Some (map Live xs @ replicate (c - length xs) Raw)"
    and nobuf: "buffer_m (data_m v) = None \<Longrightarrow> c = 0"
    by (simp_all add: holds_Some [OF vv])
  from le assms(2) have c: "c = ?n" by simp
  let ?h0 = "h\<lparr>blocks := (blocks h)(?nb \<mapsto> replicate nc Raw), next_block := Suc ?nb\<rparr>"
  have al: "Allocate nc h = (?h0, Some ?nb)" by (rule Allocate_pos) (simp add: nc_def)
  define m where "m = nc - Suc ?n"
  have m: "nc = ?n + Suc m" by (simp add: m_def nc_def)
  have blk0: "blocks ?h0 ?nb = Some (replicate ?n Raw @ Raw # replicate m Raw)"
    by (simp add: m replicate_add replicate_append_same)
  let ?v' = "v\<lparr>data_m := (data_m v)\<lparr>buffer_m := Some ?nb, capacity_m := nc\<rparr>,
                         size_m := Suc ?n\<rparr>"
  have eq: "EmplaceBack T this arg h =
     unwinding (Some ?nb)
       (and_then (emplace_at (Some ?nb, ?n) arg ?h0) (\<lambda>h1 _.
        and_then
          (try_catch (transfer_n T (begin_v v) ?n (Some ?nb, 0) h1)
             (\<lambda>h2. and_then (destroy_n T (Some ?nb, 0) (Suc ?n) h2) (\<lambda>h3 _. Thrown h3))) (\<lambda>h2 _.
        and_then (destroy_n T (begin_v v) ?n h2) (\<lambda>h3 _.
        and_then (Deallocate (buffer_m (data_m v))
           (h3\<lparr>vectors := (vectors h3)(this \<mapsto> ?v')\<rparr>)) (\<lambda>h5 _.
          Done h5 (Some ?nb, ?n))))))"
    using vv v c al [unfolded nc_def]
    by (simp add: EmplaceBack_def Let_def RawMemory_Swap_def nc_def)
  let ?h1 = "\<lambda>x. set_block ?nb (replicate ?n Raw @ Live x # replicate m Raw) ?h0"
  from assms(4) obtain x h2 h3 where x: "arg = Some x"
    and t: "transfer_n T (begin_v v) ?n (Some ?nb, 0) (?h1 x) = Done h2 ()"
    and d: "destroy_n T (begin_v v) ?n h2 = Done h3 ()"
    and e: "Deallocate (buffer_m (data_m v))
           (h3\<lparr>vectors := (vectors h3)(this \<mapsto> ?v')\<rparr>) = Done h' ()"
    and r: "r = (Some ?nb, ?n)"
    unfolding eq
    by (auto simp: and_then_Done_iff emplace_at_Done_iff construct_at_block [OF blk0])
  have nc: "max (c * 2) (?n + 1) = nc" by (simp add: nc_def)
  show ?thesis unfolding nc
  proof (cases "buffer_m (data_m v)")
    case None
    with nobuf c have xs: "xs = []" by simp
    from t xs have h2: "h2 = ?h1 x" by simp
    from d xs have h3: "h3 = h2" by simp
    from e None have h': "h' = (?h1 x)\<lparr>vectors := (vectors h)(this \<mapsto> ?v')\<rparr>"
      by (simp add: Deallocate_def h3 h2)
    have "m = nc - 1" using m xs by simp
    then have "holds h' this [x] nc" using xs m by (simp add: holds_def h')
    moreover have "heap_ok h'" using assms(3) by (auto simp: heap_ok_def h' less_Suc_eq)
    ultimately show "\<exists>x. arg = Some x \<and> holds h' this (xs @ [x]) nc \<and>
           heap_ok h' \<and> (\<forall>x\<in>set xs. \<not> transfer_throws T x) \<and>
           r = (Some (next_block h), length xs) \<and>
           (\<exists>v'. vectors h' this = Some v' \<and> buffer_m (data_m v') = Some (next_block h))"
      using x xs r by (simp add: h')
  next
    case (Some a)
    from buf [OF Some] c have blk: "blocks h a = Some (map Live xs)" by simp
    with assms(3) have ne: "a \<noteq> ?nb" by (auto simp: heap_ok_def)
    have A: "blocks (?h1 x) a = Some ([] @ map Live xs @ [])" using blk ne by simp
    have B: "blocks (?h1 x) ?nb = Some ([] @ replicate ?n Raw @ Live x # replicate m Raw)" by simp
    from t Some transfer_n_Done [OF ne A B, of 0 0 T h2 "()"]
    have nt: "\<forall>x\<in>set xs. \<not> transfer_throws T x"
      and h2: "h2 = set_block ?nb (map Live xs @ Live x # replicate m Raw)
                      (set_block a (map Live (transferred T xs)) (?h1 x))"
      by (simp_all add: begin_v_def)
    have C: "blocks h2 a = Some ([] @ map Live (transferred T xs) @ [])" using ne by (simp add: h2)
    from d Some destroy_n_live [OF C, of 0 T]
    have h3: "h3 = set_block a (replicate ?n Raw) h2" by (simp add: begin_v_def)
    from e Some have h': "h' = h3\<lparr>vectors := (vectors h3)(this \<mapsto> ?v'),
                                  blocks := (blocks h3)(a := None)\<rparr>"
      by (simp add: Deallocate_def h3)
    have "m = nc - Suc ?n" using m by simp
    then have "holds h' this (xs @ [x]) nc" using ne m
      by (simp add: holds_def h' h3 h2)
    moreover have "heap_ok h'" using assms(3) by (auto simp: heap_ok_def h' h3 h2 less_Suc_eq)
    ultimately show "\<exists>x. arg = Some x \<and> holds h' this (xs @ [x]) nc \<and>
           heap_ok h' \<and> (\<forall>x\<in>set xs. \<not> transfer_throws T x) \<and>
           r = (Some (next_block h), length xs) \<and>
           (\<exists>v'. vectors h' this = Some v' \<and> buffer_m (data_m v') = Some (next_block h))"
      using x nt r by (simp add: h')
  qed
qed

lemma holds_Capacity: "holds h this xs c \<Longrightarrow> Capacity h this = Some c"
  by (auto simp: holds_def Capacity_def split: option.splits)

lemma holds_Size: "holds h this xs c \<Longrightarrow> Size h this = Some (length xs)"
  by (auto simp: holds_def Size_def split: option.splits)

lemma heap_ok_dom: "heap_ok h \<longleftrightarrow> (\<forall>b\<in>dom (blocks h). b < next_block h)"
  by (auto simp: heap_ok_def)

lemma heap_ok_same_dom:
  "heap_ok h \<Longrightarrow> next_block h' = next_block h \<Longrightarrow> dom (blocks h') = dom (blocks h) \<Longrightarrow> heap_ok h'"
  by (simp add: heap_ok_dom)

lemma EmplaceBack_Done:
  assumes "holds h this xs c" "heap_ok h" "EmplaceBack T this arg h = Done h' r"
  shows "\<exists>x. arg = Some x \<and> holds h' this (xs @ [x]) (grow c (length xs)) \<and> heap_ok h'"
proof (cases "length xs < c")
  case True
  from EmplaceBack_spare [OF assms(1) True assms(3)] assms(2) True show ?thesis
    by (auto simp: grow_def intro: heap_ok_same_dom)
next
  case False
  from EmplaceBack_full [OF assms(1) False assms(2) assms(3)] False show ?thesis
    by (auto simp: grow_def)
qed

lemma append_call_Done:
  assumes "holds h this xs c" "heap_ok h" "append_call T this call h = Done h' u"
  shows "holds h' this (xs @ appended call) (grow c (length xs)) \<and> heap_ok h' \<and>
         length (appended call) = 1"
proof (cases call)
  case (Push_back val)
  with assms(3) obtain r where "EmplaceBack T this (forwarded T val) h = Done h' r"
    by (auto simp: PushBack_def and_then_Done_iff)
  from EmplaceBack_Done [OF assms(1,2) this] Push_back show ?thesis
    by (cases val) (auto split: if_splits)
next
  case (Emplace_back vals)
  with assms(3) obtain r where "EmplaceBack T this vals h = Done h' r"
    by (auto simp: and_then_Done_iff)
  from EmplaceBack_Done [OF assms(1,2) this] Emplace_back show ?thesis
    by auto
qed

lemma appends_Cons_Done:
  assumes "appends T this (call # calls) h = Done h' caps"
  obtains h1 cap caps' where "append_call T this call h = Done h1 ()"
    "Capacity h1 this = Some cap" "appends T this calls h1 = Done h' caps'" "caps = cap # caps'"
  using assms by (auto simp: and_then_Done_iff split: option.splits)

lemma appends_Done:
  "holds h this xs c \<Longrightarrow> heap_ok h \<Longrightarrow> appends T this calls h = Done h' caps \<Longrightarrow>
   holds h' this (xs @ concat (map appended calls)) (last (c # caps)) \<and> heap_ok h' \<and>
   length (concat (map appended calls)) = length calls \<and> length caps = length calls \<and>
   sorted (c # caps)"
proof (induction calls arbitrary: h xs c caps)
  case Nil
  then show ?case by simp
next
  case (Cons call calls)
  from Cons.prems(3) obtain h1 cap caps' where
    1: "append_call T this call h = Done h1 ()" and 2: "Capacity h1 this = Some cap"
    and 3: "appends T this calls h1 = Done h' caps'" and 4: "caps = cap # caps'"
    by (rule appends_Cons_Done)
  from append_call_Done [OF Cons.prems(1,2) 1]
  have h1: "holds h1 this (xs @ appended call) (grow c (length xs))" "heap_ok h1"
    and l: "length (appended call) = 1" by simp_all
  from holds_Capacity [OF h1(1)] 2 have cap: "cap = grow c (length xs)" by simp
  have "c \<le> cap" by (simp add: cap grow_def max_def)
  with Cons.IH [OF h1 3] l show ?case
    by (auto simp: 4 cap [symmetric])
qed


lemma holds_le: "holds h this xs c \<Longrightarrow> length xs \<le> c"
  by (auto simp: holds_def split: option.splits)

lemma appends_changes:
  "holds h this xs c \<Longrightarrow> heap_ok h \<Longrightarrow> appends T this calls h = Done h' caps \<Longrightarrow>
   r0 = 0 \<or> (2 ^ r0 \<le> 2 * c \<and> c < 2 * length xs) \<Longrightarrow>
   r0 + changes (c # caps) = 0 \<or>
   (2 ^ (r0 + changes (c # caps)) \<le> 2 * last (c # caps) \<and>
    last (c # caps) < 2 * (length xs + length calls))"
proof (induction calls arbitrary: h xs c caps r0)
  case Nil
  then show ?case by auto
next
  case (Cons call calls)
  from Cons.prems(3) obtain h1 cap caps' where
    1: "append_call T this call h = Done h1 ()" and 2: "Capacity h1 this = Some cap"
    and 3: "appends T this calls h1 = Done h' caps'" and 4: "caps = cap # caps'"
    by (rule appends_Cons_Done)
  from append_call_Done [OF Cons.prems(1,2) 1]
  have h1: "holds h1 this (xs @ appended call) (grow c (length xs))" "heap_ok h1"
    and l: "length (appended call) = 1" by simp_all
  from holds_Capacity [OF h1(1)] 2 have cap: "cap = grow c (length xs)" by simp
  have le: "length xs \<le> c" using Cons.prems(1) by (rule holds_le)
  define r1 where "r1 = r0 + (if c \<noteq> cap then 1 else 0)"
  have pre: "r1 = 0 \<or> (2 ^ r1 \<le> 2 * cap \<and> cap < 2 * length (xs @ appended call))"
  proof (cases "length xs < c")
    case True
    then have "cap = c" by (simp add: cap grow_def)
    with Cons.prems(4) l show ?thesis by (auto simp: r1_def)
  next
    case False
    with le have c: "c = length xs" by simp
    have capv: "cap = max (2 * c) (c + 1)" using False c by (simp add: cap grow_def mult.commute)
    then have ne: "c \<noteq> cap" by (simp add: max_def)
    have "(2::nat) ^ (r0 + 1) \<le> 2 * cap"
    proof (cases "r0 = 0")
      case True
      then show ?thesis using capv by (simp add: max_def)
    next
      case False
      with Cons.prems(4) have "(2::nat) ^ r0 \<le> 2 * c" by simp
      then have "(2::nat) ^ (r0 + 1) \<le> 2 * (2 * c)" by simp
      also have "\<dots> \<le> 2 * cap" using capv by (simp add: max_def)
      finally show ?thesis .
    qed
    moreover have "cap < 2 * length (xs @ appended call)" using capv c l by (simp add: max_def)
    ultimately show ?thesis using ne by (simp add: r1_def)
  qed
  have h1c: "holds h1 this (xs @ appended call) cap" using h1(1) cap by simp
  from Cons.IH [OF h1c h1(2) 3 pre] l show ?case
    by (simp add: 4 r1_def add.assoc)
qed

lemma and_then_unit [simp]: "and_then m Done = m"
  by (cases m) simp_all


lemma Emplace_at_end:
  assumes "vectors h this = Some v" "offset = size_m v"
  shows "Emplace T this offset arg h = EmplaceBack T this arg h"
proof (cases "capacity_m (data_m v) > size_m v")
  case True
  with assms show ?thesis 
  by (simp add: Emplace_def EmplaceBack_def begin_v_def end_v_def)
next
  case False
  with assms show ?thesis 
    by (simp add: Emplace_def EmplaceBack_def Let_def split_def begin_v_def)
qed


lemma move_assign_cell_block:
  "blocks h a = Some cs \<Longrightarrow> s < length cs \<Longrightarrow> d < length cs \<Longrightarrow>
   cs ! s = Live x \<Longrightarrow> cs ! d = Live y \<Longrightarrow>
   move_assign_cell T (Some a, d) (Some a, s) h =
     (if move_assign_throws T x then Thrown h
      else Done (set_block a (cs[s := Live (moved_from T x), d := Live x]) h) ())"
  by (simp add: move_assign_cell_def load_block store_block)

lemma move_backward_Done:
  "blocks h a = Some (pre @ map Live ws @ Live y # post) \<Longrightarrow> i = length pre \<Longrightarrow>
   j = length pre + length ws + 1 \<Longrightarrow>
   move_backward T (Some a, i) (length ws) (Some a, j) h = Done h' u \<longleftrightarrow>
     (\<forall>w\<in>set ws. \<not> move_assign_throws T w) \<and>
     h' = set_block a (pre @ Live (case ws of [] \<Rightarrow> y | w # _ \<Rightarrow> moved_from T w)
                         # map Live ws @ post) h"
proof (induction ws arbitrary: y post h j rule: rev_induct)
  case Nil
  then show ?case by (auto simp: set_block_same)
next
  case (snoc w ws)
  let ?cs = "pre @ map Live ws @ Live w # Live y # post"
  let ?h1 = "set_block a (pre @ map Live ws @ Live (moved_from T w) # Live w # post) h"
  have blk: "blocks h a = Some ?cs" using snoc.prems by simp
  have s: "?cs ! (length pre + length ws) = Live w"
    by (simp add: nth_append)
  have d: "?cs ! (length pre + length ws + 1) = Live y"
    by (simp add: nth_append)
  have upd: "?cs[length pre + length ws := Live (moved_from T w),
                 length pre + length ws + 1 := Live w]
             = pre @ map Live ws @ Live (moved_from T w) # Live w # post"
    by (simp add: list_update_append)
  have step: "move_assign_cell T (Some a, length pre + length ws + 1)
                (Some a, length pre + length ws) h =
              (if move_assign_throws T w then Thrown h else Done ?h1 ())"
    using move_assign_cell_block [OF blk _ _ s d, of T] upd by simp
  have A: "blocks ?h1 a = Some (pre @ map Live ws @ Live (moved_from T w) # (Live w # post))"
    by simp
  have z: "(case ws @ [w] of [] \<Rightarrow> y | w # _ \<Rightarrow> moved_from T w)
           = (case ws of [] \<Rightarrow> moved_from T w | w # _ \<Rightarrow> moved_from T w)"
    by (cases ws) simp_all
  from snoc.IH [OF A snoc.prems(2), of "length pre + length ws + 1"] step snoc.prems z
  show ?case by (auto simp: add.commute)
qed

lemma std_move_Done:
  "blocks h a = Some (pre @ Live y # map Live ws @ post) \<Longrightarrow> i = length pre \<Longrightarrow>
   std_move T (Some a, Suc i) (length ws) (Some a, i) h = Done h' u \<longleftrightarrow>
     (\<forall>w\<in>set ws. \<not> move_assign_throws T w) \<and>
     h' = set_block a (pre @ map Live ws @
            Live (if ws = [] then y else moved_from T (last ws)) # post) h"
proof (induction ws arbitrary: pre y h i)
  case Nil
  then show ?case by (auto simp: set_block_same)
next
  case (Cons w ws)
  let ?cs = "pre @ Live y # Live w # map Live ws @ post"
  let ?h1 = "set_block a (pre @ Live w # Live (moved_from T w) # map Live ws @ post) h"
  have blk: "blocks h a = Some ?cs" using Cons.prems by simp
  have s: "?cs ! Suc (length pre) = Live w" by (simp add: nth_append)
  have d: "?cs ! length pre = Live y" by (simp add: nth_append)
  have upd: "?cs[Suc (length pre) := Live (moved_from T w), length pre := Live w]
             = pre @ Live w # Live (moved_from T w) # map Live ws @ post"
    by (simp add: list_update_append)
  have step: "move_assign_cell T (Some a, length pre) (Some a, Suc (length pre)) h =
              (if move_assign_throws T w then Thrown h else Done ?h1 ())"
    using move_assign_cell_block [OF blk _ _ s d, of T] upd by simp
  have A: "blocks ?h1 a = Some ((pre @ [Live w]) @ Live (moved_from T w) # map Live ws @ post)"
    by simp
  from Cons.IH [OF A, of "Suc i"] step Cons.prems
  show ?case by auto
qed

lemma holds_buffer:
  assumes "holds h this xs c" "0 < c"
  obtains v a where "vectors h this = Some v" "size_m v = length xs" "capacity_m (data_m v) = c"
    "buffer_m (data_m v) = Some a" "blocks h a = Some (map Live xs @ replicate (c - length xs) Raw)"
proof -
  from holds_vector [OF assms(1)] obtain v where vv: "vectors h this = Some v" ..
  from assms(1) have v: "size_m v = length xs" "capacity_m (data_m v) = c"
    and buf: "\<And>a. buffer_m (data_m v) = Some a \<Longrightarrow>
       0 < c \<and> blocks h a = Some (map Live xs @ replicate (c - length xs) Raw)"
    and nobuf: "buffer_m (data_m v) = None \<Longrightarrow> c = 0"
    by (simp_all add: holds_Some [OF vv])
  from nobuf assms(2) obtain a where a: "buffer_m (data_m v) = Some a"
    by (cases "buffer_m (data_m v)") auto
  from that [OF vv v a] buf [OF a] show thesis by simp
qed

lemma Erase_Done:
  assumes "holds h this xs c" "p < length xs" "Erase T this p h = Done h' r"
  shows "holds h' this (take p xs @ drop (Suc p) xs) c \<and>
         (\<forall>w\<in>set (drop (Suc p) xs). \<not> move_assign_throws T w) \<and>
         (\<exists>v'. vectors h' this = Some v' \<and> r = (buffer_m (data_m v'), p)) \<and>
         next_block h' = next_block h \<and> dom (blocks h') = dom (blocks h)"
proof -
  let ?n = "length xs"
  let ?ys = "take p xs" and ?ws = "drop (Suc p) xs"
  let ?y = "xs ! p"
  have le: "?n \<le> c" using assms(1) by (rule holds_le)
  with assms(2) have "0 < c" by simp
  with assms(1) obtain v a where vv: "vectors h this = Some v" and v: "size_m v = ?n"
    "capacity_m (data_m v) = c" and a: "buffer_m (data_m v) = Some a"
    and blk: "blocks h a = Some (map Live xs @ replicate (c - ?n) Raw)"
    by (rule holds_buffer)
  have xs: "xs = ?ys @ ?y # ?ws" using assms(2) by (rule id_take_nth_drop)
  have lys: "length ?ys = p" using assms(2) by simp
  have ne: "xs \<noteq> []" using assms(2) by auto
  have lws: "length ?ws = ?n - Suc p" by simp
  let ?pre = "map Live ?ys" and ?post = "replicate (c - ?n) Raw"
  have blk': "blocks h a = Some (?pre @ Live ?y # map Live ?ws @ ?post)"
    using blk arg_cong [OF xs, of "map Live"] by simp
  let ?z = "if ?ws = [] then ?y else moved_from T (last ?ws)"
  let ?h1 = "set_block a (?pre @ map Live ?ws @ Live ?z # ?post) h"
  have eq: "Erase T this p h =
     and_then (if p \<noteq> ?n - 1
               then std_move T (Some a, Suc p) (length ?ws) (Some a, p) h else Done h ())
       (\<lambda>h1 _. and_then (destroy_n T (Some a, ?n - 1) 1 h1) (\<lambda>h2 _.
          Done (h2\<lparr>vectors := (vectors h2)(this \<mapsto> v\<lparr>size_m := ?n - 1\<rparr>)\<rparr>) (Some a, p)))"
    using vv v a assms(2) ne by (simp add: Erase_def begin_v_def)
  from assms(3) obtain h1 h2 where
    m: "(if p \<noteq> ?n - 1 then std_move T (Some a, Suc p) (length ?ws) (Some a, p) h else Done h ())
         = Done h1 ()"
    and d: "destroy_n T (Some a, ?n - 1) 1 h1 = Done h2 ()"
    and h': "h' = h2\<lparr>vectors := (vectors h2)(this \<mapsto> v\<lparr>size_m := ?n - 1\<rparr>)\<rparr>"
    and r: "r = (Some a, p)"
    unfolding eq by (auto simp: and_then_Done_iff)
  have h1: "h1 = ?h1 \<and> (\<forall>w\<in>set ?ws. \<not> move_assign_throws T w)"
  proof (cases "p \<noteq> ?n - 1")
    case True
    have "p = length ?pre" using lys by simp
    from True m std_move_Done [OF blk' this, of T h1 "()"] show ?thesis by simp
  next
    case False
    then have "?ws = []" using assms(2) by simp
    with m False blk' show ?thesis by (simp add: set_block_same)
  qed
  have B: "blocks ?h1 a = Some ((?pre @ map Live ?ws) @ map Live [?z] @ ?post)" by simp
  have "?n - 1 = length (?pre @ map Live ?ws)" using assms(2) by simp
  from destroy_n_live [OF B this, of T] d h1
  have h2: "h2 = set_block a (?pre @ map Live ?ws @ Raw # ?post) h" by simp
  have "c - (?n - 1) = Suc (c - ?n)" using le assms(2) by simp
  moreover have "min ?n p = p" using assms(2) by simp
  moreover have "p + (?n - Suc p) = ?n - 1" using assms(2) by simp
  ultimately have "holds h' this (?ys @ ?ws) c" using v a le \<open>0 < c\<close>
    by (simp add: holds_def h' h2)
  moreover have "dom (blocks h') = dom (blocks h)" using blk by (auto simp: h' h2)
  ultimately show ?thesis using h1 r a by (simp add: h' h2)
qed

lemma uninit_move_one:
  "blocks h a = Some (pre @ Live l # Raw # post) \<Longrightarrow> i = length pre \<Longrightarrow>
   uninitialized_move_n T (Some a, i) 1 (Some a, Suc i) h =
     (if move_throws T l then Thrown h
      else Done (set_block a (pre @ Live (moved_from T l) # Live l # post) h) ())"
  by (simp add: uninitialized_move_n_def load_block store_block construct_at_def
        list_update_append)

lemma assign_at_block:
  "blocks h a = Some (pre @ Live z # post) \<Longrightarrow> i = length pre \<Longrightarrow>
   assign_at T throws (Some a, i) x h =
     (if throws then Thrown h else Done (set_block a (pre @ Live x # post) h) ())"
  by (simp add: assign_at_def load_block store_block)

lemma Emplace_inplace:
  assumes "holds h this xs c" "length xs < c" "p < length xs"
    "Emplace T this p arg h = Done h' r"
  shows "\<exists>x. arg = Some x \<and> holds h' this (take p xs @ x # drop p xs) c \<and>
           (\<exists>v'. vectors h' this = Some v' \<and> r = (buffer_m (data_m v'), p)) \<and>
           next_block h' = next_block h \<and> dom (blocks h') = dom (blocks h)"
proof -
  let ?n = "length xs"
  define ys where "ys = take p xs"
  define ws where "ws = butlast (drop p xs)"
  define l where "l = last xs"
  from assms(2) have "0 < c" by simp
  with assms(1) obtain v a where vv: "vectors h this = Some v" and v: "size_m v = ?n"
    "capacity_m (data_m v) = c" and a: "buffer_m (data_m v) = Some a"
    and blk: "blocks h a = Some (map Live xs @ replicate (c - ?n) Raw)"
    by (rule holds_buffer)
  from assms(2) obtain m where m: "c - ?n = Suc m" by (cases "c - ?n") auto
  have ne: "drop p xs \<noteq> []" using assms(3) by simp
  have dl: "drop p xs = ws @ [l]"
    unfolding ws_def l_def
    using append_butlast_last_id [OF ne] last_drop [OF assms(3)] by simp
  have xs: "xs = ys @ ws @ [l]" using dl append_take_drop_id [of p xs] by (simp add: ys_def)
  have lys: "length ys = p" using assms(3) by (simp add: ys_def)
  have nn: "xs \<noteq> []" "\<not> ?n - Suc 0 < p" "Suc (?n - Suc 0) = ?n" "p \<noteq> ?n" "p < c"
    using assms(2,3) by auto
  have lws: "length ws = ?n - 1 - p" by (simp add: ws_def)
  let ?pre = "map Live ys"
  have blk1: "blocks h a = Some ((?pre @ map Live ws) @ Live l # Raw # replicate m Raw)"
    using blk m by (simp add: xs)
  have eq: "Emplace T this p arg h =
     and_then
       (case arg of None \<Rightarrow> Thrown h
        | Some x \<Rightarrow>
          and_then (uninitialized_move_n T (Some a, ?n - 1) 1 (Some a, ?n) h) (\<lambda>h1 _.
          and_then (move_backward T (Some a, p) (?n - 1 - p) (Some a, ?n) h1)
            (\<lambda>h2 _. assign_at T (move_assign_throws T x) (Some a, p) x h2)))
       (\<lambda>h3 _. Done (h3\<lparr>vectors := (vectors h3)(this \<mapsto> v\<lparr>size_m := ?n + 1\<rparr>)\<rparr>) (Some a, p))"
    using vv v a assms(2,3) nn by (cases arg) (simp_all add: Emplace_def begin_v_def end_v_def)
  from assms(4) obtain x h1 h2 h3 where x: "arg = Some x"
    and 1: "uninitialized_move_n T (Some a, ?n - 1) 1 (Some a, ?n) h = Done h1 ()"
    and 2: "move_backward T (Some a, p) (?n - 1 - p) (Some a, ?n) h1 = Done h2 ()"
    and 3: "assign_at T (move_assign_throws T x) (Some a, p) x h2 = Done h3 ()"
    and h': "h' = h3\<lparr>vectors := (vectors h3)(this \<mapsto> v\<lparr>size_m := ?n + 1\<rparr>)\<rparr>"
    and r: "r = (Some a, p)"
    unfolding eq by (cases arg) (auto simp: and_then_Done_iff)
  have i1: "?n - 1 = length (?pre @ map Live ws)" using lys lws assms(3) by simp
  from 1 uninit_move_one [OF blk1 i1, of T] nn
  have h1: "h1 = set_block a ((?pre @ map Live ws) @ Live (moved_from T l) # Live l
                     # replicate m Raw) h"
    by (simp split: if_splits)
  have blk2: "blocks h1 a = Some (?pre @ map Live ws @ Live (moved_from T l)
                     # (Live l # replicate m Raw))"
    by (simp add: h1)
  have i2: "p = length ?pre" using lys by simp
  let ?z = "case ws of [] \<Rightarrow> moved_from T l | w # _ \<Rightarrow> moved_from T w"
  have j: "?n = length ?pre + length ws + 1" using lys lws assms(3) by simp
  from 2 move_backward_Done [OF blk2 i2 j, of T h2 "()"] lws
  have h2: "h2 = set_block a (?pre @ Live ?z # map Live ws @ Live l # replicate m Raw) h"
    by (simp add: h1)
  have blk3: "blocks h2 a = Some (?pre @ Live ?z # (map Live ws @ Live l # replicate m Raw))"
    by (simp add: h2)
  from 3 assign_at_block [OF blk3 i2, of T "move_assign_throws T x" x]
  have h3: "h3 = set_block a (?pre @ Live x # map Live ws @ Live l # replicate m Raw) h"
    by (simp add: h2 split: if_splits)
  have "map Live (take p xs @ x # drop p xs) = ?pre @ Live x # map Live ws @ [Live l]"
    by (simp add: dl ys_def)
  moreover have "c - Suc ?n = m" using m by simp
  moreover have "length (take p xs @ x # drop p xs) = Suc ?n" using assms(3) by simp
  ultimately have "holds h' this (take p xs @ x # drop p xs) c" using v a assms(2)
    by (simp add: holds_def h' h3 del: length_append length_take length_drop map_append)
  moreover have "dom (blocks h') = dom (blocks h)" using blk by (auto simp: h' h3)
  ultimately show ?thesis using x r a by (simp add: h' h3)
qed

lemma transferred_append: "transferred T (ys @ zs) = transferred T ys @ transferred T zs"
  by (simp add: transferred_def)

lemma Emplace_full:
  assumes "holds h this xs c" "\<not> length xs < c" "heap_ok h" "p \<le> length xs"
    "Emplace T this p arg h = Done h' r"
  shows "\<exists>x. arg = Some x \<and>
           holds h' this (take p xs @ x # drop p xs) (max (c * 2) (length xs + 1)) \<and>
           heap_ok h' \<and> (\<forall>x\<in>set xs. \<not> transfer_throws T x) \<and>
           (\<exists>v'. vectors h' this = Some v' \<and> r = (buffer_m (data_m v'), p)) \<and>
           r = (Some (next_block h), p)"
proof -
  let ?n = "length xs"
  let ?nb = "next_block h"
  define nc where "nc = max (c * 2) (Suc ?n)"
  define ys where "ys = take p xs"
  define zs where "zs = drop p xs"
  have xs: "xs = ys @ zs" by (simp add: ys_def zs_def)
  have lys: "length ys = p" using assms(4) by (simp add: ys_def)
  have lzs: "length zs = ?n - p" by (simp add: zs_def)
  from holds_vector [OF assms(1)] obtain v where vv: "vectors h this = Some v" ..
  from assms(1) have v: "size_m v = ?n" "capacity_m (data_m v) = c" and le: "?n \<le> c"
    and buf: "\<And>a. buffer_m (data_m v) = Some a \<Longrightarrow>
       0 < c \<and> blocks h a = Some (map Live xs @ replicate (c - length xs) Raw)"
    and nobuf: "buffer_m (data_m v) = None \<Longrightarrow> c = 0"
    by (simp_all add: holds_Some [OF vv])
  from le assms(2) have c: "c = ?n" by simp
  let ?h0 = "h\<lparr>blocks := (blocks h)(?nb \<mapsto> replicate nc Raw), next_block := Suc ?nb\<rparr>"
  have al: "Allocate nc h = (?h0, Some ?nb)" by (rule Allocate_pos) (simp add: nc_def)
  define m where "m = nc - Suc ?n"
  have m: "nc = p + Suc ((?n - p) + m)" using assms(4) by (simp add: m_def nc_def)
  have blk0: "blocks ?h0 ?nb = Some (replicate p Raw @ Raw # replicate (?n - p) Raw @ replicate m Raw)"
    by (simp add: m replicate_add replicate_append_same)
  let ?v' = "v\<lparr>data_m := (data_m v)\<lparr>buffer_m := Some ?nb, capacity_m := nc\<rparr>,
                         size_m := Suc ?n\<rparr>"
  have np: "\<not> ?n < p" using assms(4) by simp
  have eq: "Emplace T this p arg h =
     unwinding (Some ?nb)
       (and_then (emplace_at (Some ?nb, p) arg ?h0) (\<lambda>h1 _.
        and_then
          (try_catch
             (and_then (transfer_n T (begin_v v) p (Some ?nb, 0) h1) (\<lambda>h2 _.
                transfer_n T (ptr_add (begin_v v) p) (?n - p) (Some ?nb, Suc p) h2))
             (\<lambda>h2. and_then (destroy_n T (Some ?nb, 0) (Suc ?n) h2) (\<lambda>h3 _. Thrown h3))) (\<lambda>h2 _.
        and_then (destroy_n T (begin_v v) ?n h2) (\<lambda>h3 _.
        and_then (Deallocate (buffer_m (data_m v))
           (h3\<lparr>vectors := (vectors h3)(this \<mapsto> ?v')\<rparr>)) (\<lambda>h5 _.
          Done h5 (Some ?nb, p))))))"
    using vv v c al [unfolded nc_def] np
    by (simp add: Emplace_def Let_def RawMemory_Swap_def nc_def)
  let ?h1 = "\<lambda>x. set_block ?nb (replicate p Raw @ Live x # replicate (?n - p) Raw @ replicate m Raw) ?h0"
  have i0: "p = length (replicate p (Raw :: 'a cell))" by simp
  from assms(5) obtain x h2 h2' h3 where x: "arg = Some x"
    and t1: "transfer_n T (begin_v v) p (Some ?nb, 0) (?h1 x) = Done h2 ()"
    and t2: "transfer_n T (ptr_add (begin_v v) p) (?n - p) (Some ?nb, Suc p) h2 = Done h2' ()"
    and d: "destroy_n T (begin_v v) ?n h2' = Done h3 ()"
    and e: "Deallocate (buffer_m (data_m v))
           (h3\<lparr>vectors := (vectors h3)(this \<mapsto> ?v')\<rparr>) = Done h' ()"
    and r: "r = (Some ?nb, p)"
    unfolding eq
    by (auto simp: and_then_Done_iff emplace_at_Done_iff construct_at_block [OF blk0 i0])
  have nc: "max (c * 2) (?n + 1) = nc" by (simp add: nc_def)
  show ?thesis unfolding nc
  proof (cases "buffer_m (data_m v)")
    case None
    with nobuf c have xs0: "xs = []" by simp
    with assms(4) have p0: "p = 0" by simp
    from t1 xs0 p0 have h2: "h2 = ?h1 x" by simp
    from t2 xs0 p0 have h2': "h2' = h2" by simp
    from d xs0 have h3: "h3 = h2'" by simp
    from e None have h': "h' = (?h1 x)\<lparr>vectors := (vectors h)(this \<mapsto> ?v')\<rparr>"
      by (simp add: Deallocate_def h3 h2 h2')
    have "m = nc - 1" using m xs0 p0 by simp
    then have "holds h' this [x] nc" using xs0 p0 m by (simp add: holds_def h')
    moreover have "heap_ok h'" using assms(3) by (auto simp: heap_ok_def h' less_Suc_eq)
    ultimately show "\<exists>x. arg = Some x \<and> holds h' this (take p xs @ x # drop p xs) nc \<and>
           heap_ok h' \<and> (\<forall>x\<in>set xs. \<not> transfer_throws T x) \<and>
           (\<exists>v'. vectors h' this = Some v' \<and> r = (buffer_m (data_m v'), p)) \<and>
           r = (Some (next_block h), p)"
      using x xs0 p0 r by (simp add: h')
  next
    case (Some a)
    from buf [OF Some] c have blk: "blocks h a = Some (map Live ys @ map Live zs)"
      by (simp add: xs)
    with assms(3) have ne: "a \<noteq> ?nb" by (auto simp: heap_ok_def)
    have A: "blocks (?h1 x) a = Some ([] @ map Live ys @ map Live zs)" using blk ne by simp
    have B: "blocks (?h1 x) ?nb = Some ([] @ replicate (length ys) Raw @
                 (Live x # replicate (?n - p) Raw @ replicate m Raw))"
      by (simp add: lys)
    from t1 Some transfer_n_Done [OF ne A B, of 0 0 T h2 "()"] lys
    have nt1: "\<forall>x\<in>set ys. \<not> transfer_throws T x"
      and h2: "h2 = set_block ?nb (map Live ys @ Live x # replicate (?n - p) Raw @ replicate m Raw)
                      (set_block a (map Live (transferred T ys) @ map Live zs) (?h1 x))"
      by (simp_all add: begin_v_def)
    have A2: "blocks h2 a = Some (map Live (transferred T ys) @ map Live zs @ [])"
      using ne by (simp add: h2)
    have B2: "blocks h2 ?nb = Some ((map Live ys @ [Live x]) @ replicate (length zs) Raw @
                 replicate m Raw)"
      by (simp add: h2 lzs)
    have i2: "p = length (map Live (transferred T ys))" using lys by simp
    have j2: "Suc p = length (map Live ys @ [Live x])" using lys by simp
    from t2 Some transfer_n_Done [OF ne A2 B2 i2 j2, of T h2' "()"] lzs
    have nt2: "\<forall>x\<in>set zs. \<not> transfer_throws T x"
      and h2': "h2' = set_block ?nb (map Live ys @ Live x # map Live zs @ replicate m Raw)
                      (set_block a (map Live (transferred T ys) @ map Live (transferred T zs)) h2)"
      by (simp_all add: begin_v_def)
    have C: "blocks h2' a = Some ([] @ map Live (transferred T xs) @ [])"
      using ne by (simp add: h2' xs transferred_append)
    from d Some destroy_n_live [OF C, of 0 T]
    have h3: "h3 = set_block a (replicate ?n Raw) h2'" by (simp add: begin_v_def)
    from e Some have h': "h' = h3\<lparr>vectors := (vectors h3)(this \<mapsto> ?v'),
                                  blocks := (blocks h3)(a := None)\<rparr>"
      by (simp add: Deallocate_def h3)
    have "m = nc - Suc ?n" using m assms(4) by simp
    moreover have "map Live (take p xs @ x # drop p xs) = map Live ys @ Live x # map Live zs"
      by (simp add: ys_def zs_def)
    moreover have "length (take p xs @ x # drop p xs) = Suc ?n" using assms(4) by simp
    moreover have "Suc ?n \<le> nc" by (simp add: nc_def)
    ultimately have "holds h' this (take p xs @ x # drop p xs) nc" using ne
      by (simp add: holds_def h' h3 h2' h2 del: length_append length_take length_drop map_append)
    moreover have "heap_ok h'" using assms(3)
      by (auto simp: heap_ok_def h' h3 h2' h2 less_Suc_eq)
    moreover have "\<forall>x\<in>set xs. \<not> transfer_throws T x" using nt1 nt2 by (auto simp: xs)
    ultimately show "\<exists>x. arg = Some x \<and> holds h' this (take p xs @ x # drop p xs) nc \<and>
           heap_ok h' \<and> (\<forall>x\<in>set xs. \<not> transfer_throws T x) \<and>
           (\<exists>v'. vectors h' this = Some v' \<and> r = (buffer_m (data_m v'), p)) \<and>
           r = (Some (next_block h), p)"
      using x r by (simp add: h')
  qed
qed

lemma Emplace_Done:
  assumes "holds h this xs c" "heap_ok h" "p \<le> length xs" "Emplace T this p arg h = Done h' r"
  shows "\<exists>x. arg = Some x \<and> holds h' this (take p xs @ x # drop p xs) (grow c (length xs)) \<and>
           heap_ok h' \<and> (\<exists>v'. vectors h' this = Some v' \<and> r = (buffer_m (data_m v'), p))"
proof (cases "length xs < c")
  case spare: True
  show ?thesis
  proof (cases "p = length xs")
    case True
    from holds_vector [OF assms(1)] obtain v where vv: "vectors h this = Some v" ..
    from assms(1) have sz: "size_m v = length xs" and cp: "capacity_m (data_m v) = c"
      by (simp_all add: holds_Some [OF vv])
    from Emplace_at_end [OF vv, of p T arg] True sz assms(4)
    have eb: "EmplaceBack T this arg h = Done h' r" by simp
    from EmplaceBack_spare [OF assms(1) spare eb] obtain x where x: "arg = Some x"
      and hh: "holds h' this (xs @ [x]) c" and nb: "next_block h' = next_block h"
      and dm: "dom (blocks h') = dom (blocks h)" by blast
    from holds_vector [OF hh] obtain v' where v': "vectors h' this = Some v'" ..
    have "r = (buffer_m (data_m v'), p)"
      using eb vv sz cp spare x True v'
      by (auto simp: EmplaceBack_def end_v_def and_then_Done_iff emplace_at_Done_iff)
    with x hh v' True spare heap_ok_same_dom [OF assms(2) nb dm] show ?thesis
      by (simp add: grow_def)
  next
    case False
    with assms(3) have "p < length xs" by simp
    from Emplace_inplace [OF assms(1) spare this assms(4)] spare assms(2) show ?thesis
      by (auto simp: grow_def intro: heap_ok_same_dom)
  qed
next
  case False
  from Emplace_full [OF assms(1) False assms(2,3,4)] False show ?thesis
    by (auto simp: grow_def)
qed

lemma holds_at_index:
  "holds h this xs c \<Longrightarrow> i < length xs \<Longrightarrow> at_index h this i = Inr (xs ! i)"
  by (auto simp: holds_def at_index_def begin_v_def load_block nth_append
           split: option.splits)

lemma holds_load:
  "holds h this xs c \<Longrightarrow> i < length xs \<Longrightarrow> vectors h this = Some v \<Longrightarrow>
   load h (buffer_m (data_m v), i) = Inr (Live (xs ! i))"
  by (auto simp: holds_def load_block nth_append split: option.splits)

lemma changes_log:
  assumes "r = 0 \<or> (2 ^ r \<le> 2 * k \<and> k < 2 * n)"
  shows "r \<le> ceillog2 n + 1"
proof (cases "r = 0")
  case True
  then show ?thesis by simp
next
  case False
  with assms have 1: "2 ^ r \<le> 2 * k" and 2: "k < 2 * n" by simp_all
  from 2 have n: "0 < n" by simp
  from False obtain q where q: "r = Suc q" by (cases r) auto
  from 1 q have "2 ^ q \<le> k" by simp
  with 2 have "(2::nat) ^ q < 2 * n" by simp
  with ceillog2_ge_iff [OF n, of q] have "q \<le> ceillog2 n" by simp
  with q show ?thesis by simp
qed

lemma Erase_returns:
  assumes "holds h this xs c" "p < length xs"
    "\<forall>w\<in>set (drop (Suc p) xs). \<not> move_assign_throws T w"
  shows "\<exists>h' r. Erase T this p h = Done h' r"
proof -
  let ?n = "length xs"
  let ?ys = "take p xs" and ?ws = "drop (Suc p) xs"
  let ?y = "xs ! p"
  have le: "?n \<le> c" using assms(1) by (rule holds_le)
  with assms(2) have "0 < c" by simp
  with assms(1) obtain v a where vv: "vectors h this = Some v" and v: "size_m v = ?n"
    "capacity_m (data_m v) = c" and a: "buffer_m (data_m v) = Some a"
    and blk: "blocks h a = Some (map Live xs @ replicate (c - ?n) Raw)"
    by (rule holds_buffer)
  have xs: "xs = ?ys @ ?y # ?ws" using assms(2) by (rule id_take_nth_drop)
  have lys: "length ?ys = p" using assms(2) by simp
  have ne: "xs \<noteq> []" using assms(2) by auto
  let ?pre = "map Live ?ys" and ?post = "replicate (c - ?n) Raw"
  have blk': "blocks h a = Some (?pre @ Live ?y # map Live ?ws @ ?post)"
    using blk arg_cong [OF xs, of "map Live"] by simp
  let ?z = "if ?ws = [] then ?y else moved_from T (last ?ws)"
  let ?h1 = "set_block a (?pre @ map Live ?ws @ Live ?z # ?post) h"
  have eq: "Erase T this p h =
     and_then (if p \<noteq> ?n - 1
               then std_move T (Some a, Suc p) (length ?ws) (Some a, p) h else Done h ())
       (\<lambda>h1 _. and_then (destroy_n T (Some a, ?n - 1) 1 h1) (\<lambda>h2 _.
          Done (h2\<lparr>vectors := (vectors h2)(this \<mapsto> v\<lparr>size_m := ?n - 1\<rparr>)\<rparr>) (Some a, p)))"
    using vv v a assms(2) ne by (simp add: Erase_def begin_v_def)
  have m: "(if p \<noteq> ?n - 1 then std_move T (Some a, Suc p) (length ?ws) (Some a, p) h
            else Done h ()) = Done ?h1 ()"
  proof (cases "p \<noteq> ?n - 1")
    case True
    have "p = length ?pre" using lys by simp
    from True std_move_Done [OF blk' this, of T ?h1 "()"] assms(3) show ?thesis by simp
  next
    case False
    then have "?ws = []" using assms(2) by simp
    with False blk' show ?thesis by (simp add: set_block_same)
  qed
  have B: "blocks ?h1 a = Some ((?pre @ map Live ?ws) @ map Live [?z] @ ?post)" by simp
  have "?n - 1 = length (?pre @ map Live ?ws)" using assms(2) by simp
  from destroy_n_live [OF B this, of T]
  have d: "destroy_n T (Some a, ?n - 1) 1 ?h1
           = Done (set_block a (?pre @ map Live ?ws @ Raw # ?post) h) ()" by simp
  show ?thesis unfolding eq m and_then_simps d by blast
qed

lemma on_exit_simps [simp]:
  "on_exit (Done h r) Q = Q h" "on_exit (Thrown h) Q = Q h" "on_exit (Fault f) Q = True"
  by (simp_all add: on_exit_def)

lemma kept_refl: "sole_owner v pv h \<Longrightarrow> kept v pv h h"
  by (simp add: kept_def)

lemma kept_trans: "kept v pv h h1 \<Longrightarrow> kept v pv h1 h2 \<Longrightarrow> kept v pv h h2"
  by (simp add: kept_def)

lemma kept_sole: "kept v pv h h' \<Longrightarrow> sole_owner v pv h'"
  by (simp add: kept_def)

lemma on_exit_and_then:
  assumes "on_exit m (kept v pv h)"
    and "\<And>h1 r. kept v pv h h1 \<Longrightarrow> on_exit (f h1 r) (kept v pv h1)"
  shows "on_exit (and_then m f) (kept v pv h)"
proof (cases m)
  case (Done h1 r)
  with assms(1) have k: "kept v pv h h1" by simp
  from assms(2) [OF k, of r] k Done show ?thesis
    by (cases "f h1 r") (auto intro: kept_trans)
qed (use assms(1) in simp_all)

lemma on_exit_try_catch:
  assumes "on_exit m (kept v pv h)"
    and "\<And>h1. kept v pv h h1 \<Longrightarrow> on_exit (handler h1) (kept v pv h1)"
  shows "on_exit (try_catch m handler) (kept v pv h)"
proof (cases m)
  case (Thrown h1)
  with assms(1) have k: "kept v pv h h1" by simp
  from assms(2) [OF k] k Thrown show ?thesis
    by (cases "handler h1") (auto simp: try_catch_def intro: kept_trans)
qed (use assms(1) in \<open>simp_all add: try_catch_def\<close>)

lemma on_exit_Thrown_handler:
  "on_exit m (kept v pv h) \<Longrightarrow> on_exit (and_then m (\<lambda>h' _. Thrown h')) (kept v pv h)"
  by (cases m) simp_all

lemma store_kept:
  "other_block pv (fst p) \<Longrightarrow> sole_owner v pv h \<Longrightarrow> kept v pv h (store p c h)"
  by (auto simp: kept_def store_def other_block_def sole_owner_def split: option.splits)

lemma construct_at_kept:
  "other_block pv (fst p) \<Longrightarrow> sole_owner v pv h \<Longrightarrow> on_exit (construct_at p x h) (kept v pv h)"
  by (auto simp: construct_at_def store_kept split: sum.splits)

lemma emplace_at_kept:
  "other_block pv (fst p) \<Longrightarrow> sole_owner v pv h \<Longrightarrow> on_exit (emplace_at p arg h) (kept v pv h)"
  by (cases arg) (simp_all add: emplace_at_def construct_at_kept kept_refl)

lemma destroy_at_kept:
  "other_block pv (fst p) \<Longrightarrow> sole_owner v pv h \<Longrightarrow> on_exit (destroy_at T p h) (kept v pv h)"
  by (auto simp: destroy_at_def store_kept kept_refl split: sum.splits cell.splits)

lemma assign_at_kept:
  "other_block pv (fst p) \<Longrightarrow> sole_owner v pv h \<Longrightarrow>
   on_exit (assign_at T throws p x h) (kept v pv h)"
  by (auto simp: assign_at_def store_kept kept_refl split: sum.splits)

lemma copy_assign_cell_kept:
  "other_block pv (fst d) \<Longrightarrow> sole_owner v pv h \<Longrightarrow>
   on_exit (copy_assign_cell T d s h) (kept v pv h)"
  by (auto simp: copy_assign_cell_def assign_at_kept split: sum.splits cell.splits)

lemma move_assign_cell_kept:
  "other_block pv (fst d) \<Longrightarrow> other_block pv (fst s) \<Longrightarrow> sole_owner v pv h \<Longrightarrow>
   on_exit (move_assign_cell T d s h) (kept v pv h)"
  by (auto simp: move_assign_cell_def kept_refl split: sum.splits cell.splits
           intro: kept_trans [OF store_kept store_kept] kept_sole store_kept)


lemma other_block_ptr_add [simp]: "fst (ptr_add p k) = fst p"
  by (simp add: ptr_add_def)

lemma destroy_n_kept:
  "other_block pv (fst p) \<Longrightarrow> sole_owner v pv h \<Longrightarrow> on_exit (destroy_n T p n h) (kept v pv h)"
proof (induction n arbitrary: p h)
  case 0
  then show ?case by (simp add: kept_refl)
next
  case (Suc n)
  show ?case
    unfolding destroy_n.simps
    using Suc.prems
    by (auto intro!: on_exit_and_then destroy_at_kept Suc.IH dest: kept_sole)
qed

lemma rollback_kept:
  "other_block pv (fst d) \<Longrightarrow> sole_owner v pv h \<Longrightarrow>
   on_exit (and_then (destroy_n T d k h) (\<lambda>h' _. Thrown h')) (kept v pv h)"
  by (rule on_exit_Thrown_handler) (rule destroy_n_kept)

lemma uninit_copy_loop_kept:
  "other_block pv (fst d) \<Longrightarrow> sole_owner v pv h \<Longrightarrow>
   on_exit (uninit_copy_loop T s d k n h) (kept v pv h)"
proof (induction n arbitrary: s k h)
  case 0
  then show ?case by (simp add: kept_refl)
next
  case (Suc n)
  show ?case
    unfolding uninit_copy_loop.simps
    using Suc.prems
    by (auto split: sum.splits cell.splits
          intro!: on_exit_and_then destroy_n_kept kept_refl construct_at_kept Suc.IH dest: kept_sole)
qed

lemma uninit_move_loop_kept:
  "other_block pv (fst d) \<Longrightarrow> other_block pv (fst s) \<Longrightarrow> sole_owner v pv h \<Longrightarrow>
   on_exit (uninit_move_loop T s d k n h) (kept v pv h)"
proof (induction n arbitrary: s k h)
  case 0
  then show ?case by (simp add: kept_refl)
next
  case (Suc n)
  have step: "on_exit (and_then (construct_at (ptr_add d k) x (store s c h))
                 (\<lambda>h' _. uninit_move_loop T (ptr_add s (Suc 0)) d (Suc k) n h')) (kept v pv h)" for x c
  proof -
    have k0: "kept v pv h (store s c h)" using Suc.prems by (intro store_kept)
    have "on_exit (and_then (construct_at (ptr_add d k) x (store s c h))
                 (\<lambda>h' _. uninit_move_loop T (ptr_add s (Suc 0)) d (Suc k) n h')) (kept v pv (store s c h))"
      using Suc.prems k0
      by (intro on_exit_and_then construct_at_kept Suc.IH) (auto dest: kept_sole)
    then show ?thesis
      by (cases "and_then (construct_at (ptr_add d k) x (store s c h))
                 (\<lambda>h' _. uninit_move_loop T (ptr_add s (Suc 0)) d (Suc k) n h')")
         (auto intro: kept_trans [OF k0])
  qed
  show ?case
    unfolding uninit_move_loop.simps One_nat_def
    using Suc.prems
    by (auto split: sum.splits cell.splits intro!: rollback_kept step)
qed

lemma uninit_value_loop_kept:
  "other_block pv (fst p) \<Longrightarrow> sole_owner v pv h \<Longrightarrow>
   on_exit (uninit_value_loop T p k n h) (kept v pv h)"
proof (induction n arbitrary: k h)
  case 0
  then show ?case by (simp add: kept_refl)
next
  case (Suc n)
  show ?case
    unfolding uninit_value_loop.simps
    using Suc.prems
    by (auto split: option.splits
          intro!: on_exit_and_then destroy_n_kept kept_refl construct_at_kept Suc.IH dest: kept_sole)
qed

lemma std_copy_kept:
  "other_block pv (fst d) \<Longrightarrow> sole_owner v pv h \<Longrightarrow>
   on_exit (std_copy T s n d h) (kept v pv h)"
proof (induction n arbitrary: s d h)
  case 0
  then show ?case by (simp add: kept_refl)
next
  case (Suc n)
  show ?case
    unfolding std_copy.simps
    using Suc.prems
    by (auto intro!: on_exit_and_then copy_assign_cell_kept Suc.IH dest: kept_sole)
qed

lemma std_copy_list_kept:
  "other_block pv (fst d) \<Longrightarrow> sole_owner v pv h \<Longrightarrow>
   on_exit (std_copy_list T xs d h) (kept v pv h)"
proof (induction xs arbitrary: d h)
  case Nil
  then show ?case by (simp add: kept_refl)
next
  case (Cons x xs)
  show ?case
    unfolding std_copy_list.simps
    using Cons.prems
    by (auto intro!: on_exit_and_then assign_at_kept Cons.IH dest: kept_sole)
qed

lemma std_move_kept:
  "other_block pv (fst d) \<Longrightarrow> other_block pv (fst s) \<Longrightarrow> sole_owner v pv h \<Longrightarrow>
   on_exit (std_move T s n d h) (kept v pv h)"
proof (induction n arbitrary: s d h)
  case 0
  then show ?case by (simp add: kept_refl)
next
  case (Suc n)
  show ?case
    unfolding std_move.simps
    using Suc.prems
    by (auto intro!: on_exit_and_then move_assign_cell_kept Suc.IH dest: kept_sole)
qed

lemma move_backward_kept:
  "other_block pv (fst d) \<Longrightarrow> other_block pv (fst s) \<Longrightarrow> sole_owner v pv h \<Longrightarrow>
   on_exit (move_backward T s n d h) (kept v pv h)"
proof (induction n arbitrary: d h)
  case 0
  then show ?case by (simp add: kept_refl)
next
  case (Suc n)
  show ?case
    unfolding move_backward.simps
    using Suc.prems
    by (auto intro!: on_exit_and_then move_assign_cell_kept Suc.IH dest: kept_sole)
qed

lemma transfer_n_kept:
  "other_block pv (fst d) \<Longrightarrow> other_block pv (fst s) \<Longrightarrow> sole_owner v pv h \<Longrightarrow>
   on_exit (transfer_n T s n d h) (kept v pv h)"
  by (simp add: transfer_n_def uninitialized_move_n_def uninitialized_copy_n_def
        uninit_move_loop_kept uninit_copy_loop_kept)

lemma on_exit_from:
  "kept v pv h h0 \<Longrightarrow> on_exit m (kept v pv h0) \<Longrightarrow> on_exit m (kept v pv h)"
  by (cases m) (auto intro: kept_trans)

lemma sole_owner_buffer:
  "sole_owner v pv h \<Longrightarrow> vectors h this = Some tv \<Longrightarrow> this \<noteq> v \<Longrightarrow>
   other_block pv (buffer_m (data_m tv))"
  by (auto simp: sole_owner_def other_block_def)

lemma Allocate_kept:
  "sole_owner v pv h \<Longrightarrow> kept v pv h (fst (Allocate n h)) \<and> other_block pv (snd (Allocate n h))"
  by (auto simp: Allocate_def kept_def sole_owner_def other_block_def less_Suc_eq)

lemma Deallocate_kept:
  "other_block pv buf \<Longrightarrow> sole_owner v pv h \<Longrightarrow> on_exit (Deallocate buf h) (kept v pv h)"
  by (auto simp: Deallocate_def kept_def sole_owner_def other_block_def split: option.splits)

lemma unwinding_kept:
  "other_block pv buf \<Longrightarrow> on_exit m (kept v pv h) \<Longrightarrow>
   on_exit (unwinding buf m) (kept v pv h)"
  unfolding unwinding_def
  by (rule on_exit_try_catch, assumption, rule on_exit_Thrown_handler)
     (auto intro: Deallocate_kept dest: kept_sole)

lemma update_kept:
  "this \<noteq> v \<Longrightarrow> other_block pv (buffer_m (data_m tv')) \<Longrightarrow> sole_owner v pv h \<Longrightarrow>
   kept v pv h (h\<lparr>vectors := (vectors h)(this \<mapsto> tv')\<rparr>)"
  by (auto simp: kept_def sole_owner_def other_block_def)

lemma Deallocate_update_kept:
  assumes "this \<noteq> v" "other_block pv (buffer_m (data_m tv'))" "other_block pv buf"
    "sole_owner v pv h"
  shows "on_exit (Deallocate buf (h\<lparr>vectors := (vectors h)(this \<mapsto> tv')\<rparr>)) (kept v pv h)"
proof -
  have k: "kept v pv h (h\<lparr>vectors := (vectors h)(this \<mapsto> tv')\<rparr>)"
    using assms by (intro update_kept)
  from k Deallocate_kept [OF assms(3) kept_sole [OF k]] show ?thesis by (rule on_exit_from)
qed

lemmas kept_intros =
  unwinding_kept on_exit_and_then on_exit_try_catch emplace_at_kept construct_at_kept
  assign_at_kept transfer_n_kept destroy_n_kept destroy_at_kept Deallocate_update_kept
  Deallocate_kept update_kept kept_refl std_move_kept move_backward_kept std_copy_kept
  uninit_copy_loop_kept uninit_move_loop_kept uninit_value_loop_kept

lemma EmplaceBack_kept:
  assumes "sole_owner v pv h" "this \<noteq> v"
  shows "on_exit (EmplaceBack T this arg h) (kept v pv h)"
proof (cases "vectors h this")
  case None
  then show ?thesis by (simp add: EmplaceBack_def)
next
  case (Some tv)
  note b = sole_owner_buffer [OF assms(1) Some assms(2)]
  show ?thesis
  proof (cases "capacity_m (data_m tv) > size_m tv")
    case True
    with Some b assms show ?thesis
      by (auto simp: EmplaceBack_def end_v_def
            intro!: kept_intros dest: kept_sole)
  next
    case False
    define nc where "nc = max (capacity_m (data_m tv) * 2) (size_m tv + 1)"
    obtain h0 nb where al: "Allocate nc h = (h0, nb)" by (cases "Allocate nc h")
    from Allocate_kept [OF assms(1), of nc] al
    have k0: "kept v pv h h0" and nb: "other_block pv nb" by simp_all
    have "on_exit (EmplaceBack T this arg h) (kept v pv h0)"
      using Some False al [unfolded nc_def] b nb assms(2) kept_sole [OF k0]
      by (auto simp: EmplaceBack_def Let_def RawMemory_Swap_def begin_v_def
            intro!: kept_intros dest: kept_sole)
    with k0 show ?thesis by (rule on_exit_from)
  qed
qed

lemma on_exit_and_then_result:
  assumes "on_exit m (kept v pv h)"
    and "\<And>h1 r. m = Done h1 r \<Longrightarrow> kept v pv h h1 \<Longrightarrow> on_exit (f h1 r) (kept v pv h1)"
  shows "on_exit (and_then m f) (kept v pv h)"
proof (cases m)
  case (Done h1 r)
  with assms(1) have k: "kept v pv h h1" by simp
  from assms(2) [OF Done k] k Done show ?thesis
    by (cases "f h1 r") (auto intro: kept_trans)
qed (use assms(1) in simp_all)

lemma uninitialized_move_n_kept:
  "other_block pv (fst d) \<Longrightarrow> other_block pv (fst s) \<Longrightarrow> sole_owner v pv h \<Longrightarrow>
   on_exit (uninitialized_move_n T s n d h) (kept v pv h)"
  by (simp add: uninitialized_move_n_def uninit_move_loop_kept)

lemma uninitialized_copy_n_kept:
  "other_block pv (fst d) \<Longrightarrow> sole_owner v pv h \<Longrightarrow>
   on_exit (uninitialized_copy_n T s n d h) (kept v pv h)"
  by (simp add: uninitialized_copy_n_def uninit_copy_loop_kept)

lemma uninitialized_value_construct_n_kept:
  "other_block pv (fst p) \<Longrightarrow> sole_owner v pv h \<Longrightarrow>
   on_exit (uninitialized_value_construct_n T p n h) (kept v pv h)"
  by (simp add: uninitialized_value_construct_n_def uninit_value_loop_kept)

lemmas kept_rules =
  kept_intros uninitialized_move_n_kept uninitialized_copy_n_kept
  uninitialized_value_construct_n_kept

lemma PushBack_kept:
  "sole_owner v pv h \<Longrightarrow> this \<noteq> v \<Longrightarrow> on_exit (PushBack T this val h) (kept v pv h)"
  unfolding PushBack_def
  by (rule on_exit_and_then) (auto intro: EmplaceBack_kept kept_refl dest: kept_sole)

lemma Emplace_kept:
  assumes "sole_owner v pv h" "this \<noteq> v"
  shows "on_exit (Emplace T this p arg h) (kept v pv h)"
proof (cases "vectors h this")
  case None
  then show ?thesis by (simp add: Emplace_def)
next
  case (Some tv)
  note b = sole_owner_buffer [OF assms(1) Some assms(2)]
  show ?thesis
  proof (cases "capacity_m (data_m tv) > size_m tv")
    case True
    with Some b assms show ?thesis
      by (auto simp: Emplace_def end_v_def begin_v_def
            split: option.splits
            intro!: kept_rules dest: kept_sole)
  next
    case False
    define nc where "nc = max (capacity_m (data_m tv) * 2) (size_m tv + 1)"
    obtain h0 nb where al: "Allocate nc h = (h0, nb)" by (cases "Allocate nc h")
    from Allocate_kept [OF assms(1), of nc] al
    have k0: "kept v pv h h0" and nb: "other_block pv nb" by simp_all
    have "on_exit (Emplace T this p arg h) (kept v pv h0)"
      using Some False al [unfolded nc_def] b nb assms(2) kept_sole [OF k0]
      by (auto simp: Emplace_def Let_def RawMemory_Swap_def begin_v_def
            intro!: kept_intros dest: kept_sole)
    with k0 show ?thesis by (rule on_exit_from)
  qed
qed

lemma Insert_kept:
  "sole_owner v pv h \<Longrightarrow> this \<noteq> v \<Longrightarrow> on_exit (Insert T this p val h) (kept v pv h)"
  by (simp add: Insert_def Emplace_kept)

lemma Erase_kept:
  assumes "sole_owner v pv h" "this \<noteq> v"
  shows "on_exit (Erase T this p h) (kept v pv h)"
proof (cases "vectors h this")
  case None
  then show ?thesis by (simp add: Erase_def)
next
  case (Some tv)
  note b = sole_owner_buffer [OF assms(1) Some assms(2)]
  with Some assms show ?thesis
    by (auto simp: Erase_def begin_v_def intro!: kept_intros dest: kept_sole)
qed

lemma PopBack_kept:
  assumes "sole_owner v pv h" "this \<noteq> v"
  shows "on_exit (PopBack T this h) (kept v pv h)"
proof (cases "vectors h this")
  case None
  then show ?thesis by (simp add: PopBack_def)
next
  case (Some tv)
  note b = sole_owner_buffer [OF assms(1) Some assms(2)]
  with Some assms show ?thesis
    by (auto simp: PopBack_def begin_v_def intro!: kept_intros dest: kept_sole)
qed

lemma Reserve_kept:
  assumes "sole_owner v pv h" "this \<noteq> v"
  shows "on_exit (Reserve T this n h) (kept v pv h)"
proof (cases "vectors h this")
  case None
  then show ?thesis by (simp add: Reserve_def)
next
  case (Some tv)
  note b = sole_owner_buffer [OF assms(1) Some assms(2)]
  show ?thesis
  proof (cases "n \<le> capacity_m (data_m tv)")
    case True
    with Some assms show ?thesis by (simp add: Reserve_def kept_refl)
  next
    case False
    obtain h0 nb where al: "Allocate n h = (h0, nb)" by (cases "Allocate n h")
    from Allocate_kept [OF assms(1), of n] al
    have k0: "kept v pv h h0" and nb: "other_block pv nb" by simp_all
    have "on_exit (Reserve T this n h) (kept v pv h0)"
      using Some False al b nb assms(2) kept_sole [OF k0]
      by (auto simp: Reserve_def Let_def RawMemory_Swap_def begin_v_def
            intro!: kept_intros dest: kept_sole)
    with k0 show ?thesis by (rule on_exit_from)
  qed
qed

lemma Resize_kept:
  assumes "sole_owner v pv h" "this \<noteq> v"
  shows "on_exit (Resize T this n h) (kept v pv h)"
proof (cases "vectors h this")
  case None
  then show ?thesis by (simp add: Resize_def)
next
  case (Some tv)
  note b = sole_owner_buffer [OF assms(1) Some assms(2)]
  have fin: "on_exit (case vectors h2 this of None \<Rightarrow> Fault No_object
        | Some v2 \<Rightarrow> Done (h2\<lparr>vectors := (vectors h2)(this \<mapsto> v2\<lparr>size_m := n\<rparr>)\<rparr>) ())
      (kept v pv h2)" if "sole_owner v pv h2" for h2
    using that assms(2)
    by (auto split: option.splits intro!: update_kept dest: sole_owner_buffer)
  have grow: "on_exit (case vectors h1 this of None \<Rightarrow> Fault No_object
        | Some v1 \<Rightarrow> uninitialized_value_construct_n T (ptr_add (begin_v v1) (size_m v1))
              (n - size_m v1) h1) (kept v pv h1)" if "sole_owner v pv h1" for h1
    using that assms(2)
    by (auto simp: begin_v_def split: option.splits
          intro!: uninitialized_value_construct_n_kept dest: sole_owner_buffer)
  show ?thesis
    unfolding Resize_def using Some b assms
    by (auto simp: begin_v_def
          intro!: on_exit_and_then destroy_n_kept Reserve_kept kept_refl fin grow update_kept
          dest: kept_sole)
qed

lemma copy_construct_kept:
  assumes "sole_owner v pv h"
  shows "on_exit (copy_construct T r h) (kept v pv h)"
proof -
  obtain h0 nb where al: "Allocate (size_m r) h = (h0, nb)" by (cases "Allocate (size_m r) h")
  from Allocate_kept [OF assms, of "size_m r"] al
  have k0: "kept v pv h h0" and nb: "other_block pv nb" by simp_all
  have "on_exit (copy_construct T r h) (kept v pv h0)"
    using al nb kept_sole [OF k0]
    by (auto simp: copy_construct_def intro!: kept_rules dest: kept_sole)
  with k0 show ?thesis by (rule on_exit_from)
qed

lemma copy_construct_buffer:
  assumes "sole_owner v pv h" "copy_construct T r h = Done h1 c"
  shows "other_block pv (buffer_m (data_m c))"
proof -
  from assms(2) have "buffer_m (data_m c) = snd (Allocate (size_m r) h)"
    by (auto simp: copy_construct_def split_def Let_def and_then_Done_iff)
  with Allocate_kept [OF assms(1), of "size_m r"] show ?thesis by simp
qed

lemma destroy_vector_kept:
  "other_block pv (buffer_m (data_m tv)) \<Longrightarrow> sole_owner v pv h \<Longrightarrow>
   on_exit (destroy_vector T tv h) (kept v pv h)"
  by (auto simp: destroy_vector_def begin_v_def intro!: kept_rules dest: kept_sole)

lemma Swap_v_buffers:
  "other_block pv (buffer_m (data_m a)) \<Longrightarrow> other_block pv (buffer_m (data_m b)) \<Longrightarrow>
   other_block pv (buffer_m (data_m (fst (Swap_v a b)))) \<and>
   other_block pv (buffer_m (data_m (snd (Swap_v a b))))"
  by (simp add: Swap_v_def RawMemory_Swap_def)

lemma copy_assign_kept:
  assumes "sole_owner v pv h" "this \<noteq> v"
  shows "on_exit (copy_assign T this rhs h) (kept v pv h)"
proof (cases "this \<noteq> rhs \<and> vectors h this \<noteq> None \<and> vectors h rhs \<noteq> None")
  case False
  with assms show ?thesis by (auto simp: copy_assign_def kept_refl split: option.splits)
next
  case True
  then obtain tv r where tv: "vectors h this = Some tv" and r: "vectors h rhs = Some r"
    and ne: "this \<noteq> rhs" by auto
  note b = sole_owner_buffer [OF assms(1) tv assms(2)]
  show ?thesis
  proof (cases "size_m r > capacity_m (data_m tv)")
    case True
    have "on_exit (and_then (copy_construct T r h) (\<lambda>h1 rhs_copy.
            let (v', rhs_copy') = Swap_v tv rhs_copy;
                h2 = h1\<lparr>vectors := (vectors h1)(this \<mapsto> v')\<rparr>
            in destroy_vector T rhs_copy' h2)) (kept v pv h)"
    proof (rule on_exit_and_then_result [OF copy_construct_kept [OF assms(1)]])
      fix h1 c
      assume d: "copy_construct T r h = Done h1 c" and k: "kept v pv h h1"
      note cb = copy_construct_buffer [OF assms(1) d]
      note sw = Swap_v_buffers [OF b cb]
      have k2: "kept v pv h1 (h1\<lparr>vectors := (vectors h1)(this \<mapsto> fst (Swap_v tv c))\<rparr>)"
        using assms(2) sw kept_sole [OF k] by (intro update_kept) simp_all
      from k2 destroy_vector_kept [OF sw [THEN conjunct2] kept_sole [OF k2], of T]
      show "on_exit (let (v', rhs_copy') = Swap_v tv c;
                h2 = h1\<lparr>vectors := (vectors h1)(this \<mapsto> v')\<rparr>
            in destroy_vector T rhs_copy' h2) (kept v pv h1)"
        by (simp add: split_def Let_def on_exit_from)
    qed
    with tv r ne True show ?thesis by (simp add: copy_assign_def)
  next
    case False
    with tv r ne b assms show ?thesis
      by (auto simp: copy_assign_def begin_v_def intro!: kept_rules dest: kept_sole)
  qed
qed

lemma update2_kept:
  "this \<noteq> v \<Longrightarrow> rhs \<noteq> v \<Longrightarrow> other_block pv (buffer_m (data_m tv')) \<Longrightarrow>
   other_block pv (buffer_m (data_m r')) \<Longrightarrow> sole_owner v pv h \<Longrightarrow>
   kept v pv h (h\<lparr>vectors := (vectors h)(rhs \<mapsto> r', this \<mapsto> tv')\<rparr>)"
  by (auto simp: kept_def sole_owner_def other_block_def)

lemma move_assign_kept:
  assumes "sole_owner v pv h" "this \<noteq> v" "rhs \<noteq> v"
  shows "on_exit (move_assign this rhs h) (kept v pv h)"
  using assms
  by (auto simp: move_assign_def RawMemory_Swap_def kept_refl split: option.splits
        intro!: update2_kept dest: sole_owner_buffer)

lemma Swap_kept:
  assumes "sole_owner v pv h" "this \<noteq> v" "other \<noteq> v"
  shows "on_exit (Swap this other h) (kept v pv h)"
  using assms
  by (auto simp: Swap_def Swap_v_def RawMemory_Swap_def kept_refl fun_upd_twist
        split: option.splits intro!: update2_kept dest: sole_owner_buffer)

lemma assign_from_kept:
  "other_block pv (fst p) \<Longrightarrow> sole_owner v pv h \<Longrightarrow>
   on_exit (assign_from T p val h) (kept v pv h)"
  by (cases val) (simp_all add: assign_at_kept)

lemma Subscript_assign_kept:
  assumes "sole_owner v pv h" "this \<noteq> v"
  shows "on_exit (Subscript_assign T this index val h) (kept v pv h)"
proof (cases "vectors h this")
  case None
  then show ?thesis by (simp add: Subscript_assign_def)
next
  case (Some tv)
  note b = sole_owner_buffer [OF assms(1) Some assms(2)]
  with Some assms show ?thesis
    by (auto simp: Subscript_assign_def begin_v_def intro!: assign_from_kept)
qed

lemma Iterator_assign_kept:
  assumes "sole_owner v pv h" "this \<noteq> v"
  shows "on_exit (Iterator_assign T this k val h) (kept v pv h)"
proof (cases "vectors h this")
  case None
  then show ?thesis by (simp add: Iterator_assign_def)
next
  case (Some tv)
  note b = sole_owner_buffer [OF assms(1) Some assms(2)]
  with Some assms show ?thesis
    by (auto simp: Iterator_assign_def begin_v_def intro!: assign_from_kept)
qed

lemma remove_kept:
  "this \<noteq> v \<Longrightarrow> sole_owner v pv h \<Longrightarrow>
   kept v pv h (h\<lparr>vectors := (vectors h)(this := None)\<rparr>)"
  by (auto simp: kept_def sole_owner_def)

lemma Vector_dtor_kept:
  assumes "sole_owner v pv h" "this \<noteq> v"
  shows "on_exit (Vector_dtor T this h) (kept v pv h)"
proof (cases "vectors h this")
  case None
  then show ?thesis by (simp add: Vector_dtor_def)
next
  case (Some tv)
  note b = sole_owner_buffer [OF assms(1) Some assms(2)]
  have "on_exit (and_then (destroy_vector T tv h)
          (\<lambda>h1 _. Done (h1\<lparr>vectors := (vectors h1)(this := None)\<rparr>) ())) (kept v pv h)"
  proof (rule on_exit_and_then)
    show "on_exit (destroy_vector T tv h) (kept v pv h)"
      using b assms(1) by (rule destroy_vector_kept)
  next
    fix h1 r
    assume k: "kept v pv h h1"
    from remove_kept [OF assms(2) kept_sole [OF k]]
    show "on_exit (Done (h1\<lparr>vectors := (vectors h1)(this := None)\<rparr>) ()) (kept v pv h1)"
      by simp
  qed
  with Some show ?thesis by (simp add: Vector_dtor_def)
qed

lemma mutate_kept:
  assumes "sole_owner v pv h" "w \<noteq> v" "spares v m"
  shows "on_exit (mutate T w m h) (kept v pv h)"
  using assms
  by (cases m)
     (auto intro!: on_exit_and_then Reserve_kept Resize_kept PushBack_kept PopBack_kept
        EmplaceBack_kept Emplace_kept Insert_kept Erase_kept copy_assign_kept move_assign_kept
        Swap_kept Subscript_assign_kept Iterator_assign_kept Vector_dtor_kept kept_refl
        dest: kept_sole)

lemma mutations_kept:
  "sole_owner v pv h \<Longrightarrow> w \<noteq> v \<Longrightarrow> list_all (spares v) ms \<Longrightarrow>
   mutations T w ms h = Some h' \<Longrightarrow> kept v pv h h'"
proof (induction ms arbitrary: h)
  case Nil
  then show ?case by (simp add: kept_refl)
next
  case (Cons m ms)
  from Cons.prems have sp: "spares v m" and rest: "list_all (spares v) ms" by simp_all
  note k = mutate_kept [OF Cons.prems(1,2) sp, of T]
  show ?case
  proof (cases "mutate T w m h")
    case (Done h1 r)
    with k have k1: "kept v pv h h1" by simp
    from Cons.prems(4) Done have "mutations T w ms h1 = Some h'" by simp
    from Cons.IH [OF kept_sole [OF k1] Cons.prems(2) rest this] k1 show ?thesis
      by (rule kept_trans [rotated])
  next
    case (Thrown h1)
    with k have k1: "kept v pv h h1" by simp
    from Cons.prems(4) Thrown have "mutations T w ms h1 = Some h'" by simp
    from Cons.IH [OF kept_sole [OF k1] Cons.prems(2) rest this] k1 show ?thesis
      by (rule kept_trans [rotated])
  next
    case (Fault f)
    with Cons.prems(4) show ?thesis by simp
  qed
qed

lemma holds_kept:
  assumes "holds h v xs c" "vectors h v = Some vr" "kept v (buffer_m (data_m vr)) h h'"
  shows "holds h' v xs c"
  using assms by (auto simp: holds_def kept_def split: option.splits)

lemma Vector_copy_kept:
  assumes "sole_owner v pv h" "w \<noteq> v"
  shows "on_exit (Vector_copy T w src h) (kept v pv h)"
proof (cases "vectors h src")
  case None
  then show ?thesis by (simp add: Vector_copy_def)
next
  case (Some r)
  have "on_exit (and_then (copy_construct T r h) (\<lambda>h1 c.
          Done (h1\<lparr>vectors := (vectors h1)(w \<mapsto> c)\<rparr>) ())) (kept v pv h)"
  proof (rule on_exit_and_then_result [OF copy_construct_kept [OF assms(1)]])
    fix h1 c
    assume d: "copy_construct T r h = Done h1 c" and k: "kept v pv h h1"
    from update_kept [OF assms(2) copy_construct_buffer [OF assms(1) d] kept_sole [OF k]]
    show "on_exit (Done (h1\<lparr>vectors := (vectors h1)(w \<mapsto> c)\<rparr>) ()) (kept v pv h1)" by simp
  qed
  with Some show ?thesis by (simp add: Vector_copy_def)
qed

lemma Vector_copy_Done:
  assumes "holds h v xs c" "owns_alone h v" "w \<noteq> v" "Vector_copy T w v h = Done h1 u"
  shows "holds h1 w xs (length xs)"
proof -
  let ?n = "length xs"
  from holds_vector [OF assms(1)] obtain vr where vv: "vectors h v = Some vr" ..
  from assms(1) have v: "size_m vr = ?n" "capacity_m (data_m vr) = c" and le: "?n \<le> c"
    and buf: "\<And>a. buffer_m (data_m vr) = Some a \<Longrightarrow>
       0 < c \<and> blocks h a = Some (map Live xs @ replicate (c - length xs) Raw)"
    and nobuf: "buffer_m (data_m vr) = None \<Longrightarrow> c = 0"
    by (simp_all add: holds_Some [OF vv])
  from assms(2) vv have so: "sole_owner v (buffer_m (data_m vr)) h" by (simp add: owns_alone_def)
  show ?thesis
  proof (cases "?n = 0")
    case True
    with assms(4) vv v show ?thesis
      by (auto simp: Vector_copy_def copy_construct_def Allocate_def uninitialized_copy_n_def
            unwinding_def try_catch_def holds_def)
  next
    case False
    with le have "0 < c" by (cases xs) auto
    with nobuf obtain a where a: "buffer_m (data_m vr) = Some a"
      by (cases "buffer_m (data_m vr)") auto
    from buf [OF a] have blk: "blocks h a = Some (map Live xs @ replicate (c - ?n) Raw)" by simp
    let ?nb = "next_block h"
    let ?h0 = "h\<lparr>blocks := (blocks h)(?nb \<mapsto> replicate ?n Raw), next_block := Suc ?nb\<rparr>"
    have al: "Allocate ?n h = (?h0, Some ?nb)" using False by (intro Allocate_pos) simp
    from so a have ne: "a \<noteq> ?nb" by (auto simp: sole_owner_def)
    from assms(4) vv v al obtain h2 where
      c1: "uninitialized_copy_n T (Some a, 0) ?n (Some ?nb, 0) ?h0 = Done h2 ()"
      and h1: "h1 = h2\<lparr>vectors := (vectors h2)
                 (w \<mapsto> \<lparr>data_m = \<lparr>buffer_m = Some ?nb, capacity_m = ?n\<rparr>, size_m = ?n\<rparr>)\<rparr>"
      using a
      by (auto simp: Vector_copy_def copy_construct_def and_then_Done_iff begin_v_def)
    have A: "blocks ?h0 a = Some ([] @ map Live xs @ replicate (c - ?n) Raw)"
      using blk ne by simp
    have B: "blocks ?h0 ?nb = Some ([] @ replicate ?n Raw @ [])" by simp
    from c1 uninit_copy_loop_Done [OF ne A B, of 0 0 0 T h2 "()"]
    have h2: "h2 = set_block ?nb (map Live xs) ?h0"
      by (simp add: uninitialized_copy_n_def)
    show ?thesis using False by (simp add: holds_def h1 h2)
  qed
qed

lemma and_then_Thrown_iff:
  "and_then m f = Thrown h' \<longleftrightarrow>
     m = Thrown h' \<or> (\<exists>h1 r. m = Done h1 r \<and> f h1 r = Thrown h')"
  by (cases m) auto

lemma destroy_at_not_Thrown [simp]: "destroy_at T p h \<noteq> Thrown h'"
  by (auto simp: destroy_at_def split: sum.splits cell.splits)

lemma destroy_n_not_Thrown [simp]: "destroy_n T p n h \<noteq> Thrown h'"
  by (induction n arbitrary: p h) (auto simp: and_then_Thrown_iff)

lemma Deallocate_not_Thrown [simp]: "Deallocate buf h \<noteq> Thrown h'"
  by (auto simp: Deallocate_def split: option.splits)

lemma construct_at_not_Thrown [simp]: "construct_at p x h \<noteq> Thrown h'"
  by (auto simp: construct_at_def split: sum.splits)

lemma rethrow_Thrown_iff:
  "and_then m (\<lambda>h' _. Thrown h') = Thrown h' \<longleftrightarrow> m = Thrown h' \<or> (\<exists>r. m = Done h' r)"
  by (cases m) auto

lemma try_catch_Thrown_iff:
  "try_catch m handler = Thrown h' \<longleftrightarrow> (\<exists>h1. m = Thrown h1 \<and> handler h1 = Thrown h')"
  by (cases m) (auto simp: try_catch_def)

lemma unwinding_Thrown_iff:
  "unwinding buf m = Thrown h' \<longleftrightarrow> (\<exists>h1. m = Thrown h1 \<and> Deallocate buf h1 = Done h' ())"
  by (auto simp: unwinding_def try_catch_Thrown_iff rethrow_Thrown_iff)

lemma emplace_at_Thrown_iff:
  "emplace_at p arg h = Thrown h' \<longleftrightarrow> arg = None \<and> h' = h"
  by (cases arg) (auto simp: emplace_at_def)

lemma destroy_n_trivial:
  "trivial T \<Longrightarrow> blocks h b = Some (pre @ cs @ post) \<Longrightarrow> i = length pre \<Longrightarrow>
   destroy_n T (Some b, i) (length cs) h =
     Done (set_block b (pre @ replicate (length cs) Raw @ post) h) ()"
proof (induction cs arbitrary: pre h i)
  case Nil
  then show ?case by (simp add: set_block_same)
next
  case (Cons c cs)
  have "blocks (set_block b (pre @ Raw # cs @ post) h) b = Some ((pre @ [Raw]) @ cs @ post)"
    by simp
  from Cons.IH [OF Cons.prems(1) this, of "Suc i"] Cons.prems show ?case
    by (cases c)
       (simp_all add: destroy_at_def load_block store_block nth_append replicate_app_Cons_same
          set_block_same)
qed

lemma uninit_copy_loop_Thrown:
  "a \<noteq> b \<Longrightarrow> blocks h a = Some (spre @ map Live xs @ spost) \<Longrightarrow>
   blocks h b = Some (dpre @ map Live ys @ replicate (length xs) Raw @ dpost) \<Longrightarrow>
   i = length spre \<Longrightarrow> d0 = length dpre \<Longrightarrow> k = length ys \<Longrightarrow>
   uninit_copy_loop T (Some a, i) (Some b, d0) k (length xs) h = Thrown h' \<longleftrightarrow>
     (\<exists>x\<in>set xs. copy_throws T x) \<and>
     h' = set_block b (dpre @ replicate (length ys + length xs) Raw @ dpost) h"
proof (induction xs arbitrary: spre ys h i k)
  case Nil
  then show ?case by simp
next
  case (Cons x xs)
  show ?case
  proof (cases "copy_throws T x")
    case True
    have B: "blocks h b = Some (dpre @ map Live ys @ (replicate (Suc (length xs)) Raw @ dpost))"
      using Cons.prems by simp
    from destroy_n_live [OF B Cons.prems(5), of T] True Cons.prems show ?thesis
      by (auto simp: load_block nth_append replicate_add replicate_app_Cons_same)
  next
    case False
    let ?h1 = "set_block b (dpre @ map Live ys @ Live x # replicate (length xs) Raw @ dpost) h"
    have A: "blocks ?h1 a = Some ((spre @ [Live x]) @ map Live xs @ spost)"
      using Cons.prems by simp
    have B: "blocks ?h1 b = Some (dpre @ map Live (ys @ [x]) @ replicate (length xs) Raw @ dpost)"
      by simp
    have D: "Suc i = length (spre @ [Live x])" using Cons.prems by simp
    have K: "Suc k = length (ys @ [x])" using Cons.prems by simp
    have B0: "blocks h b = Some ((dpre @ map Live ys) @ Raw # replicate (length xs) Raw @ dpost)"
      using Cons.prems by simp
    have E: "construct_at (Some b, d0 + k) x h = Done ?h1 ()"
      using construct_at_block [OF B0, of "d0 + k" x] Cons.prems by simp
    from Cons.IH [OF Cons.prems(1) A B D Cons.prems(5) K] E False Cons.prems show ?thesis
      by (simp add: load_block nth_append replicate_app_Cons_same)
  qed
qed

lemma destroy_n_Done:
  "blocks h b = Some (pre @ cs @ post) \<Longrightarrow> i = length pre \<Longrightarrow>
   destroy_n T (Some b, i) (length cs) h = Done h1 u \<Longrightarrow>
   h1 = set_block b (pre @ replicate (length cs) Raw @ post) h"
proof (induction cs arbitrary: pre h i)
  case Nil
  then show ?case by (simp add: set_block_same)
next
  case (Cons c cs)
  from Cons.prems(3) obtain h2 where
    1: "destroy_at T (Some b, i) h = Done h2 ()"
    and 2: "destroy_n T (Some b, Suc i) (length cs) h2 = Done h1 u"
    by (auto simp: and_then_Done_iff)
  from 1 Cons.prems(1,2) have h2: "h2 = set_block b (pre @ Raw # cs @ post) h"
    by (cases c)
       (auto simp: destroy_at_def load_block store_block nth_append set_block_same
          split: if_splits)
  have "blocks h2 b = Some ((pre @ [Raw]) @ cs @ post)" by (simp add: h2)
  from Cons.IH [OF this _ 2] Cons.prems(2) show ?case
    by (simp add: h2 replicate_app_Cons_same)
qed

lemma transfer_n_Thrown:
  assumes "a \<noteq> b" "blocks h a = Some (spre @ map Live xs @ spost)"
    "blocks h b = Some (dpre @ replicate (length xs) Raw @ dpost)"
    "i = length spre" "d0 = length dpre"
    "copies_on_transfer T \<or> (\<forall>x\<in>set xs. \<not> move_throws T x)"
    "transfer_n T (Some a, i) (length xs) (Some b, d0) h = Thrown h'"
  shows "h' = h \<and> copies_on_transfer T"
proof (cases "copies_on_transfer T")
  case True
  have B: "blocks h b = Some (dpre @ map Live [] @ replicate (length xs) Raw @ dpost)"
    using assms(3) by simp
  from uninit_copy_loop_Thrown [OF assms(1,2) B assms(4,5), of 0 T h'] assms(7) True assms(3)
  show ?thesis
    by (simp add: transfer_n_def uninitialized_copy_n_def copies_on_transfer_def set_block_same)
next
  case False
  with assms(6) have nt: "\<forall>x\<in>set xs. \<not> move_throws T x" by simp
  let ?H = "set_block b (dpre @ map Live xs @ dpost)
              (set_block a (spre @ map Live (map (moved_from T) xs) @ spost) h)"
  from uninit_move_loop_Done [OF assms(1,2,3,4), of d0 0 T ?H "()"] assms(5) nt
  have "uninit_move_loop T (Some a, i) (Some b, d0) 0 (length xs) h = Done ?H ()" by simp
  with assms(7) False show ?thesis
    by (simp add: transfer_n_def uninitialized_move_n_def copies_on_transfer_def)
qed

lemma EmplaceBack_Thrown:
  assumes "holds h this xs c" "heap_ok h"
    "copies_on_transfer T \<or> (\<forall>x\<in>set xs. \<not> move_throws T x)"
    "EmplaceBack T this arg h = Thrown h'"
  shows "vectors h' = vectors h \<and> blocks h' = blocks h \<and> next_block h \<le> next_block h'"
proof -
  let ?n = "length xs"
  let ?nb = "next_block h"
  from holds_vector [OF assms(1)] obtain v where vv: "vectors h this = Some v" ..
  from assms(1) have v: "size_m v = ?n" "capacity_m (data_m v) = c" and le: "?n \<le> c"
    and buf: "\<And>a. buffer_m (data_m v) = Some a \<Longrightarrow>
       0 < c \<and> blocks h a = Some (map Live xs @ replicate (c - length xs) Raw)"
    and nobuf: "buffer_m (data_m v) = None \<Longrightarrow> c = 0"
    by (simp_all add: holds_Some [OF vv])
  show ?thesis
  proof (cases "?n < c")
    case True
    with assms(4) vv v show ?thesis
      by (auto simp: EmplaceBack_def and_then_Thrown_iff emplace_at_Thrown_iff)
  next
    case False
    with le have c: "c = ?n" by simp
    define nc where "nc = max (c * 2) (Suc ?n)"
    let ?h0 = "h\<lparr>blocks := (blocks h)(?nb \<mapsto> replicate nc Raw), next_block := Suc ?nb\<rparr>"
    have al: "Allocate nc h = (?h0, Some ?nb)" by (rule Allocate_pos) (simp add: nc_def)
    define m where "m = nc - Suc ?n"
    have m: "nc = ?n + Suc m" by (simp add: m_def nc_def)
    have blk0: "blocks ?h0 ?nb = Some (replicate ?n Raw @ Raw # replicate m Raw)"
      by (simp add: m replicate_add replicate_append_same)
    have fresh: "blocks h ?nb = None" using assms(2) by (auto simp: heap_ok_def)
    let ?v' = "v\<lparr>data_m := (data_m v)\<lparr>buffer_m := Some ?nb, capacity_m := nc\<rparr>,
                         size_m := Suc ?n\<rparr>"
    have eq: "EmplaceBack T this arg h =
       unwinding (Some ?nb)
         (and_then (emplace_at (Some ?nb, ?n) arg ?h0) (\<lambda>h1 _.
          and_then
            (try_catch (transfer_n T (begin_v v) ?n (Some ?nb, 0) h1)
               (\<lambda>h2. and_then (destroy_n T (Some ?nb, 0) (Suc ?n) h2) (\<lambda>h3 _. Thrown h3))) (\<lambda>h2 _.
          and_then (destroy_n T (begin_v v) ?n h2) (\<lambda>h3 _.
          and_then (Deallocate (buffer_m (data_m v))
             (h3\<lparr>vectors := (vectors h3)(this \<mapsto> ?v')\<rparr>)) (\<lambda>h5 _.
            Done h5 (Some ?nb, ?n))))))"
      using vv v c al [unfolded nc_def]
      by (simp add: EmplaceBack_def Let_def RawMemory_Swap_def nc_def)
    let ?h1 = "\<lambda>x. set_block ?nb (replicate ?n Raw @ Live x # replicate m Raw) ?h0"
    from assms(4) [unfolded eq unwinding_Thrown_iff] obtain hx where
      thrown: "and_then (emplace_at (Some ?nb, ?n) arg ?h0) (\<lambda>h1 _.
          and_then
            (try_catch (transfer_n T (begin_v v) ?n (Some ?nb, 0) h1)
               (\<lambda>h2. and_then (destroy_n T (Some ?nb, 0) (Suc ?n) h2) (\<lambda>h3 _. Thrown h3))) (\<lambda>h2 _.
          and_then (destroy_n T (begin_v v) ?n h2) (\<lambda>h3 _.
          and_then (Deallocate (buffer_m (data_m v))
             (h3\<lparr>vectors := (vectors h3)(this \<mapsto> ?v')\<rparr>)) (\<lambda>h5 _.
            Done h5 (Some ?nb, ?n))))) = Thrown hx"
      and de: "Deallocate (Some ?nb) hx = Done h' ()" by blast
    from thrown consider (ctor) "arg = None" "hx = ?h0"
      | (transfer) x h2 where "arg = Some x"
          "transfer_n T (begin_v v) ?n (Some ?nb, 0) (?h1 x) = Thrown h2"
          "destroy_n T (Some ?nb, 0) (Suc ?n) h2 = Done hx ()"
      by (auto simp: and_then_Thrown_iff emplace_at_Thrown_iff emplace_at_Done_iff
            try_catch_Thrown_iff rethrow_Thrown_iff construct_at_block [OF blk0])
    then have "vectors hx = vectors h \<and> next_block hx = Suc ?nb \<and>
        (\<exists>cs. blocks hx = (blocks h)(?nb \<mapsto> cs))"
    proof cases
      case ctor
      then show ?thesis by auto
    next
      case transfer
      have "h2 = ?h1 x"
      proof (cases "buffer_m (data_m v)")
        case None
        with nobuf c have "xs = []" by simp
        with transfer(2) show ?thesis by simp
      next
        case (Some a)
        from buf [OF Some] c have blk: "blocks h a = Some (map Live xs)" by simp
        with assms(2) have ne: "a \<noteq> ?nb" by (auto simp: heap_ok_def)
        have A: "blocks (?h1 x) a = Some ([] @ map Live xs @ [])" using blk ne by simp
        have B: "blocks (?h1 x) ?nb = Some ([] @ replicate ?n Raw @ Live x # replicate m Raw)"
          by simp
        from transfer(2) Some have "transfer_n T (Some a, 0) ?n (Some ?nb, 0) (?h1 x) = Thrown h2"
          by (simp add: begin_v_def)
        from transfer_n_Thrown [OF ne A B _ _ assms(3) this] show ?thesis by simp
      qed
      moreover have B: "blocks (?h1 x) ?nb = Some ([] @ (replicate ?n Raw @ [Live x]) @ replicate m Raw)"
        by simp
      ultimately have "hx = set_block ?nb ([] @ replicate (Suc ?n) Raw @ replicate m Raw) (?h1 x)"
        using destroy_n_Done [OF B, of 0 T hx "()"] transfer(3) by simp
      then show ?thesis by auto
    qed
    moreover have "(blocks h)(?nb := None) = blocks h" using fresh by (rule fun_upd_idem)
    ultimately show ?thesis using de
      by (auto simp: Deallocate_def)
  qed
qed

lemma destroy_n_frame:
  "destroy_n T (Some b, i) n h = Done h1 u \<Longrightarrow>
   vectors h1 = vectors h \<and> next_block h1 = next_block h \<and>
   (\<forall>a. a \<noteq> b \<longrightarrow> blocks h1 a = blocks h a)"
proof (induction n arbitrary: h i)
  case 0
  then show ?case by simp
next
  case (Suc n)
  from Suc.prems obtain h2 where
    1: "destroy_at T (Some b, i) h = Done h2 ()"
    and 2: "destroy_n T (Some b, Suc i) n h2 = Done h1 u"
    by (auto simp: and_then_Done_iff)
  from 1 have "vectors h2 = vectors h \<and> next_block h2 = next_block h \<and>
      (\<forall>a. a \<noteq> b \<longrightarrow> blocks h2 a = blocks h a)"
    by (auto simp: destroy_at_def load_def store_def and_then_Done_iff
          split: if_splits option.splits cell.splits)
  with Suc.IH [OF 2] show ?case by simp
qed

lemma Emplace_Thrown:
  assumes "holds h this xs c" "\<not> length xs < c" "heap_ok h" "p \<le> length xs"
    "copies_on_transfer T \<or> (\<forall>x\<in>set xs. \<not> move_throws T x)"
    "Emplace T this p arg h = Thrown h'"
  shows "vectors h' = vectors h \<and> blocks h' = blocks h \<and> next_block h \<le> next_block h'"
proof -
  let ?n = "length xs"
  let ?nb = "next_block h"
  define nc where "nc = max (c * 2) (Suc ?n)"
  define ys where "ys = take p xs"
  define zs where "zs = drop p xs"
  have xs: "xs = ys @ zs" by (simp add: ys_def zs_def)
  have lys: "length ys = p" using assms(4) by (simp add: ys_def)
  have lzs: "length zs = ?n - p" by (simp add: zs_def)
  from holds_vector [OF assms(1)] obtain v where vv: "vectors h this = Some v" ..
  from assms(1) have v: "size_m v = ?n" "capacity_m (data_m v) = c" and le: "?n \<le> c"
    and buf: "\<And>a. buffer_m (data_m v) = Some a \<Longrightarrow>
       0 < c \<and> blocks h a = Some (map Live xs @ replicate (c - length xs) Raw)"
    and nobuf: "buffer_m (data_m v) = None \<Longrightarrow> c = 0"
    by (simp_all add: holds_Some [OF vv])
  from le assms(2) have c: "c = ?n" by simp
  let ?h0 = "h\<lparr>blocks := (blocks h)(?nb \<mapsto> replicate nc Raw), next_block := Suc ?nb\<rparr>"
  have al: "Allocate nc h = (?h0, Some ?nb)" by (rule Allocate_pos) (simp add: nc_def)
  define m where "m = nc - Suc ?n"
  have m: "nc = p + Suc ((?n - p) + m)" using assms(4) by (simp add: m_def nc_def)
  have blk0: "blocks ?h0 ?nb = Some (replicate p Raw @ Raw # replicate (?n - p) Raw @ replicate m Raw)"
    by (simp add: m replicate_add replicate_append_same)
  have fresh: "blocks h ?nb = None" using assms(3) by (auto simp: heap_ok_def)
  let ?v' = "v\<lparr>data_m := (data_m v)\<lparr>buffer_m := Some ?nb, capacity_m := nc\<rparr>,
                         size_m := Suc ?n\<rparr>"
  have np: "\<not> ?n < p" using assms(4) by simp
  have eq: "Emplace T this p arg h =
     unwinding (Some ?nb)
       (and_then (emplace_at (Some ?nb, p) arg ?h0) (\<lambda>h1 _.
        and_then
          (try_catch
             (and_then (transfer_n T (begin_v v) p (Some ?nb, 0) h1) (\<lambda>h2 _.
                transfer_n T (ptr_add (begin_v v) p) (?n - p) (Some ?nb, Suc p) h2))
             (\<lambda>h2. and_then (destroy_n T (Some ?nb, 0) (Suc ?n) h2) (\<lambda>h3 _. Thrown h3))) (\<lambda>h2 _.
        and_then (destroy_n T (begin_v v) ?n h2) (\<lambda>h3 _.
        and_then (Deallocate (buffer_m (data_m v))
           (h3\<lparr>vectors := (vectors h3)(this \<mapsto> ?v')\<rparr>)) (\<lambda>h5 _.
          Done h5 (Some ?nb, p))))))"
    using vv v c al [unfolded nc_def] np
    by (simp add: Emplace_def Let_def RawMemory_Swap_def nc_def)
  let ?h1 = "\<lambda>x. set_block ?nb (replicate p Raw @ Live x # replicate (?n - p) Raw @ replicate m Raw) ?h0"
  have i0: "p = length (replicate p (Raw :: 'a cell))" by simp
  from assms(6) [unfolded eq unwinding_Thrown_iff] obtain hx where
    thrown: "and_then (emplace_at (Some ?nb, p) arg ?h0) (\<lambda>h1 _.
        and_then
          (try_catch
             (and_then (transfer_n T (begin_v v) p (Some ?nb, 0) h1) (\<lambda>h2 _.
                transfer_n T (ptr_add (begin_v v) p) (?n - p) (Some ?nb, Suc p) h2))
             (\<lambda>h2. and_then (destroy_n T (Some ?nb, 0) (Suc ?n) h2) (\<lambda>h3 _. Thrown h3))) (\<lambda>h2 _.
        and_then (destroy_n T (begin_v v) ?n h2) (\<lambda>h3 _.
        and_then (Deallocate (buffer_m (data_m v))
           (h3\<lparr>vectors := (vectors h3)(this \<mapsto> ?v')\<rparr>)) (\<lambda>h5 _.
          Done h5 (Some ?nb, p))))) = Thrown hx"
    and de: "Deallocate (Some ?nb) hx = Done h' ()" by blast
  from thrown consider (ctor) "arg = None" "hx = ?h0"
    | (first) x h2 where "arg = Some x"
        "transfer_n T (begin_v v) p (Some ?nb, 0) (?h1 x) = Thrown h2"
        "destroy_n T (Some ?nb, 0) (Suc ?n) h2 = Done hx ()"
    | (second) x h2a h2 where "arg = Some x"
        "transfer_n T (begin_v v) p (Some ?nb, 0) (?h1 x) = Done h2a ()"
        "transfer_n T (ptr_add (begin_v v) p) (?n - p) (Some ?nb, Suc p) h2a = Thrown h2"
        "destroy_n T (Some ?nb, 0) (Suc ?n) h2 = Done hx ()"
    by (auto simp: and_then_Thrown_iff emplace_at_Thrown_iff emplace_at_Done_iff
          try_catch_Thrown_iff rethrow_Thrown_iff construct_at_block [OF blk0 i0])
  then have "vectors hx = vectors h \<and> next_block hx = Suc ?nb \<and>
      (\<forall>a. a \<noteq> ?nb \<longrightarrow> blocks hx a = blocks h a)"
  proof cases
    case ctor
    then show ?thesis by auto
  next
    case first
    have "h2 = ?h1 x"
    proof (cases "buffer_m (data_m v)")
      case None
      with nobuf c assms(4) have "p = 0" by simp
      with first(2) show ?thesis by simp
    next
      case (Some a)
      from buf [OF Some] c have blk: "blocks h a = Some (map Live ys @ map Live zs)"
        by (simp add: xs)
      with assms(3) have ne: "a \<noteq> ?nb" by (auto simp: heap_ok_def)
      have A: "blocks (?h1 x) a = Some ([] @ map Live ys @ map Live zs)" using blk ne by simp
      have B: "blocks (?h1 x) ?nb = Some ([] @ replicate (length ys) Raw @
                 (Live x # replicate (?n - p) Raw @ replicate m Raw))"
        by (simp add: lys)
      have H: "copies_on_transfer T \<or> (\<forall>x\<in>set ys. \<not> move_throws T x)"
        using assms(5) by (auto simp: xs)
      from first(2) Some lys
      have "transfer_n T (Some a, 0) (length ys) (Some ?nb, 0) (?h1 x) = Thrown h2"
        by (simp add: begin_v_def)
      from transfer_n_Thrown [OF ne A B _ _ H this] show ?thesis by simp
    qed
    with destroy_n_frame [OF first(3)] show ?thesis by auto
  next
    case second
    have "vectors h2 = vectors h \<and> next_block h2 = Suc ?nb \<and>
        (\<forall>a. a \<noteq> ?nb \<longrightarrow> blocks h2 a = blocks h a)"
    proof (cases "buffer_m (data_m v)")
      case None
      with nobuf c assms(4) have "p = 0" "?n - p = 0" by simp_all
      with second(2,3) show ?thesis by simp
    next
      case (Some a)
      from buf [OF Some] c have blk: "blocks h a = Some (map Live ys @ map Live zs)"
        by (simp add: xs)
      with assms(3) have ne: "a \<noteq> ?nb" by (auto simp: heap_ok_def)
      have A: "blocks (?h1 x) a = Some ([] @ map Live ys @ map Live zs)" using blk ne by simp
      have B: "blocks (?h1 x) ?nb = Some ([] @ replicate (length ys) Raw @
                 (Live x # replicate (?n - p) Raw @ replicate m Raw))"
        by (simp add: lys)
      let ?h2 = "set_block ?nb ([] @ map Live ys @ (Live x # replicate (?n - p) Raw @ replicate m Raw))
            (set_block a ([] @ map Live (transferred T ys) @ map Live zs) (?h1 x))"
      from second(2) Some transfer_n_Done [OF ne A B, of 0 0 T h2a "()"] lys
      have h2a: "h2a = ?h2" by (simp add: begin_v_def)
      have A2: "blocks ?h2 a = Some (map Live (transferred T ys) @ map Live zs @ [])"
        using ne by simp
      have B2: "blocks ?h2 ?nb = Some ((map Live ys @ [Live x]) @ replicate (length zs) Raw @
                 replicate m Raw)"
        by (simp add: lzs)
      have H: "copies_on_transfer T \<or> (\<forall>x\<in>set zs. \<not> move_throws T x)"
        using assms(5) by (auto simp: xs)
      have i2: "p = length (map Live (transferred T ys))"
        by (simp add: lys transferred_def)
      have d2: "Suc p = length (map Live ys @ [Live x])" by (simp add: lys)
      from second(3) Some lzs
      have "transfer_n T (Some a, p) (length zs) (Some ?nb, Suc p) ?h2 = Thrown h2"
        by (simp add: begin_v_def ptr_add_def h2a)
      from transfer_n_Thrown [OF ne A2 B2 i2 d2 H this]
      have "h2 = ?h2" and "copies_on_transfer T" by simp_all
      then show ?thesis using blk ne
        by (auto simp: transferred_def copies_on_transfer_def)
    qed
    with destroy_n_frame [OF second(4)] show ?thesis by auto
  qed
  then have "vectors h' = vectors h \<and> (\<forall>a. blocks h' a = blocks h a) \<and>
      next_block h \<le> next_block h'"
    using de fresh by (auto simp: Deallocate_def split: option.splits)
  then show ?thesis by (simp add: fun_eq_iff)
qed

lemma try_catch_Done [simp]: "try_catch (Done h r) f = Done h r"
  by (simp add: try_catch_def)

lemma unwinding_Done [simp]: "unwinding buf (Done h r) = Done h r"
  by (simp add: unwinding_def)

lemma EmplaceBack_returns:
  assumes "holds h this xs c" "heap_ok h"
    "length xs < c \<or> (\<forall>x\<in>set xs. \<not> transfer_throws T x)"
  shows "\<exists>h' r. EmplaceBack T this (Some x) h = Done h' r"
proof -
  let ?n = "length xs"
  let ?nb = "next_block h"
  from holds_vector [OF assms(1)] obtain v where vv: "vectors h this = Some v" ..
  from assms(1) have v: "size_m v = ?n" "capacity_m (data_m v) = c" and le: "?n \<le> c"
    and buf: "\<And>a. buffer_m (data_m v) = Some a \<Longrightarrow>
       0 < c \<and> blocks h a = Some (map Live xs @ replicate (c - length xs) Raw)"
    and nobuf: "buffer_m (data_m v) = None \<Longrightarrow> c = 0"
    by (simp_all add: holds_Some [OF vv])
  show ?thesis
  proof (cases "?n < c")
    case True
    from nobuf True obtain a where a: "buffer_m (data_m v) = Some a"
      by (cases "buffer_m (data_m v)") auto
    from True obtain m where m: "c - ?n = Suc m" by (cases "c - ?n") auto
    from buf [OF a] m have blk: "blocks h a = Some (map Live xs @ Raw # replicate m Raw)"
      by simp
    have "construct_at (Some a, ?n) x h
        = Done (set_block a (map Live xs @ Live x # replicate m Raw) h) ()"
      by (rule construct_at_block [OF blk]) simp
    with vv v a True show ?thesis
      by (simp add: EmplaceBack_def end_v_def emplace_at_def)
  next
    case False
    with le have c: "c = ?n" by simp
    from False assms(3) have nt: "\<forall>x\<in>set xs. \<not> transfer_throws T x" by simp
    define nc where "nc = max (c * 2) (Suc ?n)"
    let ?h0 = "h\<lparr>blocks := (blocks h)(?nb \<mapsto> replicate nc Raw), next_block := Suc ?nb\<rparr>"
    have al: "Allocate nc h = (?h0, Some ?nb)" by (rule Allocate_pos) (simp add: nc_def)
    define m where "m = nc - Suc ?n"
    have m: "nc = ?n + Suc m" by (simp add: m_def nc_def)
    have blk0: "blocks ?h0 ?nb = Some (replicate ?n Raw @ Raw # replicate m Raw)"
      by (simp add: m replicate_add replicate_append_same)
    let ?v' = "v\<lparr>data_m := (data_m v)\<lparr>buffer_m := Some ?nb, capacity_m := nc\<rparr>,
                         size_m := Suc ?n\<rparr>"
    let ?h1 = "set_block ?nb (replicate ?n Raw @ Live x # replicate m Raw) ?h0"
    have e0: "EmplaceBack T this (Some x) h =
       unwinding (Some ?nb)
         (and_then (emplace_at (Some ?nb, ?n) (Some x) ?h0) (\<lambda>h1 _.
          and_then
            (try_catch (transfer_n T (begin_v v) ?n (Some ?nb, 0) h1)
               (\<lambda>h2. and_then (destroy_n T (Some ?nb, 0) (Suc ?n) h2) (\<lambda>h3 _. Thrown h3))) (\<lambda>h2 _.
          and_then (destroy_n T (begin_v v) ?n h2) (\<lambda>h3 _.
          and_then (Deallocate (buffer_m (data_m v))
             (h3\<lparr>vectors := (vectors h3)(this \<mapsto> ?v')\<rparr>)) (\<lambda>h5 _.
            Done h5 (Some ?nb, ?n))))))"
      using vv v c al [unfolded nc_def]
      by (simp add: EmplaceBack_def Let_def RawMemory_Swap_def nc_def)
    have e1: "emplace_at (Some ?nb, ?n) (Some x) ?h0 = Done ?h1 ()"
      by (simp add: emplace_at_def construct_at_block [OF blk0])
    show ?thesis unfolding e0 e1 and_then_simps
    proof (cases "buffer_m (data_m v)")
      case None
      with nobuf c have "xs = []" by simp
      with None show "\<exists>h' r. unwinding (Some ?nb)
         (and_then
            (try_catch (transfer_n T (begin_v v) ?n (Some ?nb, 0) ?h1)
               (\<lambda>h2. and_then (destroy_n T (Some ?nb, 0) (Suc ?n) h2) (\<lambda>h3 _. Thrown h3))) (\<lambda>h2 _.
          and_then (destroy_n T (begin_v v) ?n h2) (\<lambda>h3 _.
          and_then (Deallocate (buffer_m (data_m v))
             (h3\<lparr>vectors := (vectors h3)(this \<mapsto> ?v')\<rparr>)) (\<lambda>h5 _.
            Done h5 (Some ?nb, ?n))))) = Done h' r"
        by (simp add: Deallocate_def)
    next
      case (Some a)
      from buf [OF Some] c have blk: "blocks h a = Some (map Live xs)" by simp
      with assms(2) have ne: "a \<noteq> ?nb" by (auto simp: heap_ok_def)
      have A: "blocks ?h1 a = Some ([] @ map Live xs @ [])" using blk ne by simp
      have B: "blocks ?h1 ?nb = Some ([] @ replicate ?n Raw @ Live x # replicate m Raw)"
        by simp
      let ?h2 = "set_block ?nb ([] @ map Live xs @ Live x # replicate m Raw)
                      (set_block a ([] @ map Live (transferred T xs) @ []) ?h1)"
      from transfer_n_Done [OF ne A B, of 0 0 T ?h2 "()"] nt
      have t: "transfer_n T (begin_v v) ?n (Some ?nb, 0) ?h1 = Done ?h2 ()"
        using Some by (simp add: begin_v_def)
      have C: "blocks ?h2 a = Some ([] @ map Live (transferred T xs) @ [])" using ne by simp
      have lt: "length (transferred T xs) = ?n" by (simp add: transferred_def)
      from destroy_n_live [OF C, of 0 T] lt
      have d: "destroy_n T (begin_v v) ?n ?h2 = Done (set_block a ([] @ replicate ?n Raw @ []) ?h2) ()"
        using Some by (simp add: begin_v_def)
      show "\<exists>h' r. unwinding (Some ?nb)
         (and_then
            (try_catch (transfer_n T (begin_v v) ?n (Some ?nb, 0) ?h1)
               (\<lambda>h2. and_then (destroy_n T (Some ?nb, 0) (Suc ?n) h2) (\<lambda>h3 _. Thrown h3))) (\<lambda>h2 _.
          and_then (destroy_n T (begin_v v) ?n h2) (\<lambda>h3 _.
          and_then (Deallocate (buffer_m (data_m v))
             (h3\<lparr>vectors := (vectors h3)(this \<mapsto> ?v')\<rparr>)) (\<lambda>h5 _.
            Done h5 (Some ?nb, ?n))))) = Done h' r"
        unfolding t try_catch_Done and_then_simps d using Some by (simp add: Deallocate_def)
    qed
  qed
qed

lemma Emplace_inplace_returns:
  assumes "holds h this xs c" "length xs < c" "p < length xs"
    "\<not> move_throws T (last xs)" "\<forall>w\<in>set (butlast (drop p xs)). \<not> move_assign_throws T w"
    "\<not> move_assign_throws T x"
  shows "\<exists>h' r. Emplace T this p (Some x) h = Done h' r"
proof -
  let ?n = "length xs"
  define ys where "ys = take p xs"
  define ws where "ws = butlast (drop p xs)"
  define l where "l = last xs"
  from assms(2) have "0 < c" by simp
  with assms(1) obtain v a where vv: "vectors h this = Some v" and v: "size_m v = ?n"
    "capacity_m (data_m v) = c" and a: "buffer_m (data_m v) = Some a"
    and blk: "blocks h a = Some (map Live xs @ replicate (c - ?n) Raw)"
    by (rule holds_buffer)
  from assms(2) obtain m where m: "c - ?n = Suc m" by (cases "c - ?n") auto
  have ne: "drop p xs \<noteq> []" using assms(3) by simp
  have dl: "drop p xs = ws @ [l]"
    unfolding ws_def l_def
    using append_butlast_last_id [OF ne] last_drop [OF assms(3)] by simp
  have xs: "xs = ys @ ws @ [l]" using dl append_take_drop_id [of p xs] by (simp add: ys_def)
  have lys: "length ys = p" using assms(3) by (simp add: ys_def)
  have nn: "xs \<noteq> []" "\<not> ?n - Suc 0 < p" "Suc (?n - Suc 0) = ?n" "p \<noteq> ?n" "p < c"
    using assms(2,3) by auto
  have lws: "length ws = ?n - 1 - p" by (simp add: ws_def)
  have nl: "\<not> move_throws T l" using assms(4) by (simp add: l_def)
  have nw: "\<forall>w\<in>set ws. \<not> move_assign_throws T w" using assms(5) by (simp add: ws_def)
  let ?pre = "map Live ys"
  have blk1: "blocks h a = Some ((?pre @ map Live ws) @ Live l # Raw # replicate m Raw)"
    using blk m by (simp add: xs)
  have eq: "Emplace T this p (Some x) h =
     and_then
       (and_then (uninitialized_move_n T (Some a, ?n - 1) 1 (Some a, ?n) h) (\<lambda>h1 _.
        and_then (move_backward T (Some a, p) (?n - 1 - p) (Some a, ?n) h1)
            (\<lambda>h2 _. assign_at T (move_assign_throws T x) (Some a, p) x h2)))
       (\<lambda>h3 _. Done (h3\<lparr>vectors := (vectors h3)(this \<mapsto> v\<lparr>size_m := ?n + 1\<rparr>)\<rparr>) (Some a, p))"
    using vv v a assms(2,3) nn by (simp_all add: Emplace_def begin_v_def end_v_def)
  have i1: "?n - 1 = length (?pre @ map Live ws)" using lys lws assms(3) by simp
  let ?h1 = "set_block a ((?pre @ map Live ws) @ Live (moved_from T l) # Live l
                     # replicate m Raw) h"
  from uninit_move_one [OF blk1 i1, of T] nn nl
  have 1: "uninitialized_move_n T (Some a, ?n - 1) 1 (Some a, ?n) h = Done ?h1 ()"
    by simp
  have blk2: "blocks ?h1 a = Some (?pre @ map Live ws @ Live (moved_from T l)
                     # (Live l # replicate m Raw))"
    by simp
  have i2: "p = length ?pre" using lys by simp
  let ?z = "case ws of [] \<Rightarrow> moved_from T l | w # _ \<Rightarrow> moved_from T w"
  have j: "?n = length ?pre + length ws + 1" using lys lws assms(3) by simp
  let ?h2 = "set_block a (?pre @ Live ?z # map Live ws @ Live l # replicate m Raw) ?h1"
  from move_backward_Done [OF blk2 i2 j, of T ?h2 "()"] lws nw
  have 2: "move_backward T (Some a, p) (?n - 1 - p) (Some a, ?n) ?h1 = Done ?h2 ()"
    by simp
  have blk3: "blocks ?h2 a = Some (?pre @ Live ?z # (map Live ws @ Live l # replicate m Raw))"
    by simp
  from assign_at_block [OF blk3 i2, of T "move_assign_throws T x" x] assms(6)
  have 3: "\<exists>h3. assign_at T (move_assign_throws T x) (Some a, p) x ?h2 = Done h3 ()"
    by simp
  then obtain h3 where 3: "assign_at T (move_assign_throws T x) (Some a, p) x ?h2 = Done h3 ()" ..
  show ?thesis unfolding eq 1 and_then_simps 2 3 by simp
qed

lemma Emplace_full_returns:
  assumes "holds h this xs c" "\<not> length xs < c" "heap_ok h" "p \<le> length xs"
    "\<forall>x\<in>set xs. \<not> transfer_throws T x"
  shows "\<exists>h' r. Emplace T this p (Some x) h = Done h' r"
proof -
  let ?n = "length xs"
  let ?nb = "next_block h"
  define nc where "nc = max (c * 2) (Suc ?n)"
  define ys where "ys = take p xs"
  define zs where "zs = drop p xs"
  have xs: "xs = ys @ zs" by (simp add: ys_def zs_def)
  have lys: "length ys = p" using assms(4) by (simp add: ys_def)
  have lzs: "length zs = ?n - p" by (simp add: zs_def)
  have nt1: "\<forall>x\<in>set ys. \<not> transfer_throws T x" using assms(5) by (simp add: xs)
  have nt2: "\<forall>x\<in>set zs. \<not> transfer_throws T x" using assms(5) by (simp add: xs)
  from holds_vector [OF assms(1)] obtain v where vv: "vectors h this = Some v" ..
  from assms(1) have v: "size_m v = ?n" "capacity_m (data_m v) = c" and le: "?n \<le> c"
    and buf: "\<And>a. buffer_m (data_m v) = Some a \<Longrightarrow>
       0 < c \<and> blocks h a = Some (map Live xs @ replicate (c - length xs) Raw)"
    and nobuf: "buffer_m (data_m v) = None \<Longrightarrow> c = 0"
    by (simp_all add: holds_Some [OF vv])
  from le assms(2) have c: "c = ?n" by simp
  let ?h0 = "h\<lparr>blocks := (blocks h)(?nb \<mapsto> replicate nc Raw), next_block := Suc ?nb\<rparr>"
  have al: "Allocate nc h = (?h0, Some ?nb)" by (rule Allocate_pos) (simp add: nc_def)
  define m where "m = nc - Suc ?n"
  have m: "nc = p + Suc ((?n - p) + m)" using assms(4) by (simp add: m_def nc_def)
  have blk0: "blocks ?h0 ?nb = Some (replicate p Raw @ Raw # replicate (?n - p) Raw @ replicate m Raw)"
    by (simp add: m replicate_add replicate_append_same)
  let ?v' = "v\<lparr>data_m := (data_m v)\<lparr>buffer_m := Some ?nb, capacity_m := nc\<rparr>,
                         size_m := Suc ?n\<rparr>"
  have np: "\<not> ?n < p" using assms(4) by simp
  have e0: "Emplace T this p (Some x) h =
     unwinding (Some ?nb)
       (and_then (emplace_at (Some ?nb, p) (Some x) ?h0) (\<lambda>h1 _.
        and_then
          (try_catch
             (and_then (transfer_n T (begin_v v) p (Some ?nb, 0) h1) (\<lambda>h2 _.
                transfer_n T (ptr_add (begin_v v) p) (?n - p) (Some ?nb, Suc p) h2))
             (\<lambda>h2. and_then (destroy_n T (Some ?nb, 0) (Suc ?n) h2) (\<lambda>h3 _. Thrown h3))) (\<lambda>h2 _.
        and_then (destroy_n T (begin_v v) ?n h2) (\<lambda>h3 _.
        and_then (Deallocate (buffer_m (data_m v))
           (h3\<lparr>vectors := (vectors h3)(this \<mapsto> ?v')\<rparr>)) (\<lambda>h5 _.
          Done h5 (Some ?nb, p))))))"
    using vv v c al [unfolded nc_def] np
    by (simp add: Emplace_def Let_def RawMemory_Swap_def nc_def)
  let ?h1 = "set_block ?nb (replicate p Raw @ Live x # replicate (?n - p) Raw @ replicate m Raw) ?h0"
  have i0: "p = length (replicate p (Raw :: 'a cell))" by simp
  have e1: "emplace_at (Some ?nb, p) (Some x) ?h0 = Done ?h1 ()"
    by (simp add: emplace_at_def construct_at_block [OF blk0 i0])
  show ?thesis unfolding e0 e1 and_then_simps
  proof (cases "buffer_m (data_m v)")
    case None
    with nobuf c have xs0: "xs = []" by simp
    with assms(4) have p0: "p = 0" by simp
    from None xs0 p0 show "\<exists>h' r. unwinding (Some ?nb)
       (and_then
          (try_catch
             (and_then (transfer_n T (begin_v v) p (Some ?nb, 0) ?h1) (\<lambda>h2 _.
                transfer_n T (ptr_add (begin_v v) p) (?n - p) (Some ?nb, Suc p) h2))
             (\<lambda>h2. and_then (destroy_n T (Some ?nb, 0) (Suc ?n) h2) (\<lambda>h3 _. Thrown h3))) (\<lambda>h2 _.
        and_then (destroy_n T (begin_v v) ?n h2) (\<lambda>h3 _.
        and_then (Deallocate (buffer_m (data_m v))
           (h3\<lparr>vectors := (vectors h3)(this \<mapsto> ?v')\<rparr>)) (\<lambda>h5 _.
          Done h5 (Some ?nb, p))))) = Done h' r"
      by (simp add: Deallocate_def)
  next
    case (Some a)
    from buf [OF Some] c have blk: "blocks h a = Some (map Live ys @ map Live zs)"
      by (simp add: xs)
    with assms(3) have ne: "a \<noteq> ?nb" by (auto simp: heap_ok_def)
    have A: "blocks ?h1 a = Some ([] @ map Live ys @ map Live zs)" using blk ne by simp
    have B: "blocks ?h1 ?nb = Some ([] @ replicate (length ys) Raw @
                 (Live x # replicate (?n - p) Raw @ replicate m Raw))"
      by (simp add: lys)
    let ?h2 = "set_block ?nb ([] @ map Live ys @ (Live x # replicate (?n - p) Raw @ replicate m Raw))
                      (set_block a ([] @ map Live (transferred T ys) @ map Live zs) ?h1)"
    from Some transfer_n_Done [OF ne A B, of 0 0 T ?h2 "()"] lys nt1
    have t1: "transfer_n T (begin_v v) p (Some ?nb, 0) ?h1 = Done ?h2 ()"
      by (simp add: begin_v_def)
    have A2: "blocks ?h2 a = Some (map Live (transferred T ys) @ map Live zs @ [])"
      using ne by simp
    have B2: "blocks ?h2 ?nb = Some ((map Live ys @ [Live x]) @ replicate (length zs) Raw @
                 replicate m Raw)"
      by (simp add: lzs)
    have i2: "p = length (map Live (transferred T ys))" using lys by (simp add: transferred_def)
    have j2: "Suc p = length (map Live ys @ [Live x])" using lys by simp
    let ?h2' = "set_block ?nb ((map Live ys @ [Live x]) @ map Live zs @ replicate m Raw)
                      (set_block a (map Live (transferred T ys) @ map Live (transferred T zs) @ []) ?h2)"
    from Some transfer_n_Done [OF ne A2 B2 i2 j2, of T ?h2' "()"] lzs nt2
    have t2: "transfer_n T (ptr_add (begin_v v) p) (?n - p) (Some ?nb, Suc p) ?h2 = Done ?h2' ()"
      by (simp add: begin_v_def)
    have C: "blocks ?h2' a = Some ([] @ map Live (transferred T xs) @ [])"
      using ne by (simp add: xs transferred_append)
    have lt: "length (transferred T xs) = ?n" by (simp add: transferred_def)
    from Some destroy_n_live [OF C, of 0 T] lt
    have d: "destroy_n T (begin_v v) ?n ?h2' =
        Done (set_block a ([] @ replicate ?n Raw @ []) ?h2') ()"
      by (simp add: begin_v_def)
    show "\<exists>h' r. unwinding (Some ?nb)
       (and_then
          (try_catch
             (and_then (transfer_n T (begin_v v) p (Some ?nb, 0) ?h1) (\<lambda>h2 _.
                transfer_n T (ptr_add (begin_v v) p) (?n - p) (Some ?nb, Suc p) h2))
             (\<lambda>h2. and_then (destroy_n T (Some ?nb, 0) (Suc ?n) h2) (\<lambda>h3 _. Thrown h3))) (\<lambda>h2 _.
        and_then (destroy_n T (begin_v v) ?n h2) (\<lambda>h3 _.
        and_then (Deallocate (buffer_m (data_m v))
           (h3\<lparr>vectors := (vectors h3)(this \<mapsto> ?v')\<rparr>)) (\<lambda>h5 _.
          Done h5 (Some ?nb, p))))) = Done h' r"
      unfolding t1 and_then_simps t2 try_catch_Done d using Some by (simp add: Deallocate_def)
  qed
qed

lemma Emplace_returns:
  assumes "holds h this xs c" "heap_ok h" "p \<le> length xs"
    "\<forall>y\<in>set xs. \<not> transfer_throws T y \<and> \<not> move_throws T y \<and> \<not> move_assign_throws T y"
    "\<not> move_assign_throws T x"
  shows "\<exists>h' r. Emplace T this p (Some x) h = Done h' r"
proof (cases "length xs < c")
  case spare: True
  show ?thesis
  proof (cases "p = length xs")
    case True
    from holds_vector [OF assms(1)] obtain v where vv: "vectors h this = Some v" ..
    from assms(1) have sz: "size_m v = length xs" by (simp add: holds_Some [OF vv])
    from Emplace_at_end [OF vv, of p T "Some x"] True sz
      EmplaceBack_returns [OF assms(1,2), of T x] spare
    show ?thesis by simp
  next
    case False
    with assms(3) have p: "p < length xs" by simp
    then have xs: "xs \<noteq> []" by auto
    have 1: "\<not> move_throws T (last xs)" using assms(4) last_in_set [OF xs] by blast
    have "set (butlast (drop p xs)) \<subseteq> set xs"
      by (meson in_set_butlastD in_set_dropD subsetI)
    with assms(4) have 2: "\<forall>w\<in>set (butlast (drop p xs)). \<not> move_assign_throws T w" by blast
    from Emplace_inplace_returns [OF assms(1) spare p 1 2 assms(5)] show ?thesis .
  qed
next
  case False
  from assms(4) have "\<forall>x\<in>set xs. \<not> transfer_throws T x" by blast
  from Emplace_full_returns [OF assms(1) False assms(2,3) this] show ?thesis .
qed

lemma append_call_returns:
  assumes "holds h this xs c" "heap_ok h" "constructs T call"
    "\<forall>x\<in>set xs. \<not> transfer_throws T x"
  shows "\<exists>h'. append_call T this call h = Done h' ()"
proof (cases call)
  case (Push_back val)
  with assms(3) obtain x where x: "forwarded T val = Some x" by auto
  from EmplaceBack_returns [OF assms(1,2), of T x] assms(4)
  obtain h' r where "EmplaceBack T this (Some x) h = Done h' r" by blast
  with Push_back x show ?thesis by (simp add: PushBack_def)
next
  case (Emplace_back vals)
  with assms(3) obtain x where x: "vals = Some x" by auto
  from EmplaceBack_returns [OF assms(1,2), of T x] assms(4)
  obtain h' r where "EmplaceBack T this (Some x) h = Done h' r" by blast
  with Emplace_back x show ?thesis by simp
qed

lemma appends_returns:
  "holds h this xs c \<Longrightarrow> heap_ok h \<Longrightarrow> \<forall>call\<in>set calls. constructs T call \<Longrightarrow>
   \<forall>x\<in>set (xs @ concat (map appended calls)). \<not> transfer_throws T x \<Longrightarrow>
   \<exists>h' caps. appends T this calls h = Done h' caps"
proof (induction calls arbitrary: h xs c)
  case Nil
  then show ?case by simp
next
  case (Cons call calls)
  from Cons.prems(3) have k: "constructs T call" by simp
  from Cons.prems(4) have nt: "\<forall>x\<in>set xs. \<not> transfer_throws T x" by simp
  from append_call_returns [OF Cons.prems(1,2) k nt]
  obtain h1 where 1: "append_call T this call h = Done h1 ()" ..
  from append_call_Done [OF Cons.prems(1,2) 1]
  have h1: "holds h1 this (xs @ appended call) (grow c (length xs))" "heap_ok h1"
    by simp_all
  from Cons.prems(3) have ks: "\<forall>call\<in>set calls. constructs T call" by simp
  from Cons.prems(4)
  have nts: "\<forall>x\<in>set ((xs @ appended call) @ concat (map appended calls)).
      \<not> transfer_throws T x" by simp
  from Cons.IH [OF h1 ks nts] obtain h' caps where
    2: "appends T this calls h1 = Done h' caps" by blast
  from holds_Capacity [OF h1(1)] 1 2 show ?case by simp
qed

lemma Vector_copy_returns:
  assumes "holds h v xs c" "owns_alone h v" "\<forall>x\<in>set xs. \<not> copy_throws T x"
  shows "\<exists>h1. Vector_copy T w v h = Done h1 ()"
proof -
  let ?n = "length xs"
  from holds_vector [OF assms(1)] obtain vr where vv: "vectors h v = Some vr" ..
  from assms(1) have v: "size_m vr = ?n" "capacity_m (data_m vr) = c" and le: "?n \<le> c"
    and buf: "\<And>a. buffer_m (data_m vr) = Some a \<Longrightarrow>
       0 < c \<and> blocks h a = Some (map Live xs @ replicate (c - length xs) Raw)"
    and nobuf: "buffer_m (data_m vr) = None \<Longrightarrow> c = 0"
    by (simp_all add: holds_Some [OF vv])
  from assms(2) vv have so: "sole_owner v (buffer_m (data_m vr)) h" by (simp add: owns_alone_def)
  show ?thesis
  proof (cases "?n = 0")
    case True
    with vv v show ?thesis
      by (simp add: Vector_copy_def copy_construct_def Allocate_def uninitialized_copy_n_def)
  next
    case False
    with le have "0 < c" by (cases xs) auto
    with nobuf obtain a where a: "buffer_m (data_m vr) = Some a"
      by (cases "buffer_m (data_m vr)") auto
    from buf [OF a] have blk: "blocks h a = Some (map Live xs @ replicate (c - ?n) Raw)" by simp
    let ?nb = "next_block h"
    let ?h0 = "h\<lparr>blocks := (blocks h)(?nb \<mapsto> replicate ?n Raw), next_block := Suc ?nb\<rparr>"
    have al: "Allocate ?n h = (?h0, Some ?nb)" using False by (intro Allocate_pos) simp
    from so a have ne: "a \<noteq> ?nb" by (auto simp: sole_owner_def)
    have A: "blocks ?h0 a = Some ([] @ map Live xs @ replicate (c - ?n) Raw)"
      using blk ne by simp
    have B: "blocks ?h0 ?nb = Some ([] @ replicate ?n Raw @ [])" by simp
    let ?h2 = "set_block ?nb ([] @ map Live xs @ []) ?h0"
    from uninit_copy_loop_Done [OF ne A B, of 0 0 0 T ?h2 "()"] assms(3)
    have "uninitialized_copy_n T (Some a, 0) ?n (Some ?nb, 0) ?h0 = Done ?h2 ()"
      by (simp add: uninitialized_copy_n_def)
    with vv v al a show ?thesis
      by (simp add: Vector_copy_def copy_construct_def begin_v_def)
  qed
qed

lemma construct_value_Outside [simp]:
  "construct_value T (Outside None) h = Thrown h"
  "construct_value T (Outside (Some x)) h = Done h x"
  by (simp_all add: construct_value_def)

lemma emplace_args_Outside [simp]: "emplace_args T p (Outside values) h = emplace_at p values h"
  by (cases "values") (simp_all add: emplace_args_def emplace_at_def)

lemma EmplaceBack_args_Outside:
  "EmplaceBack_args T this (Outside values) h = EmplaceBack T this values h"
  unfolding EmplaceBack_args_def EmplaceBack_def emplace_args_Outside ..

lemma PushBack_args_Outside:
  "PushBack_args T this (Outside (forwarded T val)) h = PushBack T this val h"
  by (simp add: PushBack_args_def PushBack_def EmplaceBack_args_Outside)

lemma Emplace_args_Outside:
  "Emplace_args T this offset (Outside values) h = Emplace T this offset values h"
  by (cases "values")
     (simp_all add: Emplace_args_def Emplace_def split: option.splits)

lemma construct_value_Thrown: "construct_value T args h = Thrown h1 \<Longrightarrow> h1 = h"
  by (auto simp: construct_value_def split: args.splits option.splits sum.splits cell.splits
        if_splits)

lemma construct_value_Done:
  assumes "construct_value T args h = Done h1 x"
  shows "vectors h1 = vectors h" "next_block h1 = next_block h"
    "dom (blocks h1) = dom (blocks h)"
    "(\<forall>q. args \<noteq> Rvalue_ref q) \<Longrightarrow> h1 = h"
    "args = Rvalue_ref q \<Longrightarrow> load h q = Inr (Live x) \<and> h1 = store q (Live (moved_from T x)) h"
  using assms
  by (auto simp: construct_value_def store_def split: args.splits option.splits sum.splits
        cell.splits if_splits)

lemma construct_value_alloc:
  assumes "heap_ok h" "construct_value T args h = Done h1 x"
  shows "construct_value T args
           (h\<lparr>blocks := (blocks h)(next_block h \<mapsto> cs), next_block := Suc (next_block h)\<rparr>)
         = Done (h1\<lparr>blocks := (blocks h1)(next_block h \<mapsto> cs),
                    next_block := Suc (next_block h)\<rparr>) x"
proof (cases args)
  case (Outside vals)
  with assms(2) show ?thesis by (cases vals) auto
next
  case (Lvalue_ref q)
  with assms show ?thesis
    by (auto simp: construct_value_def load_def heap_ok_def
          split: option.splits sum.splits cell.splits if_splits)
next
  case (Rvalue_ref q)
  with assms show ?thesis
    by (auto simp: construct_value_def load_def store_def heap_ok_def fun_upd_twist
          split: option.splits sum.splits cell.splits if_splits)
qed

lemma construct_value_alloc_Thrown:
  assumes "heap_ok h" "construct_value T args h = Thrown h1"
  shows "construct_value T args
           (h\<lparr>blocks := (blocks h)(next_block h \<mapsto> cs), next_block := Suc (next_block h)\<rparr>)
         = Thrown (h\<lparr>blocks := (blocks h)(next_block h \<mapsto> cs),
                      next_block := Suc (next_block h)\<rparr>)"
proof (cases args)
  case (Outside vals)
  with assms(2) show ?thesis by (cases vals) auto
next
  case (Lvalue_ref q)
  with assms show ?thesis
    by (auto simp: construct_value_def load_def heap_ok_def
          split: option.splits sum.splits cell.splits if_splits)
next
  case (Rvalue_ref q)
  with assms show ?thesis
    by (auto simp: construct_value_def load_def store_def heap_ok_def fun_upd_twist
          split: option.splits sum.splits cell.splits if_splits)
qed

lemma EmplaceBack_args_Done_value:
  assumes "heap_ok h" "construct_value T args h = Done h1 x"
  shows "EmplaceBack_args T this args h = EmplaceBack T this (Some x) h1"
proof (cases "vectors h this")
  case None
  with construct_value_Done(1) [OF assms(2)] show ?thesis
    by (simp add: EmplaceBack_args_def EmplaceBack_def)
next
  case (Some v)
  with construct_value_Done(1) [OF assms(2)] have v1: "vectors h1 this = Some v" by simp
  note nb = construct_value_Done(2) [OF assms(2)]
  show ?thesis
  proof (cases "capacity_m (data_m v) > size_m v")
    case True
    with Some v1 assms(2) show ?thesis
      by (simp add: EmplaceBack_args_def EmplaceBack_def emplace_args_def emplace_at_def)
  next
    case False
    have pos: "0 < max (capacity_m (data_m v) * 2) (Suc (size_m v))" by simp
    note a = Allocate_pos [OF pos, of h] Allocate_pos [OF pos, of h1]
    from False Some v1 show ?thesis
      unfolding EmplaceBack_args_def EmplaceBack_def
      by (simp add: Let_def a nb emplace_args_def emplace_at_def
            construct_value_alloc [OF assms])
  qed
qed

lemma EmplaceBack_args_Thrown_value:
  assumes "heap_ok h" "construct_value T args h = Thrown h1"
  shows "EmplaceBack_args T this args h = EmplaceBack T this None h"
proof (cases "vectors h this")
  case None
  then show ?thesis by (simp add: EmplaceBack_args_def EmplaceBack_def)
next
  case (Some v)
  from construct_value_Thrown [OF assms(2)] assms(2)
  have t: "construct_value T args h = Thrown h" by simp
  show ?thesis
  proof (cases "capacity_m (data_m v) > size_m v")
    case True
    with Some t show ?thesis
      by (simp add: EmplaceBack_args_def EmplaceBack_def emplace_args_def emplace_at_def)
  next
    case False
    have pos: "0 < max (capacity_m (data_m v) * 2) (Suc (size_m v))" by simp
    note a = Allocate_pos [OF pos, of h]
    from False Some show ?thesis
      unfolding EmplaceBack_args_def EmplaceBack_def
      by (simp add: Let_def a emplace_args_def emplace_at_def
            construct_value_alloc_Thrown [OF assms])
  qed
qed

lemma Emplace_args_Done_value:
  assumes "heap_ok h" "construct_value T args h = Done h1 x"
  shows "Emplace_args T this p args h = Emplace T this p (Some x) h1"
proof (cases "vectors h this")
  case None
  with construct_value_Done(1) [OF assms(2)] show ?thesis
    by (simp add: Emplace_args_def Emplace_def)
next
  case (Some v)
  with construct_value_Done(1) [OF assms(2)] have v1: "vectors h1 this = Some v" by simp
  note nb = construct_value_Done(2) [OF assms(2)]
  show ?thesis
  proof (cases "capacity_m (data_m v) > size_m v")
    case True
    with Some v1 assms(2) show ?thesis
      by (simp add: Emplace_args_def Emplace_def emplace_args_def emplace_at_def)
  next
    case False
    have pos: "0 < max (capacity_m (data_m v) * 2) (Suc (size_m v))" by simp
    note a = Allocate_pos [OF pos, of h] Allocate_pos [OF pos, of h1]
    from False Some v1 show ?thesis
      unfolding Emplace_args_def Emplace_def
      by (simp add: Let_def a nb emplace_args_def emplace_at_def
            construct_value_alloc [OF assms])
  qed
qed

lemma Emplace_args_Thrown_value:
  assumes "heap_ok h" "construct_value T args h = Thrown h1"
  shows "Emplace_args T this p args h = Emplace T this p None h"
proof (cases "vectors h this")
  case None
  then show ?thesis by (simp add: Emplace_args_def Emplace_def)
next
  case (Some v)
  from construct_value_Thrown [OF assms(2)] assms(2)
  have t: "construct_value T args h = Thrown h" by simp
  show ?thesis
  proof (cases "capacity_m (data_m v) > size_m v")
    case True
    with Some t show ?thesis
      by (simp add: Emplace_args_def Emplace_def emplace_args_def emplace_at_def)
  next
    case False
    have pos: "0 < max (capacity_m (data_m v) * 2) (Suc (size_m v))" by simp
    note a = Allocate_pos [OF pos, of h]
    from False Some show ?thesis
      unfolding Emplace_args_def Emplace_def
      by (simp add: Let_def a emplace_args_def emplace_at_def
            construct_value_alloc_Thrown [OF assms])
  qed
qed

lemma unwinding_Thrown:
  "blocks h b = Some cs \<Longrightarrow>
   unwinding (Some b) (Thrown h) = Thrown (h\<lparr>blocks := (blocks h)(b := None)\<rparr>)"
  by (simp add: unwinding_def try_catch_def Deallocate_def)

lemma try_catch_Thrown [simp]: "try_catch (Thrown h) f = f h"
  by (simp add: try_catch_def)

lemma EmplaceBack_None:
  assumes "holds h this xs c" "heap_ok h"
  shows "\<exists>h'. EmplaceBack T this None h = Thrown h' \<and> vectors h' = vectors h \<and>
           blocks h' = blocks h \<and> next_block h \<le> next_block h'"
proof -
  from holds_vector [OF assms(1)] obtain v where vv: "vectors h this = Some v" ..
  have fresh: "(blocks h)(next_block h := None) = blocks h"
    using assms(2) by (intro fun_upd_idem) (auto simp: heap_ok_def)
  show ?thesis
  proof (cases "capacity_m (data_m v) > size_m v")
    case True
    with vv show ?thesis by (simp add: EmplaceBack_def emplace_at_def)
  next
    case False
    have pos: "0 < max (capacity_m (data_m v) * 2) (Suc (size_m v))" by simp
    from False vv fresh show ?thesis
      by (simp add: EmplaceBack_def Let_def Allocate_pos [OF pos] emplace_at_def
            unwinding_Thrown)
  qed
qed

lemma Emplace_None:
  assumes "holds h this xs c" "heap_ok h"
  shows "\<exists>h'. Emplace T this p None h = Thrown h' \<and> vectors h' = vectors h \<and>
           blocks h' = blocks h \<and> next_block h \<le> next_block h'"
proof -
  from holds_vector [OF assms(1)] obtain v where vv: "vectors h this = Some v" ..
  have fresh: "(blocks h)(next_block h := None) = blocks h"
    using assms(2) by (intro fun_upd_idem) (auto simp: heap_ok_def)
  show ?thesis
  proof (cases "capacity_m (data_m v) > size_m v")
    case True
    with vv show ?thesis by (simp add: Emplace_def emplace_at_def)
  next
    case False
    have pos: "0 < max (capacity_m (data_m v) * 2) (Suc (size_m v))" by simp
    from False vv fresh show ?thesis
      by (simp add: Emplace_def Let_def Allocate_pos [OF pos] emplace_at_def
            unwinding_Thrown)
  qed
qed

lemma EmplaceBack_copy_throws:
  assumes "holds h this xs c" "heap_ok h" "\<not> length xs < c"
    "copies_on_transfer T" "trivial T" "\<exists>y\<in>set xs. copy_throws T y"
  shows "\<exists>h'. EmplaceBack T this (Some x) h = Thrown h' \<and> vectors h' = vectors h \<and>
           blocks h' = blocks h \<and> next_block h \<le> next_block h'"
proof -
  let ?n = "length xs"
  let ?nb = "next_block h"
  from holds_vector [OF assms(1)] obtain v where vv: "vectors h this = Some v" ..
  from assms(1) have v: "size_m v = ?n" "capacity_m (data_m v) = c" and le: "?n \<le> c"
    and buf: "\<And>a. buffer_m (data_m v) = Some a \<Longrightarrow>
       0 < c \<and> blocks h a = Some (map Live xs @ replicate (c - length xs) Raw)"
    and nobuf: "buffer_m (data_m v) = None \<Longrightarrow> c = 0"
    by (simp_all add: holds_Some [OF vv])
  from le assms(3) have c: "c = ?n" by simp
  from assms(6) have ne: "xs \<noteq> []" by auto
  with c nobuf obtain a where a: "buffer_m (data_m v) = Some a"
    by (cases "buffer_m (data_m v)") auto
  from buf [OF a] c have blk: "blocks h a = Some (map Live xs)" by simp
  with assms(2) have na: "a \<noteq> ?nb" by (auto simp: heap_ok_def)
  define nc where "nc = max (c * 2) (Suc ?n)"
  let ?h0 = "h\<lparr>blocks := (blocks h)(?nb \<mapsto> replicate nc Raw), next_block := Suc ?nb\<rparr>"
  have al: "Allocate nc h = (?h0, Some ?nb)" by (rule Allocate_pos) (simp add: nc_def)
  define m where "m = nc - Suc ?n"
  have m: "nc = ?n + Suc m" by (simp add: m_def nc_def)
  have blk0: "blocks ?h0 ?nb = Some (replicate ?n Raw @ Raw # replicate m Raw)"
    by (simp add: m replicate_add replicate_append_same)
  let ?v' = "v\<lparr>data_m := (data_m v)\<lparr>buffer_m := Some ?nb, capacity_m := nc\<rparr>,
                         size_m := Suc ?n\<rparr>"
  let ?h1 = "set_block ?nb (replicate ?n Raw @ Live x # replicate m Raw) ?h0"
  have e0: "EmplaceBack T this (Some x) h =
       unwinding (Some ?nb)
         (and_then (emplace_at (Some ?nb, ?n) (Some x) ?h0) (\<lambda>h1 _.
          and_then
            (try_catch (transfer_n T (begin_v v) ?n (Some ?nb, 0) h1)
               (\<lambda>h2. and_then (destroy_n T (Some ?nb, 0) (Suc ?n) h2) (\<lambda>h3 _. Thrown h3))) (\<lambda>h2 _.
          and_then (destroy_n T (begin_v v) ?n h2) (\<lambda>h3 _.
          and_then (Deallocate (buffer_m (data_m v))
             (h3\<lparr>vectors := (vectors h3)(this \<mapsto> ?v')\<rparr>)) (\<lambda>h5 _.
            Done h5 (Some ?nb, ?n))))))"
    using vv v c al [unfolded nc_def]
    by (simp add: EmplaceBack_def Let_def RawMemory_Swap_def nc_def)
  have e1: "emplace_at (Some ?nb, ?n) (Some x) ?h0 = Done ?h1 ()"
    by (simp add: emplace_at_def construct_at_block [OF blk0])
  have A: "blocks ?h1 a = Some ([] @ map Live xs @ [])" using blk na by simp
  have B: "blocks ?h1 ?nb = Some ([] @ map Live [] @ replicate ?n Raw @ Live x # replicate m Raw)"
    by simp
  from uninit_copy_loop_Thrown [OF na A B, of 0 0 0 T ?h1] assms(4,6) a
  have t: "transfer_n T (begin_v v) ?n (Some ?nb, 0) ?h1 = Thrown ?h1"
    by (simp add: transfer_n_def copies_on_transfer_def uninitialized_copy_n_def begin_v_def
          set_block_same)
  have B': "blocks ?h1 ?nb = Some ([] @ (replicate ?n Raw @ [Live x]) @ replicate m Raw)"
    by simp
  from destroy_n_trivial [OF assms(5) B', of 0]
  have d: "destroy_n T (Some ?nb, 0) (Suc ?n) ?h1 =
      Done (set_block ?nb ([] @ replicate (Suc ?n) Raw @ replicate m Raw) ?h1) ()"
    by simp
  have "\<exists>h'. EmplaceBack T this (Some x) h = Thrown h'"
    unfolding e0 e1 and_then_simps t try_catch_Thrown d
    by (simp add: unwinding_Thrown)
  then obtain h' where th: "EmplaceBack T this (Some x) h = Thrown h'" ..
  from EmplaceBack_Thrown [OF assms(1,2) disjI1 [OF assms(4)] th] th show ?thesis by blast
qed

lemma Emplace_copy_throws:
  assumes "holds h this xs c" "heap_ok h" "\<not> length xs < c" "p \<le> length xs"
    "copies_on_transfer T" "trivial T" "\<exists>y\<in>set xs. copy_throws T y"
  shows "\<exists>h'. Emplace T this p (Some x) h = Thrown h' \<and> vectors h' = vectors h \<and>
           blocks h' = blocks h \<and> next_block h \<le> next_block h'"
proof -
  let ?n = "length xs"
  let ?nb = "next_block h"
  define nc where "nc = max (c * 2) (Suc ?n)"
  define ys where "ys = take p xs"
  define zs where "zs = drop p xs"
  have xs: "xs = ys @ zs" by (simp add: ys_def zs_def)
  have lys: "length ys = p" using assms(4) by (simp add: ys_def)
  have lzs: "length zs = ?n - p" by (simp add: zs_def)
  from holds_vector [OF assms(1)] obtain v where vv: "vectors h this = Some v" ..
  from assms(1) have v: "size_m v = ?n" "capacity_m (data_m v) = c" and le: "?n \<le> c"
    and buf: "\<And>a. buffer_m (data_m v) = Some a \<Longrightarrow>
       0 < c \<and> blocks h a = Some (map Live xs @ replicate (c - length xs) Raw)"
    and nobuf: "buffer_m (data_m v) = None \<Longrightarrow> c = 0"
    by (simp_all add: holds_Some [OF vv])
  from le assms(3) have c: "c = ?n" by simp
  from assms(7) have ne: "xs \<noteq> []" by auto
  with c nobuf obtain a where a: "buffer_m (data_m v) = Some a"
    by (cases "buffer_m (data_m v)") auto
  from buf [OF a] c have blk: "blocks h a = Some (map Live ys @ map Live zs)"
    by (simp add: xs)
  with assms(2) have na: "a \<noteq> ?nb" by (auto simp: heap_ok_def)
  let ?h0 = "h\<lparr>blocks := (blocks h)(?nb \<mapsto> replicate nc Raw), next_block := Suc ?nb\<rparr>"
  have al: "Allocate nc h = (?h0, Some ?nb)" by (rule Allocate_pos) (simp add: nc_def)
  define m where "m = nc - Suc ?n"
  have m: "nc = p + Suc ((?n - p) + m)" using assms(4) by (simp add: m_def nc_def)
  have blk0: "blocks ?h0 ?nb = Some (replicate p Raw @ Raw # replicate (?n - p) Raw @ replicate m Raw)"
    by (simp add: m replicate_add replicate_append_same)
  let ?v' = "v\<lparr>data_m := (data_m v)\<lparr>buffer_m := Some ?nb, capacity_m := nc\<rparr>,
                         size_m := Suc ?n\<rparr>"
  have np: "\<not> ?n < p" using assms(4) by simp
  have e0: "Emplace T this p (Some x) h =
     unwinding (Some ?nb)
       (and_then (emplace_at (Some ?nb, p) (Some x) ?h0) (\<lambda>h1 _.
        and_then
          (try_catch
             (and_then (transfer_n T (begin_v v) p (Some ?nb, 0) h1) (\<lambda>h2 _.
                transfer_n T (ptr_add (begin_v v) p) (?n - p) (Some ?nb, Suc p) h2))
             (\<lambda>h2. and_then (destroy_n T (Some ?nb, 0) (Suc ?n) h2) (\<lambda>h3 _. Thrown h3))) (\<lambda>h2 _.
        and_then (destroy_n T (begin_v v) ?n h2) (\<lambda>h3 _.
        and_then (Deallocate (buffer_m (data_m v))
           (h3\<lparr>vectors := (vectors h3)(this \<mapsto> ?v')\<rparr>)) (\<lambda>h5 _.
          Done h5 (Some ?nb, p))))))"
    using vv v c al [unfolded nc_def] np
    by (simp add: Emplace_def Let_def RawMemory_Swap_def nc_def)
  let ?h1 = "set_block ?nb (replicate p Raw @ Live x # replicate (?n - p) Raw @ replicate m Raw) ?h0"
  have i0: "p = length (replicate p (Raw :: 'a cell))" by simp
  have e1: "emplace_at (Some ?nb, p) (Some x) ?h0 = Done ?h1 ()"
    by (simp add: emplace_at_def construct_at_block [OF blk0 i0])
  have A: "blocks ?h1 a = Some ([] @ map Live ys @ map Live zs)" using blk na by simp
  have B: "blocks ?h1 ?nb = Some ([] @ map Live [] @ replicate (length ys) Raw @
                 (Live x # replicate (?n - p) Raw @ replicate m Raw))"
    by (simp add: lys)
  have len: "Suc ?n = length (replicate p (Raw :: 'a cell) @ Live x # replicate (?n - p) Raw)"
    using assms(4) by simp
  have "\<exists>h2. and_then (transfer_n T (begin_v v) p (Some ?nb, 0) ?h1) (\<lambda>h2 _.
                transfer_n T (ptr_add (begin_v v) p) (?n - p) (Some ?nb, Suc p) h2) = Thrown h2 \<and>
             (\<exists>cs. length cs = Suc ?n \<and> blocks h2 ?nb = Some ([] @ cs @ replicate m Raw))"
  proof (cases "\<exists>y\<in>set ys. copy_throws T y")
    case True
    from uninit_copy_loop_Thrown [OF na A B, of 0 0 0 T ?h1] assms(5) a True lys
    have "transfer_n T (begin_v v) p (Some ?nb, 0) ?h1 = Thrown ?h1"
      by (simp add: transfer_n_def copies_on_transfer_def uninitialized_copy_n_def begin_v_def
            set_block_same)
    moreover have "blocks ?h1 ?nb = Some ([] @
        (replicate p Raw @ Live x # replicate (?n - p) Raw) @ replicate m Raw)" by simp
    ultimately show ?thesis using len by (intro exI [of _ ?h1]) (simp del: append_assoc)
  next
    case False
    with assms(7) have tz: "\<exists>y\<in>set zs. copy_throws T y" by (auto simp: xs)
    from False assms(5) have nt: "\<forall>y\<in>set ys. \<not> transfer_throws T y"
      by (simp add: transfer_throws_def copies_on_transfer_def)
    have tr: "transferred T ys = ys" using assms(5)
      by (simp add: transferred_def copies_on_transfer_def)
    have B1: "blocks ?h1 ?nb = Some ([] @ replicate (length ys) Raw @
                 (Live x # replicate (?n - p) Raw @ replicate m Raw))"
      by (simp add: lys)
    let ?h2 = "set_block ?nb ([] @ map Live ys @ (Live x # replicate (?n - p) Raw @ replicate m Raw))
                      (set_block a ([] @ map Live (transferred T ys) @ map Live zs) ?h1)"
    from a transfer_n_Done [OF na A B1, of 0 0 T ?h2 "()"] lys nt
    have t1: "transfer_n T (begin_v v) p (Some ?nb, 0) ?h1 = Done ?h2 ()"
      by (simp add: begin_v_def)
    have A2: "blocks ?h2 a = Some (map Live ys @ map Live zs @ [])"
      using na by (simp add: tr)
    have B2: "blocks ?h2 ?nb = Some ((map Live ys @ [Live x]) @ map Live [] @
                 replicate (length zs) Raw @ replicate m Raw)"
      by (simp add: lzs)
    have i2: "p = length (map Live ys)" using lys by simp
    have j2: "Suc p = length (map Live ys @ [Live x])" using lys by simp
    from uninit_copy_loop_Thrown [OF na A2 B2 i2 j2, of 0 T ?h2] assms(5) a tz lzs
    have t2: "transfer_n T (ptr_add (begin_v v) p) (?n - p) (Some ?nb, Suc p) ?h2 = Thrown ?h2"
      by (simp add: transfer_n_def copies_on_transfer_def uninitialized_copy_n_def begin_v_def
            set_block_same)
    have "blocks ?h2 ?nb = Some ([] @
        (map Live ys @ Live x # replicate (?n - p) Raw) @ replicate m Raw)" by simp
    moreover have "length (map Live ys @ Live x # replicate (?n - p) Raw) = Suc ?n"
      using assms(4) lys by simp
    ultimately show ?thesis unfolding t1 and_then_simps t2
      by (intro exI [of _ ?h2]) (simp del: append_assoc)
  qed
  then obtain h2 cs where
    t: "and_then (transfer_n T (begin_v v) p (Some ?nb, 0) ?h1) (\<lambda>h2 _.
                transfer_n T (ptr_add (begin_v v) p) (?n - p) (Some ?nb, Suc p) h2) = Thrown h2"
    and cs: "length cs = Suc ?n" "blocks h2 ?nb = Some ([] @ cs @ replicate m Raw)" by blast
  from destroy_n_trivial [OF assms(6) cs(2), of 0] cs(1)
  have d: "destroy_n T (Some ?nb, 0) (Suc ?n) h2 =
      Done (set_block ?nb ([] @ replicate (Suc ?n) Raw @ replicate m Raw) h2) ()"
    by simp
  have "\<exists>h'. Emplace T this p (Some x) h = Thrown h'"
    unfolding e0 e1 and_then_simps t try_catch_Thrown d
    by (simp add: unwinding_Thrown)
  then obtain h' where th: "Emplace T this p (Some x) h = Thrown h'" ..
  from Emplace_Thrown [OF assms(1,3,2,4) disjI1 [OF assms(5)] th] th show ?thesis by blast
qed

lemma holds_unique:
  assumes "holds h this xs c" "holds h this ys c'"
  shows "ys = xs \<and> c' = c"
proof -
  from holds_vector [OF assms(1)] obtain v where vv: "vectors h this = Some v" ..
  from assms have c: "c' = c" and l: "length ys = length xs"
    by (simp_all add: holds_Some [OF vv])
  show ?thesis
  proof (cases "buffer_m (data_m v)")
    case None
    with assms have "c = 0" by (simp add: holds_Some [OF vv])
    with holds_le [OF assms(1)] l c show ?thesis by simp
  next
    case (Some a)
    from assms(1) Some have "blocks h a = Some (map Live xs @ replicate (c - length xs) Raw)"
      by (simp add: holds_Some [OF vv])
    moreover from assms(2) Some c
    have "blocks h a = Some (map Live ys @ replicate (c - length ys) Raw)"
      by (simp add: holds_Some [OF vv])
    ultimately have "map Live ys @ replicate (c - length ys) Raw
        = map Live xs @ replicate (c - length xs) (Raw :: 'a cell)" by simp
    moreover have "length (map Live ys :: 'a cell list) = length (map Live xs :: 'a cell list)"
      using l by simp
    ultimately have "map Live ys = (map Live xs :: 'a cell list)"
      by (metis append_eq_append_conv)
    then have "ys = xs" by (simp add: inj_map_eq_map inj_def)
    with c show ?thesis by simp
  qed
qed

lemma construct_value_holds:
  assumes "holds h this xs c" "heap_ok h" "construct_value T args h = Done h1 x"
  shows "heap_ok h1 \<and> (\<exists>ys. length ys = length xs \<and> holds h1 this ys c)"
proof -
  note d = construct_value_Done [OF assms(3)]
  from assms(2) d(2,3) have ok: "heap_ok h1" by (simp add: heap_ok_dom)
  from holds_vector [OF assms(1)] obtain v where vv: "vectors h this = Some v" ..
  with d(1) have v1: "vectors h1 this = Some v" by simp
  show ?thesis
  proof (cases "\<exists>q. args = Rvalue_ref q")
    case False
    with d(4) have "h1 = h" by simp
    with assms(1) ok show ?thesis by auto
  next
    case True
    then obtain q where q: "args = Rvalue_ref q" ..
    from d(5) [OF q] have ld: "load h q = Inr (Live x)"
      and h1: "h1 = store q (Live (moved_from T x)) h" by simp_all
    from ld obtain b cs where b: "fst q = Some b" and cs: "blocks h b = Some cs"
      and i: "snd q < length cs" and x: "cs ! snd q = Live x"
      by (auto simp: load_def split: option.splits if_splits)
    have h1': "h1 = set_block b (cs[snd q := Live (moved_from T x)]) h"
      using b cs by (simp add: h1 store_def set_block_def)
    show ?thesis
    proof (cases "buffer_m (data_m v) = Some b")
      case False
      with assms(1) have "holds h1 this xs c"
        unfolding h1' by (auto simp: holds_def vv split: option.splits)
      with ok show ?thesis by auto
    next
      case True
      with assms(1) cs have cs': "cs = map Live xs @ replicate (c - length xs) Raw"
        and le: "length xs \<le> c" and sz: "size_m v = length xs" "capacity_m (data_m v) = c"
        and c: "0 < c"
        by (simp_all add: holds_Some [OF vv])
      from x i have lt: "snd q < length xs"
        by (cases "snd q < length xs") (auto simp: cs' nth_append)
      have "cs[snd q := Live (moved_from T x)]
          = map Live (xs[snd q := moved_from T x]) @ replicate (c - length xs) Raw"
        using lt by (simp add: cs' list_update_append map_update)
      with True sz le c have "holds h1 this (xs[snd q := moved_from T x]) c"
        unfolding h1' by (simp add: holds_def vv)
      with ok show ?thesis by (intro conjI exI [of _ "xs[snd q := moved_from T x]"]) simp_all
    qed
  qed
qed

lemma holds_reallocated:
  assumes "holds h' this ys n" "heap_ok h" "0 < n"
    "vectors h' this = Some v'" "buffer_m (data_m v') = Some (next_block h)"
  shows "reallocated h h' this n"
proof -
  from assms(2) have "blocks h (next_block h) = None" by (auto simp: heap_ok_def)
  moreover from assms(1) have "length ys \<le> n" by (rule holds_le)
  ultimately show ?thesis using assms(1,3,4,5)
    by (simp add: reallocated_def holds_Some [OF assms(4)])
qed

lemma EmplaceBack_reallocates:
  assumes "holds h this xs c" "\<not> length xs < c" "heap_ok h"
    "EmplaceBack T this arg h = Done h' r"
  shows "reallocated h h' this (max (2 * c) (length xs + 1)) \<and>
         Capacity h' this = Some (max (2 * c) (length xs + 1)) \<and>
         (\<exists>x. arg = Some x \<and> holds h' this (xs @ [x]) (max (2 * c) (length xs + 1)))"
proof -
  from EmplaceBack_full [OF assms] obtain x v' where x: "arg = Some x"
    and hh: "holds h' this (xs @ [x]) (max (2 * c) (length xs + 1))"
    and v': "vectors h' this = Some v'" "buffer_m (data_m v') = Some (next_block h)"
    by (auto simp: mult.commute)
  have "0 < max (2 * c) (length xs + 1)" by simp
  from holds_reallocated [OF hh assms(3) this v'] holds_Capacity [OF hh] x hh
  show ?thesis by simp
qed

lemma Emplace_reallocates:
  assumes "holds h this xs c" "\<not> length xs < c" "heap_ok h" "p \<le> length xs"
    "Emplace T this p arg h = Done h' r"
  shows "reallocated h h' this (max (2 * c) (length xs + 1)) \<and>
         Capacity h' this = Some (max (2 * c) (length xs + 1)) \<and>
         (\<exists>x. arg = Some x \<and>
            holds h' this (take p xs @ x # drop p xs) (max (2 * c) (length xs + 1)))"
proof -
  from Emplace_full [OF assms] obtain x v' where x: "arg = Some x"
    and hh: "holds h' this (take p xs @ x # drop p xs) (max (2 * c) (length xs + 1))"
    and v': "vectors h' this = Some v'" "buffer_m (data_m v') = Some (next_block h)"
    by (auto simp: mult.commute)
  have "0 < max (2 * c) (length xs + 1)" by simp
  from holds_reallocated [OF hh assms(3) this v'] holds_Capacity [OF hh] x hh
  show ?thesis by simp
qed

lemma uninit_move_loop_Thrown:
  "a \<noteq> b \<Longrightarrow> blocks h a = Some (spre @ map Live xs @ spost) \<Longrightarrow>
   blocks h b = Some (dpre @ map Live ys @ replicate (length xs) Raw @ dpost) \<Longrightarrow>
   i = length spre \<Longrightarrow> d0 = length dpre \<Longrightarrow> k = length ys \<Longrightarrow>
   uninit_move_loop T (Some a, i) (Some b, d0) k (length xs) h = Thrown h' \<Longrightarrow>
   \<exists>xs'. length xs' = length xs \<and>
     h' = set_block b (dpre @ replicate (length ys + length xs) Raw @ dpost)
            (set_block a (spre @ map Live xs' @ spost) h)"
proof (induction xs arbitrary: spre ys h i k)
  case Nil
  then show ?case by simp
next
  case (Cons x xs)
  show ?case
  proof (cases "move_throws T x")
    case True
    have B: "blocks h b = Some (dpre @ map Live ys @ (replicate (Suc (length xs)) Raw @ dpost))"
      using Cons.prems by simp
    from destroy_n_live [OF B Cons.prems(5), of T] True Cons.prems
    have "h' = set_block b (dpre @ replicate (length ys + length (x # xs)) Raw @ dpost) h"
      by (auto simp: load_block nth_append replicate_add replicate_app_Cons_same)
    moreover have "set_block a (spre @ map Live (x # xs) @ spost) h = h"
      using Cons.prems(2) by (rule set_block_same)
    ultimately show ?thesis by (intro exI [of _ "x # xs"]) simp
  next
    case False
    let ?m = "moved_from T x"
    let ?h0 = "set_block a (spre @ Live ?m # map Live xs @ spost) h"
    let ?h1 = "set_block b (dpre @ map Live ys @ Live x # replicate (length xs) Raw @ dpost) ?h0"
    have s0: "store (Some a, length spre) (Live ?m) h = ?h0"
      using Cons.prems by (simp add: store_block list_update_append)
    have A: "blocks ?h1 a = Some ((spre @ [Live ?m]) @ map Live xs @ spost)"
      using Cons.prems by simp
    have B: "blocks ?h1 b = Some (dpre @ map Live (ys @ [x]) @ replicate (length xs) Raw @ dpost)"
      by simp
    have D: "Suc i = length (spre @ [Live ?m])" using Cons.prems by simp
    have K: "Suc k = length (ys @ [x])" using Cons.prems by simp
    have B0: "blocks ?h0 b = Some ((dpre @ map Live ys) @ Raw # replicate (length xs) Raw @ dpost)"
      using Cons.prems by simp
    have E: "construct_at (Some b, d0 + k) x ?h0 = Done ?h1 ()"
      using construct_at_block [OF B0, of "d0 + k" x] Cons.prems by simp
    from Cons.prems(7) False Cons.prems(2,4)
    have "uninit_move_loop T (Some a, Suc i) (Some b, d0) (Suc k) (length xs) ?h1 = Thrown h'"
      by (simp add: load_block nth_append s0 E)
    from Cons.IH [OF Cons.prems(1) A B D Cons.prems(5) K this] obtain xs' where
      l: "length xs' = length xs"
      and h': "h' = set_block b (dpre @ replicate (length (ys @ [x]) + length xs) Raw @ dpost)
            (set_block a ((spre @ [Live ?m]) @ map Live xs' @ spost) ?h1)" by blast
    have "h' = set_block b (dpre @ replicate (length ys + length (x # xs)) Raw @ dpost)
            (set_block a (spre @ map Live (?m # xs') @ spost) h)"
      unfolding h' using set_block_twice [OF Cons.prems(1)] by simp
    with l show ?thesis by (intro exI [of _ "?m # xs'"]) simp
  qed
qed

lemma transfer_n_Thrown_shape:
  assumes "a \<noteq> b" "blocks h a = Some (spre @ map Live xs @ spost)"
    "blocks h b = Some (dpre @ replicate (length xs) Raw @ dpost)"
    "i = length spre" "d0 = length dpre"
    "transfer_n T (Some a, i) (length xs) (Some b, d0) h = Thrown h'"
  shows "\<exists>xs'. length xs' = length xs \<and> h' = set_block a (spre @ map Live xs' @ spost) h"
proof (cases "copies_on_transfer T")
  case True
  from transfer_n_Thrown [OF assms(1-5) disjI1 [OF True] assms(6)] have "h' = h" by simp
  with set_block_same [OF assms(2)] show ?thesis by (intro exI [of _ xs]) simp
next
  case False
  have B: "blocks h b = Some (dpre @ map Live [] @ replicate (length xs) Raw @ dpost)"
    using assms(3) by simp
  from assms(6) False
  have "uninit_move_loop T (Some a, i) (Some b, d0) 0 (length xs) h = Thrown h'"
    by (simp add: transfer_n_def uninitialized_move_n_def copies_on_transfer_def)
  from uninit_move_loop_Thrown [OF assms(1,2) B assms(4,5) _ this] obtain xs' where
    l: "length xs' = length xs"
    and h': "h' = set_block b (dpre @ replicate (length xs) Raw @ dpost)
            (set_block a (spre @ map Live xs' @ spost) h)" by auto
  have "blocks (set_block a (spre @ map Live xs' @ spost) h) b
      = Some (dpre @ replicate (length xs) Raw @ dpost)" using assms(1,3) by simp
  from set_block_same [OF this] h' l show ?thesis by auto
qed

lemma EmplaceBack_Thrown_holds:
  assumes "holds h this xs c" "heap_ok h" "EmplaceBack T this arg h = Thrown h'"
  shows "\<exists>xs'. length xs' = length xs \<and> holds h' this xs' c \<and> heap_ok h'"
proof -
  let ?n = "length xs"
  let ?nb = "next_block h"
  from holds_vector [OF assms(1)] obtain v where vv: "vectors h this = Some v" ..
  from assms(1) have v: "size_m v = ?n" "capacity_m (data_m v) = c" and le: "?n \<le> c"
    and buf: "\<And>a. buffer_m (data_m v) = Some a \<Longrightarrow>
       0 < c \<and> blocks h a = Some (map Live xs @ replicate (c - length xs) Raw)"
    and nobuf: "buffer_m (data_m v) = None \<Longrightarrow> c = 0"
    by (simp_all add: holds_Some [OF vv])
  show ?thesis
  proof (cases "?n < c")
    case True
    with assms(3) vv v have "h' = h"
      by (auto simp: EmplaceBack_def and_then_Thrown_iff emplace_at_Thrown_iff)
    with assms(1,2) show ?thesis by auto
  next
    case False
    with le have c: "c = ?n" by simp
    define nc where "nc = max (c * 2) (Suc ?n)"
    let ?h0 = "h\<lparr>blocks := (blocks h)(?nb \<mapsto> replicate nc Raw), next_block := Suc ?nb\<rparr>"
    have al: "Allocate nc h = (?h0, Some ?nb)" by (rule Allocate_pos) (simp add: nc_def)
    define m where "m = nc - Suc ?n"
    have m: "nc = ?n + Suc m" by (simp add: m_def nc_def)
    have blk0: "blocks ?h0 ?nb = Some (replicate ?n Raw @ Raw # replicate m Raw)"
      by (simp add: m replicate_add replicate_append_same)
    have fresh: "blocks h ?nb = None" using assms(2) by (auto simp: heap_ok_def)
    let ?v' = "v\<lparr>data_m := (data_m v)\<lparr>buffer_m := Some ?nb, capacity_m := nc\<rparr>,
                         size_m := Suc ?n\<rparr>"
    have eq: "EmplaceBack T this arg h =
       unwinding (Some ?nb)
         (and_then (emplace_at (Some ?nb, ?n) arg ?h0) (\<lambda>h1 _.
          and_then
            (try_catch (transfer_n T (begin_v v) ?n (Some ?nb, 0) h1)
               (\<lambda>h2. and_then (destroy_n T (Some ?nb, 0) (Suc ?n) h2) (\<lambda>h3 _. Thrown h3))) (\<lambda>h2 _.
          and_then (destroy_n T (begin_v v) ?n h2) (\<lambda>h3 _.
          and_then (Deallocate (buffer_m (data_m v))
             (h3\<lparr>vectors := (vectors h3)(this \<mapsto> ?v')\<rparr>)) (\<lambda>h5 _.
            Done h5 (Some ?nb, ?n))))))"
      using vv v c al [unfolded nc_def]
      by (simp add: EmplaceBack_def Let_def RawMemory_Swap_def nc_def)
    let ?h1 = "\<lambda>x. set_block ?nb (replicate ?n Raw @ Live x # replicate m Raw) ?h0"
    from assms(3) [unfolded eq unwinding_Thrown_iff] obtain hx where
      thrown: "and_then (emplace_at (Some ?nb, ?n) arg ?h0) (\<lambda>h1 _.
          and_then
            (try_catch (transfer_n T (begin_v v) ?n (Some ?nb, 0) h1)
               (\<lambda>h2. and_then (destroy_n T (Some ?nb, 0) (Suc ?n) h2) (\<lambda>h3 _. Thrown h3))) (\<lambda>h2 _.
          and_then (destroy_n T (begin_v v) ?n h2) (\<lambda>h3 _.
          and_then (Deallocate (buffer_m (data_m v))
             (h3\<lparr>vectors := (vectors h3)(this \<mapsto> ?v')\<rparr>)) (\<lambda>h5 _.
            Done h5 (Some ?nb, ?n))))) = Thrown hx"
      and de: "Deallocate (Some ?nb) hx = Done h' ()" by blast
    from thrown consider (ctor) "arg = None" "hx = ?h0"
      | (transfer) x h2 where "arg = Some x"
          "transfer_n T (begin_v v) ?n (Some ?nb, 0) (?h1 x) = Thrown h2"
          "destroy_n T (Some ?nb, 0) (Suc ?n) h2 = Done hx ()"
      by (auto simp: and_then_Thrown_iff emplace_at_Thrown_iff emplace_at_Done_iff
            try_catch_Thrown_iff rethrow_Thrown_iff construct_at_block [OF blk0])
    then have "\<exists>xs'. length xs' = ?n \<and> vectors hx = vectors h \<and> next_block hx = Suc ?nb \<and>
        (\<forall>a. a \<noteq> ?nb \<longrightarrow> blocks hx a =
           (if buffer_m (data_m v) = Some a then Some (map Live xs') else blocks h a))"
    proof cases
      case ctor
      with buf c show ?thesis by (intro exI [of _ xs]) auto
    next
      case transfer
      note f = destroy_n_frame [OF transfer(3)]
      show ?thesis
      proof (cases "buffer_m (data_m v)")
        case None
        with nobuf c have "xs = []" by simp
        with transfer(2) have "h2 = ?h1 x" by simp
        with f None show ?thesis by (intro exI [of _ xs]) auto
      next
        case (Some a)
        from buf [OF Some] c have blk: "blocks h a = Some (map Live xs)" by simp
        with assms(2) have ne: "a \<noteq> ?nb" by (auto simp: heap_ok_def)
        have A: "blocks (?h1 x) a = Some ([] @ map Live xs @ [])" using blk ne by simp
        have B: "blocks (?h1 x) ?nb = Some ([] @ replicate ?n Raw @ Live x # replicate m Raw)"
          by simp
        from transfer(2) Some have "transfer_n T (Some a, 0) ?n (Some ?nb, 0) (?h1 x) = Thrown h2"
          by (simp add: begin_v_def)
        from transfer_n_Thrown_shape [OF ne A B _ _ this] obtain xs' where
          l: "length xs' = ?n" and h2: "h2 = set_block a ([] @ map Live xs' @ []) (?h1 x)"
          by auto
        from f l Some show ?thesis by (intro exI [of _ xs']) (auto simp: h2)
      qed
    qed
    then obtain xs' where l: "length xs' = ?n" and vx: "vectors hx = vectors h"
      and nx: "next_block hx = Suc ?nb"
      and bx: "\<And>a. a \<noteq> ?nb \<Longrightarrow> blocks hx a =
           (if buffer_m (data_m v) = Some a then Some (map Live xs') else blocks h a)"
      by blast
    from de have h': "h' = hx\<lparr>blocks := (blocks hx)(?nb := None)\<rparr>"
      by (auto simp: Deallocate_def split: option.splits)
    have nbuf: "buffer_m (data_m v) \<noteq> Some ?nb"
      using buf fresh by (cases "buffer_m (data_m v)") auto
    have "holds h' this xs' c"
      using vv v l c nobuf nbuf bx buf
      by (cases "buffer_m (data_m v)") (auto simp: holds_def h' vx)
    moreover have "heap_ok h'"
      using assms(2) bx nbuf buf unfolding heap_ok_def h'
      by (fastforce simp: nx less_Suc_eq split: if_splits)
    ultimately show ?thesis using l by auto
  qed
qed

lemma append_call_caught:
  assumes "holds h this xs c" "heap_ok h" "caught (append_call T this call h) = Some h1"
  shows "\<exists>ys c1. holds h1 this ys c1 \<and> heap_ok h1 \<and>
           (c1 = c \<and> length xs \<le> length ys \<and> length ys \<le> length xs + 1 \<or>
            \<not> length xs < c \<and> c1 = max (2 * c) (length xs + 1) \<and>
            length ys = length xs + 1)"
proof (cases "append_call T this call h")
  case (Done g u)
  with assms(3) have g: "g = h1" by (simp add: caught_def)
  from append_call_Done [OF assms(1,2) Done [unfolded g]]
  have hh: "holds h1 this (xs @ appended call) (grow c (length xs))" "heap_ok h1"
    and l: "length (appended call) = 1" by simp_all
  show ?thesis
  proof (cases "length xs < c")
    case True
    with hh l show ?thesis
      by (intro exI [of _ "xs @ appended call"] exI [of _ c]) (simp add: grow_def)
  next
    case False
    with hh l show ?thesis
      by (intro exI [of _ "xs @ appended call"] exI [of _ "max (2 * c) (length xs + 1)"])
         (simp add: grow_def mult.commute)
  qed
next
  case (Thrown g)
  with assms(3) have g: "g = h1" by (simp add: caught_def)
  from Thrown obtain arg where "EmplaceBack T this arg h = Thrown h1"
    by (cases call) (auto simp: g PushBack_def and_then_Thrown_iff)
  from EmplaceBack_Thrown_holds [OF assms(1,2) this] obtain ys where
    "length ys = length xs" "holds h1 this ys c" "heap_ok h1" by blast
  then show ?thesis by (intro exI [of _ ys] exI [of _ c]) simp
next
  case (Fault f)
  with assms(3) show ?thesis by (simp add: caught_def)
qed

lemma attempts_Cons:
  assumes "attempts T this (call # calls) h = Some (h', caps)"
  obtains h1 cap caps' where "caught (append_call T this call h) = Some h1"
    "Capacity h1 this = Some cap" "attempts T this calls h1 = Some (h', caps')"
    "caps = cap # caps'"
  using assms by (auto split: option.splits)

lemma attempts_inv:
  "holds h this xs c \<Longrightarrow> heap_ok h \<Longrightarrow> attempts T this calls h = Some (h', caps) \<Longrightarrow>
   r0 = 0 \<or> (2 ^ r0 \<le> 2 * c \<and> c < 2 * length xs) \<Longrightarrow>
   \<exists>ys. holds h' this ys (last (c # caps)) \<and> heap_ok h' \<and> sorted (c # caps) \<and>
     length caps = length calls \<and>
     length xs \<le> length ys \<and> length ys \<le> length xs + length calls \<and>
     (r0 + changes (c # caps) = 0 \<or>
      (2 ^ (r0 + changes (c # caps)) \<le> 2 * last (c # caps) \<and>
       last (c # caps) < 2 * length ys))"
proof (induction calls arbitrary: h xs c caps r0)
  case Nil
  then show ?case by (intro exI [of _ xs]) auto
next
  case (Cons call calls)
  from Cons.prems(3) obtain h1 cap caps' where
    1: "caught (append_call T this call h) = Some h1" and 2: "Capacity h1 this = Some cap"
    and 3: "attempts T this calls h1 = Some (h', caps')" and 4: "caps = cap # caps'"
    by (rule attempts_Cons)
  from append_call_caught [OF Cons.prems(1,2) 1] obtain xs1 c1 where
    hh: "holds h1 this xs1 c1" "heap_ok h1"
    and st: "c1 = c \<and> length xs \<le> length xs1 \<and> length xs1 \<le> length xs + 1 \<or>
            \<not> length xs < c \<and> c1 = max (2 * c) (length xs + 1) \<and>
            length xs1 = length xs + 1" by blast
  from holds_Capacity [OF hh(1)] 2 have cap: "cap = c1" by simp
  have le: "length xs \<le> c" using Cons.prems(1) by (rule holds_le)
  define r1 where "r1 = r0 + (if c \<noteq> cap then 1 else 0)"
  have cc: "c \<le> cap" using st cap by (auto simp: max_def)
  have ll: "length xs \<le> length xs1" "length xs1 \<le> length xs + 1" using st by auto
  have pre: "r1 = 0 \<or> (2 ^ r1 \<le> 2 * cap \<and> cap < 2 * length xs1)"
  proof (cases "c1 = c")
    case True
    with Cons.prems(4) ll cap show ?thesis by (auto simp: r1_def)
  next
    case False
    with st le have c: "c = length xs" and capv: "cap = max (2 * c) (c + 1)"
      and l1: "length xs1 = c + 1" by (auto simp: cap)
    from False cap have ne: "c \<noteq> cap" by simp
    have "(2::nat) ^ (r0 + 1) \<le> 2 * cap"
    proof (cases "r0 = 0")
      case True
      then show ?thesis using capv by (simp add: max_def)
    next
      case False
      with Cons.prems(4) have "(2::nat) ^ r0 \<le> 2 * c" by simp
      then have "(2::nat) ^ (r0 + 1) \<le> 2 * (2 * c)" by simp
      also have "\<dots> \<le> 2 * cap" using capv by (simp add: max_def)
      finally show ?thesis .
    qed
    moreover have "cap < 2 * length xs1" using capv l1 by (simp add: max_def)
    ultimately show ?thesis using ne by (simp add: r1_def)
  qed
  have h1c: "holds h1 this xs1 cap" using hh(1) cap by simp
  from Cons.IH [OF h1c hh(2) 3 pre] obtain ys where
    ys: "holds h' this ys (last (cap # caps'))" "heap_ok h'" "sorted (cap # caps')"
      "length caps' = length calls" "length xs1 \<le> length ys"
      "length ys \<le> length xs1 + length calls"
      "r1 + changes (cap # caps') = 0 \<or>
       (2 ^ (r1 + changes (cap # caps')) \<le> 2 * last (cap # caps') \<and>
        last (cap # caps') < 2 * length ys)" by blast
  from ys cc ll show ?case
    by (intro exI [of _ ys]) (auto simp: 4 r1_def add.assoc)
qed

lemma appends_attempts:
  "appends T this calls h = Done h' caps \<Longrightarrow> attempts T this calls h = Some (h', caps)"
proof (induction calls arbitrary: h caps)
  case Nil
  then show ?case by simp
next
  case (Cons call calls)
  from Cons.prems obtain h1 cap caps' where
    1: "append_call T this call h = Done h1 ()" and 2: "Capacity h1 this = Some cap"
    and 3: "appends T this calls h1 = Done h' caps'" and 4: "caps = cap # caps'"
    by (rule appends_Cons_Done)
  from Cons.IH [OF 3] 1 2 4 show ?case by (simp add: caught_def)
qed

lemma fits_small:
  "0 < size_of T \<Longrightarrow> size_of T \<le> 100 \<Longrightarrow> n \<le> 100 \<Longrightarrow> fits T n"
proof -
  assume 0: "0 < size_of T" and "size_of T \<le> 100" "n \<le> 100"
  then have "n * size_of T \<le> 100 * 100" by (intro mult_le_mono)
  also have "(100 * 100 :: nat) \<le> 2 ^ 64 - 1" by simp
  finally show ?thesis using 0 by (simp add: fits_def SIZE_MAX_def)
qed

section \<open>The claims\<close>

lemmas cell_ops =
  and_then_def try_catch_def unwinding_def load_def store_def ptr_add_def construct_at_def
  emplace_at_def destroy_at_def assign_at_def copy_assign_cell_def move_assign_cell_def
  uninitialized_copy_n_def uninitialized_move_n_def uninitialized_value_construct_n_def
  Allocate_def Deallocate_def RawMemory_Swap_def begin_v_def end_v_def transfer_n_def

text \<open>
  Claim C1 (after an exception from \<^verbatim>\<open>PushBack\<close>, \<^verbatim>\<open>EmplaceBack\<close> or a reallocating
  \<^verbatim>\<open>Emplace\<close> the container has the size, capacity and element values it had before the
  call, for every element type).  Not so in two cases, each as the source is written.
  For a type that cannot be copied and whose move constructor throws, the elements are
  moved into the new block, as the \<^verbatim>\<open>if constexpr\<close> decides, and the ones moved before the
  throw are left moved-from: the full vector \<open>[5, 13]\<close> holds \<open>[0, 13]\<close> after the exception.
  And the new element is constructed from the argument before the transfer, so that an
  element of the vector passed as an rvalue, \<^verbatim>\<open>v.PushBack(std::move(v[0]))\<close>, is moved-from
  when a copy of the transfer throws: again \<open>[5, 13]\<close> has become \<open>[0, 13]\<close>, for a type that is
  transferred by copy.
\<close>

theorem exception_changes_elements:
  "holds full_movable 0 [5, 13] 2 \<and> heap_ok full_movable \<and>
   EmplaceBack Movable_type 0 (Some 7) full_movable =
     Thrown (full_movable\<lparr>blocks := [0 \<mapsto> [Live 0, Live 13]], next_block := 2\<rparr>) \<and>
   PushBack Movable_type 0 (Rvalue 7) full_movable =
     Thrown (full_movable\<lparr>blocks := [0 \<mapsto> [Live 0, Live 13]], next_block := 2\<rparr>) \<and>
   Emplace Movable_type 0 1 (Some 7) full_movable =
     Thrown (full_movable\<lparr>blocks := [0 \<mapsto> [Live 0, Live 13]], next_block := 2\<rparr>) \<and>
   copies_on_transfer Checked_type \<and>
   PushBack_args Checked_type 0 (Rvalue_ref (Some 0, 0)) full_movable =
     Thrown (full_movable\<lparr>blocks := [0 \<mapsto> [Live 0, Live 13]], next_block := 2\<rparr>) \<and>
   holds (full_movable\<lparr>blocks := [0 \<mapsto> [Live 0, Live 13]], next_block := 2\<rparr>) 0 [0, 13] 2"
  by (simp add: holds_def heap_ok_def EmplaceBack_def PushBack_def Emplace_def full_movable_def
        Movable_type_def Checked_type_def copies_on_transfer_def PushBack_args_def
        EmplaceBack_args_def emplace_args_def construct_value_def cell_ops Let_def
        eval_nat_numeral)

text \<open>
  The handler \<^verbatim>\<open>destroy_n(new_data.GetAddress(), size_ + 1)\<close> of \<^verbatim>\<open>EmplaceBack\<close> and of
  \<^verbatim>\<open>Emplace\<close> runs over \<^verbatim>\<open>size_ + 1\<close> cells of the new block although only the new element
  is alive in it when the transfer has thrown.  For a full vector \<open>[13, 5]\<close> of a copyable class with a
  destructor whose copy constructor throws for \<open>13\<close>, a destructor runs on cell \<open>0\<close> of the
  new block, which was never constructed.  What follows says nothing about a transfer
  that throws for a type with a destructor.
\<close>

theorem EmplaceBack_rollback_destroys_raw_cell:
  "holds full_guarded 0 [13, 5] 2 \<and>
   EmplaceBack Guarded_type 0 (Some 7) full_guarded = Fault Destroy_raw \<and>
   PushBack Guarded_type 0 (Rvalue 7) full_guarded = Fault Destroy_raw \<and>
   Emplace Guarded_type 0 1 (Some 7) full_guarded = Fault Destroy_raw"
  by (simp add: holds_def EmplaceBack_def PushBack_def Emplace_def full_guarded_def
        Guarded_type_def cell_ops Let_def eval_nat_numeral)

text \<open>
  Claim C1, as far as the source carries it.  The arguments may refer to an element of a
  vector; \<open>construct_value\<close> is the constructor call of the new element.

  \<^item> When the construction of the new element throws, \<^verbatim>\<open>EmplaceBack\<close>, \<^verbatim>\<open>PushBack\<close> and
    \<^verbatim>\<open>Emplace\<close> (at any position) exit by that exception, for every element type, and the
    vector has the size, capacity and elements it had; every vector object and every block
    of the store is as before, the new block has been released.
  \<^item> When the construction returns, it has changed the store only if the argument is an
    rvalue reference to an object in the store, which is then moved-from; the vector has
    its size and capacity.
  \<^item> When then the vector is full, the type is transferred by copy and trivially
    destructible, and the copy of some element throws, \<^verbatim>\<open>EmplaceBack\<close>, \<^verbatim>\<open>PushBack\<close> and
    the reallocating \<^verbatim>\<open>Emplace\<close> exit by that exception and the vector and the store are
    as the construction of the new element left them.
\<close>

theorem exception_leaves_vector_unchanged:
  assumes "holds h this xs c" and "heap_ok h"
  shows "(construct_value T args h = Thrown h \<longrightarrow>
           (\<exists>h'. EmplaceBack_args T this args h = Thrown h' \<and> holds h' this xs c \<and>
              heap_ok h' \<and> vectors h' = vectors h \<and> blocks h' = blocks h) \<and>
           (\<exists>h'. PushBack_args T this args h = Thrown h' \<and> holds h' this xs c \<and>
              heap_ok h' \<and> vectors h' = vectors h \<and> blocks h' = blocks h) \<and>
           (\<forall>p. \<exists>h'. Emplace_args T this p args h = Thrown h' \<and> holds h' this xs c \<and>
              heap_ok h' \<and> vectors h' = vectors h \<and> blocks h' = blocks h)) \<and>
         (\<forall>h1 x. construct_value T args h = Done h1 x \<longrightarrow>
            heap_ok h1 \<and> (\<exists>ys. length ys = length xs \<and> holds h1 this ys c) \<and>
            ((\<forall>q. args \<noteq> Rvalue_ref q) \<longrightarrow> h1 = h) \<and>
            (\<forall>q. args = Rvalue_ref q \<longrightarrow> h1 = store q (Live (moved_from T x)) h)) \<and>
         (\<forall>h1 x ys. construct_value T args h = Done h1 x \<and> holds h1 this ys c \<and>
              length ys = c \<and> copies_on_transfer T \<and> trivial T \<and>
              (\<exists>y\<in>set ys. copy_throws T y) \<longrightarrow>
            (\<exists>h'. EmplaceBack_args T this args h = Thrown h' \<and> holds h' this ys c \<and>
               heap_ok h' \<and> vectors h' = vectors h1 \<and> blocks h' = blocks h1) \<and>
            (\<exists>h'. PushBack_args T this args h = Thrown h' \<and> holds h' this ys c \<and>
               heap_ok h' \<and> vectors h' = vectors h1 \<and> blocks h' = blocks h1) \<and>
            (\<forall>p\<le>length ys. \<exists>h'. Emplace_args T this p args h = Thrown h' \<and>
               holds h' this ys c \<and> heap_ok h' \<and> vectors h' = vectors h1 \<and>
               blocks h' = blocks h1))"
proof -
  have same: "holds g' this zs c \<and> heap_ok g' \<and> vectors g' = vectors g \<and> blocks g' = blocks g"
    if "holds g this zs c" "heap_ok g" "vectors g' = vectors g" "blocks g' = blocks g"
      "next_block g \<le> next_block g'" for g g' :: "'a heap" and zs
  proof -
    from that(1) have "holds g' this zs c" unfolding holds_def that(3,4) .
    moreover from that(2,5) have "heap_ok g'" by (fastforce simp: heap_ok_def that(4))
    ultimately show ?thesis using that(3,4) by simp
  qed
  have A: "(\<exists>h'. EmplaceBack_args T this args h = Thrown h' \<and> holds h' this xs c \<and>
              heap_ok h' \<and> vectors h' = vectors h \<and> blocks h' = blocks h) \<and>
           (\<exists>h'. PushBack_args T this args h = Thrown h' \<and> holds h' this xs c \<and>
              heap_ok h' \<and> vectors h' = vectors h \<and> blocks h' = blocks h) \<and>
           (\<forall>p. \<exists>h'. Emplace_args T this p args h = Thrown h' \<and> holds h' this xs c \<and>
              heap_ok h' \<and> vectors h' = vectors h \<and> blocks h' = blocks h)"
    if t: "construct_value T args h = Thrown h"
  proof -
    from EmplaceBack_None [OF assms, of T] obtain h' where
      e: "EmplaceBack T this None h = Thrown h'" "vectors h' = vectors h"
        "blocks h' = blocks h" "next_block h \<le> next_block h'" by blast
    have 1: "EmplaceBack_args T this args h = Thrown h'"
      using EmplaceBack_args_Thrown_value [OF assms(2) t, of this] e(1) by simp
    then have 2: "PushBack_args T this args h = Thrown h'" by (simp add: PushBack_args_def)
    have 3: "\<exists>h'. Emplace_args T this p args h = Thrown h' \<and> holds h' this xs c \<and>
              heap_ok h' \<and> vectors h' = vectors h \<and> blocks h' = blocks h" for p
    proof -
      from Emplace_None [OF assms, of T p] obtain g where
        g: "Emplace T this p None h = Thrown g" "vectors g = vectors h"
          "blocks g = blocks h" "next_block h \<le> next_block g" by blast
      from Emplace_args_Thrown_value [OF assms(2) t, of this p] g(1)
      have "Emplace_args T this p args h = Thrown g" by simp
      with same [OF assms g(2,3,4)] show ?thesis by blast
    qed
    from 1 2 3 same [OF assms e(2,3,4)] show ?thesis by blast
  qed
  have B: "heap_ok h1 \<and> (\<exists>ys. length ys = length xs \<and> holds h1 this ys c) \<and>
            ((\<forall>q. args \<noteq> Rvalue_ref q) \<longrightarrow> h1 = h) \<and>
            (\<forall>q. args = Rvalue_ref q \<longrightarrow> h1 = store q (Live (moved_from T x)) h)"
    if d: "construct_value T args h = Done h1 x" for h1 x
    using construct_value_holds [OF assms d] construct_value_Done(4,5) [OF d] by blast
  have C: "(\<exists>h'. EmplaceBack_args T this args h = Thrown h' \<and> holds h' this ys c \<and>
               heap_ok h' \<and> vectors h' = vectors h1 \<and> blocks h' = blocks h1) \<and>
            (\<exists>h'. PushBack_args T this args h = Thrown h' \<and> holds h' this ys c \<and>
               heap_ok h' \<and> vectors h' = vectors h1 \<and> blocks h' = blocks h1) \<and>
            (\<forall>p\<le>length ys. \<exists>h'. Emplace_args T this p args h = Thrown h' \<and>
               holds h' this ys c \<and> heap_ok h' \<and> vectors h' = vectors h1 \<and>
               blocks h' = blocks h1)"
    if d: "construct_value T args h = Done h1 x" and hh: "holds h1 this ys c"
      and full: "length ys = c" and cp: "copies_on_transfer T" and tr: "trivial T"
      and th: "\<exists>y\<in>set ys. copy_throws T y" for h1 x ys
  proof -
    from construct_value_holds [OF assms d] have ok: "heap_ok h1" by simp
    from full have nf: "\<not> length ys < c" by simp
    from EmplaceBack_copy_throws [OF hh ok nf cp tr th, of x] obtain h' where
      e: "EmplaceBack T this (Some x) h1 = Thrown h'" "vectors h' = vectors h1"
        "blocks h' = blocks h1" "next_block h1 \<le> next_block h'" by blast
    have 1: "EmplaceBack_args T this args h = Thrown h'"
      using EmplaceBack_args_Done_value [OF assms(2) d, of this] e(1) by simp
    then have 2: "PushBack_args T this args h = Thrown h'" by (simp add: PushBack_args_def)
    have 3: "\<exists>h'. Emplace_args T this p args h = Thrown h' \<and> holds h' this ys c \<and>
              heap_ok h' \<and> vectors h' = vectors h1 \<and> blocks h' = blocks h1"
      if p: "p \<le> length ys" for p
    proof -
      from Emplace_copy_throws [OF hh ok nf p cp tr th, of x] obtain g where
        g: "Emplace T this p (Some x) h1 = Thrown g" "vectors g = vectors h1"
          "blocks g = blocks h1" "next_block h1 \<le> next_block g" by blast
      from Emplace_args_Done_value [OF assms(2) d, of this p] g(1)
      have "Emplace_args T this p args h = Thrown g" by simp
      with same [OF hh ok g(2,3,4)] show ?thesis by blast
    qed
    from 1 2 3 same [OF hh ok e(2,3,4)] show ?thesis by blast
  qed
  from A B C show ?thesis by blast
qed

theorem exception_leaves_vector_unchanged_witness:
  "holds full_guarded 0 [13, 5] 2 \<and> heap_ok full_guarded \<and> \<not> trivial Guarded_type \<and>
   construct_value Guarded_type (Outside None) full_guarded = Thrown full_guarded \<and>
   (\<exists>h'. EmplaceBack_args Guarded_type 0 (Outside None) full_guarded = Thrown h' \<and>
      holds h' 0 [13, 5] 2 \<and> blocks h' = blocks full_guarded) \<and>
   (\<exists>h'. Emplace_args Guarded_type 0 1 (Outside None) full_guarded = Thrown h' \<and>
      holds h' 0 [13, 5] 2 \<and> blocks h' = blocks full_guarded) \<and>
   holds full_movable 0 [5, 13] 2 \<and> heap_ok full_movable \<and>
   copies_on_transfer Checked_type \<and> trivial Checked_type \<and> copy_throws Checked_type 13 \<and>
   construct_value Checked_type (Rvalue_ref (Some 0, 0)) full_movable =
     Done (full_movable\<lparr>blocks := [0 \<mapsto> [Live 0, Live 13]]\<rparr>) 5 \<and>
   holds (full_movable\<lparr>blocks := [0 \<mapsto> [Live 0, Live 13]]\<rparr>) 0 [0, 13] 2 \<and>
   (\<exists>h'. PushBack_args Checked_type 0 (Rvalue_ref (Some 0, 0)) full_movable = Thrown h' \<and>
      holds h' 0 [0, 13] 2 \<and> blocks h' = [0 \<mapsto> [Live 0, Live 13]]) \<and>
   (\<exists>h'. Emplace_args Checked_type 0 1 (Rvalue_ref (Some 0, 0)) full_movable = Thrown h' \<and>
      holds h' 0 [0, 13] 2 \<and> blocks h' = [0 \<mapsto> [Live 0, Live 13]])"
proof -
  have 1: "holds full_guarded 0 [13, 5] 2" by (simp add: holds_def full_guarded_def)
  have 2: "heap_ok full_guarded" by (simp add: heap_ok_def full_guarded_def)
  have 3: "\<not> trivial Guarded_type" by (simp add: Guarded_type_def)
  have 4: "construct_value Guarded_type (Outside None) full_guarded = Thrown full_guarded"
    by simp
  note a = exception_leaves_vector_unchanged [OF 1 2, of Guarded_type "Outside None",
      THEN conjunct1, THEN mp, OF 4]
  from a [THEN conjunct1]
  have 5: "\<exists>h'. EmplaceBack_args Guarded_type 0 (Outside None) full_guarded = Thrown h' \<and>
      holds h' 0 [13, 5] 2 \<and> blocks h' = blocks full_guarded" by blast
  from a [THEN conjunct2, THEN conjunct2, rule_format, of 1]
  have 6: "\<exists>h'. Emplace_args Guarded_type 0 1 (Outside None) full_guarded = Thrown h' \<and>
      holds h' 0 [13, 5] 2 \<and> blocks h' = blocks full_guarded" by blast
  let ?h1 = "full_movable\<lparr>blocks := [0 \<mapsto> [Live 0, Live 13]]\<rparr>"
  have b1: "holds full_movable 0 [5, 13] 2" by (simp add: holds_def full_movable_def)
  have b2: "heap_ok full_movable" by (simp add: heap_ok_def full_movable_def)
  have b3: "copies_on_transfer Checked_type" "trivial Checked_type" "copy_throws Checked_type 13"
    by (simp_all add: copies_on_transfer_def Checked_type_def)
  have b4: "construct_value Checked_type (Rvalue_ref (Some 0, 0)) full_movable = Done ?h1 5"
    by (simp add: construct_value_def load_def store_def full_movable_def Checked_type_def)
  have b5: "holds ?h1 0 [0, 13] 2" by (simp add: holds_def full_movable_def)
  have b6: "construct_value Checked_type (Rvalue_ref (Some 0, 0)) full_movable = Done ?h1 5 \<and>
      holds ?h1 0 [0, 13] 2 \<and> length [0, 13 :: nat] = 2 \<and> copies_on_transfer Checked_type \<and>
      trivial Checked_type \<and> (\<exists>y\<in>set [0, 13]. copy_throws Checked_type y)"
    using b3 b4 b5 by simp
  note b = exception_leaves_vector_unchanged [OF b1 b2, of Checked_type "Rvalue_ref (Some 0, 0)",
      THEN conjunct2, THEN conjunct2, rule_format, OF b6]
  have bl: "blocks ?h1 = [0 \<mapsto> [Live 0, Live 13]]" by simp
  from b [THEN conjunct2, THEN conjunct1]
  have b7: "\<exists>h'. PushBack_args Checked_type 0 (Rvalue_ref (Some 0, 0)) full_movable = Thrown h' \<and>
      holds h' 0 [0, 13] 2 \<and> blocks h' = [0 \<mapsto> [Live 0, Live 13]]"
    unfolding bl by blast
  have p: "(1::nat) \<le> length [0, 13 :: nat]" by simp
  from b [THEN conjunct2, THEN conjunct2, rule_format, OF p]
  have b8: "\<exists>h'. Emplace_args Checked_type 0 1 (Rvalue_ref (Some 0, 0)) full_movable = Thrown h' \<and>
      holds h' 0 [0, 13] 2 \<and> blocks h' = [0 \<mapsto> [Live 0, Live 13]]"
    unfolding bl by blast
  from 1 2 3 4 5 6 b1 b2 b3 b4 b5 b7 b8 show ?thesis by blast
qed

text \<open>
  Claim C2 (a move leaves the target with the source's elements and the source emptied,
  valid, safe to destroy and to reassign).  The code at a failing input:
  \<^verbatim>\<open>A = {"a", "b", "c"}\<close>, \<^verbatim>\<open>B = {"z"}\<close>.  After \<^verbatim>\<open>B = std::move(A)\<close> the target holds
  \<^verbatim>\<open>A\<close>'s elements, but \<^verbatim>\<open>A\<close> owns the block of capacity \<open>1\<close> with its old size \<open>3\<close>, and
  \<^verbatim>\<open>~Vector\<close> on \<^verbatim>\<open>A\<close> destroys cells beyond the block.  After \<^verbatim>\<open>Vector C(std::move(A))\<close>
  the source has a null buffer and still size \<open>3\<close>; assigning an empty vector to it
  destroys three objects at \<^verbatim>\<open>nullptr\<close>.
\<close>

theorem moved_from_source_not_valid:
  "holds three_vectors 0 [''a'', ''b'', ''c''] 3 \<and> holds three_vectors 1 [''z''] 1 \<and>
   (\<exists>h. move_assign 1 0 three_vectors = Done h () \<and>
      holds h 1 [''a'', ''b'', ''c''] 3 \<and>
      Size h 0 = Some 3 \<and> Capacity h 0 = Some 1 \<and>
      Vector_dtor String_type 0 h = Fault Out_of_bounds) \<and>
   (\<exists>h. Vector_move 3 0 three_vectors = Done h () \<and>
      holds h 3 [''a'', ''b'', ''c''] 3 \<and>
      Size h 0 = Some 3 \<and> Capacity h 0 = Some 0 \<and>
      copy_assign String_type 0 2 h = Fault Null_deref)"
  by (simp add: holds_def move_assign_def Vector_move_def Vector_dtor_def destroy_vector_def
        copy_assign_def Size_def Capacity_def three_vectors_def String_type_def cell_ops Let_def
        eval_nat_numeral)

text \<open>
  Claim C3 (\<open>size \<le> capacity\<close> for every vector an operation leaves behind, the
  moved-from source included).  The code at a failing input: the source \<^verbatim>\<open>A\<close> of size and
  capacity \<open>3\<close> is left with a size above its capacity by the move constructor
  (capacity \<open>0\<close>) and by the move assignment into a vector of capacity \<open>1\<close>.
\<close>

theorem moved_from_size_exceeds_capacity:
  "holds three_vectors 0 [''a'', ''b'', ''c''] 3 \<and>
   (\<exists>h n c. Vector_move 3 0 three_vectors = Done h () \<and>
      Size h 0 = Some n \<and> Capacity h 0 = Some c \<and> c < n) \<and>
   (\<exists>h n c. move_assign 1 0 three_vectors = Done h () \<and>
      Size h 0 = Some n \<and> Capacity h 0 = Some c \<and> c < n)"
  by (simp add: holds_def move_assign_def Vector_move_def Size_def Capacity_def
        three_vectors_def cell_ops Let_def eval_nat_numeral)

text \<open>
  Claim C4 (a vector built from a list of \<open>n\<close> values has \<open>n\<close> constructed elements, the
  listed values in order).  The code at a failing input: \<^verbatim>\<open>std::copy\<close> assigns to the raw
  cells of the new block, so for a class type the assignment operator runs on a cell that
  was never constructed.  For \<^verbatim>\<open>int\<close> the same call yields the listed values.
\<close>

theorem init_list_assigns_to_raw_cells:
  "Vector_init_list String_type 0 [''a'', ''b''] empty_heap = Fault Assign_raw \<and>
   (\<exists>h. Vector_init_list Int_type 0 [2, 4, 6] empty_heap = Done h () \<and> holds h 0 [2, 4, 6] 3)"
  by (simp add: holds_def Vector_init_list_def empty_heap_def String_type_def Int_type_def
        cell_ops Let_def eval_nat_numeral)

lemmas vector_ops =
  EmplaceBack_def PushBack_def Emplace_def Insert_def Erase_def holds_def heap_ok_def
  Size_def Capacity_def cell_ops Let_def eval_nat_numeral

text \<open>
  Claim C5: when \<^verbatim>\<open>EmplaceBack\<close>, \<^verbatim>\<open>PushBack\<close> or \<^verbatim>\<open>Emplace\<close> finds no spare capacity
  (\<^verbatim>\<open>Capacity() > size_\<close> is false) and returns, the vector has a new block of exactly
  \<open>max (2 * c) (size + 1)\<close> cells for the previous capacity \<open>c\<close>, at an address not handed
  out before, with the old elements and the new one in it, and that number is its
  capacity; the call returns whenever the new element is constructed and no transfer of
  an element throws.  Over any run of appends, exceptions caught by the caller included,
  the capacities observed after the calls, the initial one in front, are non-decreasing,
  and the number of reallocations (the places where the capacity changes) is at most
  \<open>\<lceil>log\<^sub>2 n\<rceil> + 1\<close> for the size \<open>n\<close> reached.
\<close>

theorem growth_policy:
  assumes "holds h this xs c" and "heap_ok h"
  shows "(\<not> length xs < c \<longrightarrow>
           (\<forall>arg h' r. EmplaceBack T this arg h = Done h' r \<longrightarrow>
              reallocated h h' this (max (2 * c) (length xs + 1)) \<and>
              Capacity h' this = Some (max (2 * c) (length xs + 1)) \<and>
              (\<exists>x. arg = Some x \<and> holds h' this (xs @ [x]) (max (2 * c) (length xs + 1)))) \<and>
           (\<forall>val h'. PushBack T this val h = Done h' () \<longrightarrow>
              reallocated h h' this (max (2 * c) (length xs + 1)) \<and>
              Capacity h' this = Some (max (2 * c) (length xs + 1)) \<and>
              (\<exists>x. forwarded T val = Some x \<and>
                 holds h' this (xs @ [x]) (max (2 * c) (length xs + 1)))) \<and>
           (\<forall>p arg h' r. p \<le> length xs \<longrightarrow> Emplace T this p arg h = Done h' r \<longrightarrow>
              reallocated h h' this (max (2 * c) (length xs + 1)) \<and>
              Capacity h' this = Some (max (2 * c) (length xs + 1)) \<and>
              (\<exists>x. arg = Some x \<and>
                 holds h' this (take p xs @ x # drop p xs) (max (2 * c) (length xs + 1)))) \<and>
           ((\<forall>y\<in>set xs. \<not> transfer_throws T y) \<longrightarrow>
              (\<forall>x. \<exists>h' r. EmplaceBack T this (Some x) h = Done h' r) \<and>
              (\<forall>val. forwarded T val \<noteq> None \<longrightarrow> (\<exists>h'. PushBack T this val h = Done h' ())) \<and>
              (\<forall>p x. p \<le> length xs \<longrightarrow> (\<exists>h' r. Emplace T this p (Some x) h = Done h' r)))) \<and>
         (\<forall>calls h' caps. attempts T this calls h = Some (h', caps) \<longrightarrow>
            sorted (c # caps) \<and>
            (\<exists>ys. holds h' this ys (last (c # caps)) \<and>
               changes (c # caps) \<le> ceillog2 (length ys) + 1)) \<and>
         (\<forall>calls h' caps. appends T this calls h = Done h' caps \<longrightarrow>
            attempts T this calls h = Some (h', caps) \<and>
            Size h' this = Some (length xs + length calls) \<and>
            changes (c # caps) \<le> ceillog2 (length xs + length calls) + 1)"
proof (intro conjI impI allI)
  fix arg h' r
  assume full: "\<not> length xs < c" and d: "EmplaceBack T this arg h = Done h' r"
  note e = EmplaceBack_reallocates [OF assms(1) full assms(2) d]
  from e show "reallocated h h' this (max (2 * c) (length xs + 1))" by simp
  from e show "Capacity h' this = Some (max (2 * c) (length xs + 1))" by simp
  from e show "\<exists>x. arg = Some x \<and> holds h' this (xs @ [x]) (max (2 * c) (length xs + 1))"
    by simp
next
  fix val h'
  assume full: "\<not> length xs < c" and d: "PushBack T this val h = Done h' ()"
  then obtain r where "EmplaceBack T this (forwarded T val) h = Done h' r"
    by (auto simp: PushBack_def and_then_Done_iff)
  note e = EmplaceBack_reallocates [OF assms(1) full assms(2) this]
  from e show "reallocated h h' this (max (2 * c) (length xs + 1))" by simp
  from e show "Capacity h' this = Some (max (2 * c) (length xs + 1))" by simp
  from e show "\<exists>x. forwarded T val = Some x \<and>
      holds h' this (xs @ [x]) (max (2 * c) (length xs + 1))" by simp
next
  fix p arg h' r
  assume full: "\<not> length xs < c" and p: "p \<le> length xs"
    and d: "Emplace T this p arg h = Done h' r"
  note e = Emplace_reallocates [OF assms(1) full assms(2) p d]
  from e show "reallocated h h' this (max (2 * c) (length xs + 1))" by simp
  from e show "Capacity h' this = Some (max (2 * c) (length xs + 1))" by simp
  from e show "\<exists>x. arg = Some x \<and>
      holds h' this (take p xs @ x # drop p xs) (max (2 * c) (length xs + 1))" by simp
next
  fix x
  assume "\<forall>y\<in>set xs. \<not> transfer_throws T y"
  then have "length xs < c \<or> (\<forall>y\<in>set xs. \<not> transfer_throws T y)" by simp
  with assms show "\<exists>h' r. EmplaceBack T this (Some x) h = Done h' r"
    by (rule EmplaceBack_returns)
next
  fix val
  assume nt: "\<forall>y\<in>set xs. \<not> transfer_throws T y" and "forwarded T val \<noteq> None"
  then obtain x where x: "forwarded T val = Some x" by auto
  from nt have "length xs < c \<or> (\<forall>y\<in>set xs. \<not> transfer_throws T y)" by simp
  from EmplaceBack_returns [OF assms this, of x] x
  show "\<exists>h'. PushBack T this val h = Done h' ()" by (auto simp: PushBack_def)
next
  fix p x
  assume full: "\<not> length xs < c" and nt: "\<forall>y\<in>set xs. \<not> transfer_throws T y"
    and p: "p \<le> length xs"
  from Emplace_full_returns [OF assms(1) full assms(2) p nt]
  show "\<exists>h' r. Emplace T this p (Some x) h = Done h' r" .
next
  fix calls h' caps
  assume d: "attempts T this calls h = Some (h', caps)"
  from attempts_inv [OF assms d, of 0] obtain ys where
    ys: "holds h' this ys (last (c # caps))" "sorted (c # caps)"
      "0 + changes (c # caps) = 0 \<or>
        (2 ^ (0 + changes (c # caps)) \<le> 2 * last (c # caps) \<and>
         last (c # caps) < 2 * length ys)" by auto
  from ys(2) show "sorted (c # caps)" .
  from ys(3) have "changes (c # caps) \<le> ceillog2 (length ys) + 1"
    by (intro changes_log) simp
  with ys(1) show "\<exists>ys. holds h' this ys (last (c # caps)) \<and>
      changes (c # caps) \<le> ceillog2 (length ys) + 1" by blast
next
  fix calls h' caps
  assume d: "appends T this calls h = Done h' caps"
  from d show "attempts T this calls h = Some (h', caps)" by (rule appends_attempts)
  from appends_Done [OF assms d]
  have 1: "holds h' this (xs @ concat (map appended calls)) (last (c # caps))"
    and 2: "length (concat (map appended calls)) = length calls" by simp_all
  from holds_Size [OF 1] 2 show "Size h' this = Some (length xs + length calls)" by simp
  from appends_changes [OF assms d, of 0]
  show "changes (c # caps) \<le> ceillog2 (length xs + length calls) + 1"
    by (intro changes_log) simp
qed

theorem growth_policy_witness:
  "holds empty_vector 0 ([] :: string list) 0 \<and> heap_ok (empty_vector :: string heap) \<and>
   \<not> length ([] :: string list) < 0 \<and>
   (\<exists>h' r. EmplaceBack String_type 0 (Some ''a'') empty_vector = Done h' r \<and>
      reallocated empty_vector h' 0 1 \<and> holds h' 0 [''a''] 1) \<and>
   holds (ints_246 3) 0 [2, 4, 6] 3 \<and> heap_ok (ints_246 3) \<and>
   \<not> length [2, 4, 6 :: int] < 3 \<and> (1::nat) \<le> length [2, 4, 6 :: int] \<and>
   list_all (\<lambda>y. \<not> transfer_throws Int_type y) [2, 4, 6] \<and>
   (\<exists>h' r. Emplace Int_type 0 1 (Some 9) (ints_246 3) = Done h' r \<and>
      reallocated (ints_246 3) h' 0 6 \<and> Capacity h' 0 = Some 6 \<and>
      holds h' 0 [2, 9, 4, 6] 6) \<and>
   holds empty_vector 0 ([] :: nat list) 0 \<and> heap_ok (empty_vector :: nat heap) \<and>
   (\<exists>h' ys. attempts Checked_type 0
        [Push_back (Lvalue 1), Push_back (Lvalue 13), Push_back (Lvalue 2), Emplace_back (Some 3)]
        empty_vector = Some (h', [1, 1, 2, 4]) \<and>
      sorted [0, 1, 1, 2, 4 :: nat] \<and> holds h' 0 ys 4 \<and>
      changes [0, 1, 1, 2, 4] \<le> ceillog2 (length ys) + 1) \<and>
   (\<exists>h'. appends String_type 0
        [Push_back (Lvalue ''a''), Emplace_back (Some ''b''), Push_back (Rvalue ''c'')]
        empty_vector = Done h' [1, 2, 4] \<and>
      Size h' 0 = Some 3 \<and> changes [0, 1, 2, 4] \<le> ceillog2 3 + 1)"
proof -
  let ?h = "empty_vector :: string heap"
  let ?calls = "[Push_back (Lvalue ''a''), Emplace_back (Some ''b''), Push_back (Rvalue ''c'')]"
  have 1: "holds ?h 0 [] 0" by (simp add: holds_def empty_vector_def)
  have 2: "heap_ok ?h" by (simp add: heap_ok_def empty_vector_def)
  have full: "\<not> length ([] :: string list) < 0" by simp
  note g = growth_policy [OF 1 2, of String_type]
  have nt0: "\<forall>y\<in>set ([] :: string list). \<not> transfer_throws String_type y" by simp
  from g [THEN conjunct1, THEN mp, OF full, THEN conjunct2, THEN conjunct2, THEN conjunct2,
      THEN mp, OF nt0, THEN conjunct1, rule_format, of "''a''"]
  obtain h1 r where 3: "EmplaceBack String_type 0 (Some ''a'') ?h = Done h1 r" by blast
  from g [THEN conjunct1, THEN mp, OF full, THEN conjunct1, rule_format, OF 3]
  have 5: "reallocated ?h h1 0 1 \<and> holds h1 0 [''a''] 1" by simp
  have "\<exists>h'. appends String_type 0 ?calls ?h = Done h' [1, 2, 4]"
    by (simp add: vector_ops empty_vector_def String_type_def)
  then obtain h2 where 4: "appends String_type 0 ?calls ?h = Done h2 [1, 2, 4]" by blast
  have len: "length ([] :: string list) + length ?calls = 3" by simp
  from g [THEN conjunct2, THEN conjunct2, rule_format, OF 4]
  have 6: "Size h2 0 = Some 3 \<and> changes (0 # [1, 2, 4]) \<le> ceillog2 3 + 1"
    unfolding len by simp
  have a1: "holds (ints_246 3) 0 [2, 4, 6] 3" by (simp add: holds_def ints_246_def)
  have a2: "heap_ok (ints_246 3)" by (simp add: heap_ok_def ints_246_def)
  have a3: "\<not> length [2, 4, 6 :: int] < 3" "(1::nat) \<le> length [2, 4, 6 :: int]" by simp_all
  have a4: "\<forall>y\<in>set [2, 4, 6]. \<not> transfer_throws Int_type y"
    by (simp add: transfer_throws_def Int_type_def)
  have a4': "list_all (\<lambda>y. \<not> transfer_throws Int_type y) [2, 4, 6]"
    by (simp add: transfer_throws_def Int_type_def)
  note e = growth_policy [OF a1 a2, of Int_type, THEN conjunct1, THEN mp, OF a3(1)]
  from e [THEN conjunct2, THEN conjunct2, THEN conjunct2, THEN mp, OF a4, THEN conjunct2,
      THEN conjunct2, rule_format, OF a3(2), of 9]
  obtain h3 r3 where a5: "Emplace Int_type 0 1 (Some 9) (ints_246 3) = Done h3 r3" by blast
  from e [THEN conjunct2, THEN conjunct2, THEN conjunct1, rule_format, OF a3(2) a5]
  have a6: "reallocated (ints_246 3) h3 0 6 \<and> Capacity h3 0 = Some 6 \<and>
      holds h3 0 [2, 9, 4, 6] 6" by simp
  let ?g = "empty_vector :: nat heap"
  let ?tries = "[Push_back (Lvalue 1), Push_back (Lvalue 13), Push_back (Lvalue 2),
      Emplace_back (Some (3::nat))]"
  have b1: "holds ?g 0 [] 0" by (simp add: holds_def empty_vector_def)
  have b2: "heap_ok ?g" by (simp add: heap_ok_def empty_vector_def)
  have "\<exists>h'. attempts Checked_type 0 ?tries ?g = Some (h', [1, 1, 2, 4])"
    by (simp add: vector_ops caught_def empty_vector_def Checked_type_def)
  then obtain h4 where b3: "attempts Checked_type 0 ?tries ?g = Some (h4, [1, 1, 2, 4])" ..
  from growth_policy [OF b1 b2, of Checked_type, THEN conjunct2, THEN conjunct1, rule_format,
      OF b3]
  have b4: "sorted [0, 1, 1, 2, 4 :: nat] \<and>
      (\<exists>ys. holds h4 0 ys 4 \<and> changes [0, 1, 1, 2, 4] \<le> ceillog2 (length ys) + 1)"
    by simp
  from 1 2 full 3 5 4 6 a1 a2 a3 a4' a5 a6 b1 b2 b3 b4 show ?thesis by blast
qed

text \<open>
  Claim C6: after a run of \<^verbatim>\<open>PushBack\<close> and \<^verbatim>\<open>EmplaceBack\<close> calls that all return, the
  vector holds its initial elements followed by the appended values in call order, every
  call has appended one element, and the size is the initial size plus the number of calls.
  The run returns whenever the construction of no new element throws and no transfer of
  an element into a new block throws.
\<close>

theorem appends_in_call_order:
  assumes "holds h this xs c" and "heap_ok h"
  shows "(\<forall>h' caps. appends T this calls h = Done h' caps \<longrightarrow>
            holds h' this (xs @ concat (map appended calls)) (last (c # caps)) \<and>
            length (concat (map appended calls)) = length calls \<and>
            Size h' this = Some (length xs + length calls)) \<and>
         ((\<forall>call\<in>set calls. constructs T call) \<and>
          (\<forall>x\<in>set (xs @ concat (map appended calls)). \<not> transfer_throws T x) \<longrightarrow>
            (\<exists>h' caps. appends T this calls h = Done h' caps))"
proof (intro conjI impI allI)
  fix h' caps
  assume d: "appends T this calls h = Done h' caps"
  from appends_Done [OF assms d]
  have 1: "holds h' this (xs @ concat (map appended calls)) (last (c # caps))"
    and 2: "length (concat (map appended calls)) = length calls" by simp_all
  from 1 show "holds h' this (xs @ concat (map appended calls)) (last (c # caps))" .
  from 2 show "length (concat (map appended calls)) = length calls" .
  from holds_Size [OF 1] 2 show "Size h' this = Some (length xs + length calls)" by simp
next
  assume "(\<forall>call\<in>set calls. constructs T call) \<and>
          (\<forall>x\<in>set (xs @ concat (map appended calls)). \<not> transfer_throws T x)"
  then have "\<forall>call\<in>set calls. constructs T call"
    and "\<forall>x\<in>set (xs @ concat (map appended calls)). \<not> transfer_throws T x" by blast+
  with assms show "\<exists>h' caps. appends T this calls h = Done h' caps"
    by (rule appends_returns)
qed

theorem appends_in_call_order_witness:
  "holds (ints_246 3) 0 [2, 4, 6] 3 \<and> heap_ok (ints_246 3) \<and>
   list_all (constructs Int_type) [Push_back (Lvalue 8), Emplace_back (Some 10)] \<and>
   list_all (\<lambda>x. \<not> transfer_throws Int_type x) [2, 4, 6, 8, 10] \<and>
   (\<exists>h' caps. appends Int_type 0 [Push_back (Lvalue 8), Emplace_back (Some 10)] (ints_246 3)
        = Done h' caps \<and>
      holds h' 0 [2, 4, 6, 8, 10] 6 \<and> Size h' 0 = Some 5)"
proof -
  let ?calls = "[Push_back (Lvalue 8), Emplace_back (Some (10::int))]"
  have 1: "holds (ints_246 3) 0 [2, 4, 6] 3" by (simp add: holds_def ints_246_def)
  have 2: "heap_ok (ints_246 3)" by (simp add: heap_ok_def ints_246_def)
  have 3: "list_all (constructs Int_type) ?calls" by (simp add: Int_type_def)
  have 4: "list_all (\<lambda>x. \<not> transfer_throws Int_type x) [2, 4, 6, 8, 10]"
    by (simp add: transfer_throws_def Int_type_def)
  have 5: "(\<forall>call\<in>set ?calls. constructs Int_type call) \<and>
      (\<forall>x\<in>set ([2, 4, 6] @ concat (map appended ?calls)). \<not> transfer_throws Int_type x)"
    by (simp add: transfer_throws_def Int_type_def)
  note a = appends_in_call_order [OF 1 2, of Int_type ?calls]
  from a [THEN conjunct2, THEN mp, OF 5] obtain h' caps where
    6: "appends Int_type 0 ?calls (ints_246 3) = Done h' caps" by blast
  have "\<exists>h'. appends Int_type 0 ?calls (ints_246 3) = Done h' [6, 6]"
    by (simp add: vector_ops ints_246_def Int_type_def)
  with 6 have caps: "caps = [6, 6]" by auto
  from a [THEN conjunct1, rule_format, OF 6]
  have 7: "holds h' 0 [2, 4, 6, 8, 10] 6 \<and> Size h' 0 = Some 5" by (simp add: caps)
  from 1 2 3 4 6 7 show ?thesis by blast
qed

text \<open>
  Claim C7: an \<^verbatim>\<open>Emplace\<close> (and so an \<^verbatim>\<open>Insert\<close>) at an offset \<open>p \<le> size\<close> that returns
  has constructed the new element at logical position \<open>p\<close>, with the elements before and
  behind it in their old order; the iterator returned is \<^verbatim>\<open>begin() + p\<close> of the vector as
  it is afterwards and points to the new element; at \<open>p = size\<close> the call is
  \<^verbatim>\<open>EmplaceBack\<close> (for \<^verbatim>\<open>Insert\<close>: \<^verbatim>\<open>PushBack\<close>), outcome for outcome.  The call returns
  whenever the new element \<open>x\<close> is constructed and no constructor call on an element and no
  move assignment of an element or of \<open>x\<close> throws.
\<close>

theorem Emplace_places_at_position:
  assumes "holds h this xs c" and "heap_ok h" and "p \<le> length xs"
  shows "(\<forall>arg h' r. Emplace T this p arg h = Done h' r \<longrightarrow>
           (\<exists>x v'. arg = Some x \<and>
              holds h' this (take p xs @ x # drop p xs) (grow c (length xs)) \<and>
              at_index h' this p = Inr x \<and>
              vectors h' this = Some v' \<and> r = ptr_add (begin_v v') p \<and>
              load h' r = Inr (Live x))) \<and>
         (\<forall>val. Insert T this p val h = Emplace T this p (forwarded T val) h) \<and>
         (p = length xs \<longrightarrow>
            (\<forall>arg. Emplace T this p arg h = EmplaceBack T this arg h) \<and>
            (\<forall>val. and_then (Insert T this p val h) (\<lambda>h' _. Done h' ())
                     = PushBack T this val h)) \<and>
         (\<forall>x. (\<forall>y\<in>set xs. \<not> transfer_throws T y \<and> \<not> move_throws T y \<and>
                   \<not> move_assign_throws T y) \<and> \<not> move_assign_throws T x \<longrightarrow>
            (\<exists>h' r. Emplace T this p (Some x) h = Done h' r))"
proof (intro conjI impI allI)
  fix arg h' r
  assume d: "Emplace T this p arg h = Done h' r"
  from Emplace_Done [OF assms d] obtain x v' where x: "arg = Some x"
    and hh: "holds h' this (take p xs @ x # drop p xs) (grow c (length xs))"
    and v': "vectors h' this = Some v'" and r: "r = (buffer_m (data_m v'), p)" by blast
  have p: "p < length (take p xs @ x # drop p xs)" using assms(3) by simp
  have nth: "(take p xs @ x # drop p xs) ! p = x" using assms(3) by (simp add: nth_append)
  from holds_at_index [OF hh p] holds_load [OF hh p v'] nth x hh v' r
  show "\<exists>x v'. arg = Some x \<and>
              holds h' this (take p xs @ x # drop p xs) (grow c (length xs)) \<and>
              at_index h' this p = Inr x \<and>
              vectors h' this = Some v' \<and> r = ptr_add (begin_v v') p \<and>
              load h' r = Inr (Live x)"
    by (simp add: begin_v_def)
next
  fix val
  show "Insert T this p val h = Emplace T this p (forwarded T val) h"
    by (simp add: Insert_def)
next
  fix arg
  assume p: "p = length xs"
  from holds_vector [OF assms(1)] obtain v where vv: "vectors h this = Some v" ..
  from assms(1) have sz: "size_m v = length xs" by (simp add: holds_Some [OF vv])
  from Emplace_at_end [OF vv, of p T arg] p sz
  show "Emplace T this p arg h = EmplaceBack T this arg h" by simp
next
  fix val
  assume p: "p = length xs"
  from holds_vector [OF assms(1)] obtain v where vv: "vectors h this = Some v" ..
  from assms(1) have sz: "size_m v = length xs" by (simp add: holds_Some [OF vv])
  from Emplace_at_end [OF vv, of p T "forwarded T val"] p sz
  show "and_then (Insert T this p val h) (\<lambda>h' _. Done h' ()) = PushBack T this val h"
    by (simp add: Insert_def PushBack_def)
next
  fix x
  assume "(\<forall>y\<in>set xs. \<not> transfer_throws T y \<and> \<not> move_throws T y \<and>
             \<not> move_assign_throws T y) \<and> \<not> move_assign_throws T x"
  then have "\<forall>y\<in>set xs. \<not> transfer_throws T y \<and> \<not> move_throws T y \<and>
             \<not> move_assign_throws T y" and "\<not> move_assign_throws T x" by blast+
  with assms show "\<exists>h' r. Emplace T this p (Some x) h = Done h' r"
    by (rule Emplace_returns)
qed

theorem Emplace_places_at_position_witness:
  "holds (ints_246 4) 0 [2, 4, 6] 4 \<and> heap_ok (ints_246 4) \<and> (0::nat) \<le> length [2, 4, 6 :: int] \<and>
   (\<exists>h' r. Insert Int_type 0 0 (Lvalue 1) (ints_246 4) = Done h' r \<and>
      holds h' 0 [1, 2, 4, 6] 4 \<and> load h' r = Inr (Live 1)) \<and>
   holds (ints_246 3) 0 [2, 4, 6] 3 \<and> heap_ok (ints_246 3) \<and> (3::nat) = length [2, 4, 6 :: int] \<and>
   (\<exists>h' r. Insert Int_type 0 3 (Lvalue 8) (ints_246 3) = Done h' r \<and>
      holds h' 0 [2, 4, 6, 8] 6 \<and> load h' r = Inr (Live 8) \<and>
      PushBack Int_type 0 (Lvalue 8) (ints_246 3) = Done h' ())"
proof -
  have 1: "holds (ints_246 4) 0 [2, 4, 6] 4" by (simp add: holds_def ints_246_def)
  have 2: "heap_ok (ints_246 4)" by (simp add: heap_ok_def ints_246_def)
  have 3: "(0::nat) \<le> length [2, 4, 6 :: int]" by simp
  note a = Emplace_places_at_position [OF 1 2 3, of Int_type]
  have nt: "(\<forall>y\<in>set [2, 4, 6]. \<not> transfer_throws Int_type y \<and> \<not> move_throws Int_type y \<and>
       \<not> move_assign_throws Int_type y) \<and> \<not> move_assign_throws Int_type x" for x
    by (simp add: transfer_throws_def Int_type_def)
  have fw: "forwarded Int_type (Lvalue x) = Some x" for x by (simp add: Int_type_def)
  from a [THEN conjunct2, THEN conjunct2, THEN conjunct2, rule_format, OF nt, of 1]
  obtain h1 r1 where
    4: "Emplace Int_type 0 0 (forwarded Int_type (Lvalue 1)) (ints_246 4) = Done h1 r1"
    unfolding fw by blast
  from a [THEN conjunct1, rule_format, OF 4]
  have 5: "holds h1 0 [1, 2, 4, 6] 4 \<and> load h1 r1 = Inr (Live 1)"
    by (auto simp: grow_def Int_type_def)
  from a [THEN conjunct2, THEN conjunct1, rule_format, of "Lvalue 1"] 4
  have 6: "Insert Int_type 0 0 (Lvalue 1) (ints_246 4) = Done h1 r1" by simp
  have b1: "holds (ints_246 3) 0 [2, 4, 6] 3" by (simp add: holds_def ints_246_def)
  have b2: "heap_ok (ints_246 3)" by (simp add: heap_ok_def ints_246_def)
  have b3: "(3::nat) \<le> length [2, 4, 6 :: int]" by simp
  have e3: "(3::nat) = length [2, 4, 6 :: int]" by simp
  note b = Emplace_places_at_position [OF b1 b2 b3, of Int_type]
  from b [THEN conjunct2, THEN conjunct2, THEN conjunct2, rule_format, OF nt, of 8]
  obtain h2 r2 where
    b4: "Emplace Int_type 0 3 (forwarded Int_type (Lvalue 8)) (ints_246 3) = Done h2 r2"
    unfolding fw by blast
  from b [THEN conjunct1, rule_format, OF b4]
  have b5: "holds h2 0 [2, 4, 6, 8] 6 \<and> load h2 r2 = Inr (Live 8)"
    by (auto simp: grow_def Int_type_def)
  from b [THEN conjunct2, THEN conjunct1, rule_format, of "Lvalue 8"] b4
  have b6: "Insert Int_type 0 3 (Lvalue 8) (ints_246 3) = Done h2 r2" by simp
  from b [THEN conjunct2, THEN conjunct2, THEN conjunct1, THEN mp, OF e3, THEN conjunct2,
          rule_format, of "Lvalue 8"] b6
  have b7: "PushBack Int_type 0 (Lvalue 8) (ints_246 3) = Done h2 ()" by simp
  from 1 2 3 5 6 b1 b2 e3 b5 b6 b7 show ?thesis by blast
qed

text \<open>
  Claim C8: an \<^verbatim>\<open>Erase\<close> at an offset \<open>p < size\<close> that returns has removed exactly the
  element at \<open>p\<close>: the elements behind it have moved one slot to the left in their order,
  the last slot is raw storage again, the size is one less and the capacity is unchanged;
  the iterator returned is \<^verbatim>\<open>begin() + p\<close>.  The call returns whenever no move assignment
  of an element behind \<open>p\<close> throws.
\<close>

theorem Erase_removes_position:
  assumes "holds h this xs c" and "p < length xs"
  shows "(\<forall>h' r. Erase T this p h = Done h' r \<longrightarrow>
           holds h' this (take p xs @ drop (Suc p) xs) c \<and>
           Size h' this = Some (length xs - 1) \<and>
           (\<exists>v'. vectors h' this = Some v' \<and> r = ptr_add (begin_v v') p)) \<and>
         ((\<forall>w\<in>set (drop (Suc p) xs). \<not> move_assign_throws T w) \<longrightarrow>
            (\<exists>h' r. Erase T this p h = Done h' r))"
proof (intro conjI impI allI)
  fix h' r
  assume d: "Erase T this p h = Done h' r"
  note e = Erase_Done [OF assms d]
  from e show "holds h' this (take p xs @ drop (Suc p) xs) c" by simp
  from e have "holds h' this (take p xs @ drop (Suc p) xs) c" by simp
  from holds_Size [OF this] assms(2) show "Size h' this = Some (length xs - 1)" by simp
  from e show "\<exists>v'. vectors h' this = Some v' \<and> r = ptr_add (begin_v v') p"
    by (auto simp: begin_v_def)
next
  assume "\<forall>w\<in>set (drop (Suc p) xs). \<not> move_assign_throws T w"
  with assms show "\<exists>h' r. Erase T this p h = Done h' r" by (rule Erase_returns)
qed

theorem Erase_removes_position_witness:
  "holds ints_1234 0 [1, 2, 3, 4] 4 \<and> (1::nat) < length [1, 2, 3, 4 :: int] \<and>
   (\<exists>h' r. Erase Int_type 0 1 ints_1234 = Done h' r \<and>
      holds h' 0 [1, 3, 4] 4 \<and> Size h' 0 = Some 3)"
proof -
  have 1: "holds ints_1234 0 [1, 2, 3, 4] 4" by (simp add: holds_def ints_1234_def)
  have 2: "(1::nat) < length [1, 2, 3, 4 :: int]" by simp
  have 3: "\<forall>w\<in>set (drop (Suc 1) [1, 2, 3, 4 :: int]). \<not> move_assign_throws Int_type w"
    by (simp add: Int_type_def)
  note e = Erase_removes_position [OF 1 2, of Int_type]
  from e [THEN conjunct2, THEN mp, OF 3] obtain h' r where
    4: "Erase Int_type 0 1 ints_1234 = Done h' r" by blast
  from e [THEN conjunct1, rule_format, OF 4]
  have "holds h' 0 [1, 3, 4] 4 \<and> Size h' 0 = Some 3" by simp
  with 1 2 4 show ?thesis by blast
qed

text \<open>
  Claim C9: the copy constructor gives \<open>w\<close> the elements of \<open>v\<close>, in order and with the
  same size, in a block of its own, and leaves \<open>v\<close> as it was; whatever is then done to
  \<open>w\<close> (any run of its mutators, of writes to its elements through \<^verbatim>\<open>operator[]\<close> or an
  iterator, and its destruction, returning or throwing, other than moving from \<open>v\<close> or
  swapping with \<open>v\<close>, which mutate \<open>v\<close> by name), \<open>v\<close> keeps its elements, its size and its
  capacity.  The runs are those in which no allocation request leaves \<^verbatim>\<open>size_t\<close>
  (\<open>within_size_t\<close>); a run that meets undefined behaviour has no final store.
  \<open>owns_alone h v\<close> is exclusive ownership: no other vector has the buffer of \<open>v\<close>.
  The copy constructor returns whenever no copy of an element throws.
\<close>

theorem copy_is_deep:
  assumes "holds h v xs c" and "owns_alone h v" and "w \<noteq> v"
  shows "(\<forall>h1 u. Vector_copy T w v h = Done h1 u \<longrightarrow>
           holds h1 w xs (length xs) \<and> holds h1 v xs c \<and>
           (\<forall>i<length xs. at_index h1 w i = at_index h1 v i) \<and>
           (\<forall>ms h2. list_all (spares v) ms \<longrightarrow> within_size_t T w ms h1 \<longrightarrow>
              mutations T w ms h1 = Some h2 \<longrightarrow>
              holds h2 v xs c \<and> Size h2 v = Some (length xs) \<and> Capacity h2 v = Some c \<and>
              (\<forall>i<length xs. at_index h2 v i = Inr (xs ! i)))) \<and>
         ((\<forall>x\<in>set xs. \<not> copy_throws T x) \<longrightarrow> (\<exists>h1. Vector_copy T w v h = Done h1 ()))"
proof (rule conjI)
  show "\<forall>h1 u. Vector_copy T w v h = Done h1 u \<longrightarrow>
           holds h1 w xs (length xs) \<and> holds h1 v xs c \<and>
           (\<forall>i<length xs. at_index h1 w i = at_index h1 v i) \<and>
           (\<forall>ms h2. list_all (spares v) ms \<longrightarrow> within_size_t T w ms h1 \<longrightarrow>
              mutations T w ms h1 = Some h2 \<longrightarrow>
              holds h2 v xs c \<and> Size h2 v = Some (length xs) \<and> Capacity h2 v = Some c \<and>
              (\<forall>i<length xs. at_index h2 v i = Inr (xs ! i)))"
  proof (intro allI impI)
    fix h1 u
    assume d: "Vector_copy T w v h = Done h1 u"
    from holds_vector [OF assms(1)] obtain vr where vv: "vectors h v = Some vr" ..
    let ?pv = "buffer_m (data_m vr)"
    from assms(2) vv have so: "sole_owner v ?pv h" by (simp add: owns_alone_def)
    from Vector_copy_kept [OF so assms(3), of T v] d
    have k1: "kept v ?pv h h1" by simp
    have w: "holds h1 w xs (length xs)" using assms d by (rule Vector_copy_Done)
    have v1: "holds h1 v xs c" using assms(1) vv k1 by (rule holds_kept)
    have eq: "\<forall>i<length xs. at_index h1 w i = at_index h1 v i"
      using holds_at_index [OF w] holds_at_index [OF v1] by simp
    have "holds h2 v xs c \<and> Size h2 v = Some (length xs) \<and> Capacity h2 v = Some c \<and>
              (\<forall>i<length xs. at_index h2 v i = Inr (xs ! i))"
      if "list_all (spares v) ms" "mutations T w ms h1 = Some h2" for ms h2
    proof -
      from mutations_kept [OF kept_sole [OF k1] assms(3) that]
      have "kept v ?pv h1 h2" .
      with k1 have "kept v ?pv h h2" by (rule kept_trans)
      with assms(1) vv have hh: "holds h2 v xs c" by (rule holds_kept)
      from hh holds_Size [OF hh] holds_Capacity [OF hh] holds_at_index [OF hh]
      show ?thesis by simp
    qed
    with w v1 eq show "holds h1 w xs (length xs) \<and> holds h1 v xs c \<and>
           (\<forall>i<length xs. at_index h1 w i = at_index h1 v i) \<and>
           (\<forall>ms h2. list_all (spares v) ms \<longrightarrow> within_size_t T w ms h1 \<longrightarrow>
              mutations T w ms h1 = Some h2 \<longrightarrow>
              holds h2 v xs c \<and> Size h2 v = Some (length xs) \<and> Capacity h2 v = Some c \<and>
              (\<forall>i<length xs. at_index h2 v i = Inr (xs ! i)))" by blast
  qed
next
  show "(\<forall>x\<in>set xs. \<not> copy_throws T x) \<longrightarrow> (\<exists>h1. Vector_copy T w v h = Done h1 ())"
    using assms(1,2) by (auto intro: Vector_copy_returns)
qed

theorem copy_is_deep_witness:
  "holds (ints_246 3) 0 [2, 4, 6] 3 \<and> owns_alone (ints_246 3) 0 \<and> (1::nat) \<noteq> 0 \<and>
   list_all (\<lambda>x. \<not> copy_throws Int_type x) [2, 4, 6] \<and>
   (\<exists>h1 h2 h3. Vector_copy Int_type 1 0 (ints_246 3) = Done h1 () \<and>
      holds h1 1 [2, 4, 6] 3 \<and> holds h1 0 [2, 4, 6] 3 \<and>
      list_all (spares 0)
        [M_PushBack (Lvalue 7), M_Subscript 0 (Lvalue 9), M_Erase 0, M_Resize 1,
         M_Iterator 0 (Rvalue 5) :: int mutation] \<and>
      within_size_t Int_type 1
        [M_PushBack (Lvalue 7), M_Subscript 0 (Lvalue 9), M_Erase 0, M_Resize 1,
         M_Iterator 0 (Rvalue 5)] h1 \<and>
      mutations Int_type 1
        [M_PushBack (Lvalue 7), M_Subscript 0 (Lvalue 9), M_Erase 0, M_Resize 1,
         M_Iterator 0 (Rvalue 5)] h1 = Some h2 \<and>
      holds h2 1 [5] 6 \<and> holds h2 0 [2, 4, 6] 3 \<and>
      mutations Int_type 1 [M_Destroy] h2 = Some h3 \<and>
      vectors h3 1 = None \<and> holds h3 0 [2, 4, 6] 3)"
proof -
  let ?ms = "[M_PushBack (Lvalue 7), M_Subscript 0 (Lvalue 9), M_Erase 0, M_Resize 1,
         M_Iterator 0 (Rvalue 5) :: int mutation]"
  have 1: "holds (ints_246 3) 0 [2, 4, 6] 3" by (simp add: holds_def ints_246_def)
  have 2: "owns_alone (ints_246 3) 0"
    by (simp add: owns_alone_def sole_owner_def ints_246_def)
  have 3: "(1::nat) \<noteq> 0" by simp
  have nt: "\<forall>x\<in>set [2, 4, 6]. \<not> copy_throws Int_type x" by (simp add: Int_type_def)
  have nt': "list_all (\<lambda>x. \<not> copy_throws Int_type x) [2, 4, 6]" by (simp add: Int_type_def)
  have len: "length [2, 4, 6 :: int] = 3" by simp
  note c = copy_is_deep [OF 1 2 3, of Int_type, unfolded len]
  from c [THEN conjunct2, THEN mp, OF nt] obtain h1 where
    4: "Vector_copy Int_type 1 0 (ints_246 3) = Done h1 ()" ..
  have "\<exists>h1 h2 h3. Vector_copy Int_type 1 0 (ints_246 3) = Done h1 () \<and>
           within_size_t Int_type 1 ?ms h1 \<and>
           mutations Int_type 1 ?ms h1 = Some h2 \<and> holds h2 1 [5] 6 \<and>
           within_size_t Int_type 1 [M_Destroy] h2 \<and>
           mutations Int_type 1 [M_Destroy] h2 = Some h3 \<and> vectors h3 1 = None"
    by (simp add: vector_ops Vector_copy_def copy_construct_def Reserve_def Resize_def
          Subscript_assign_def Iterator_assign_def Vector_dtor_def destroy_vector_def
          fits_small growth_def reserved_def ints_246_def Int_type_def)
  with 4 obtain h2 h3 where
    5: "mutations Int_type 1 ?ms h1 = Some h2" and 6: "holds h2 1 [5] 6"
    and ws: "within_size_t Int_type 1 ?ms h1"
    and wd: "within_size_t Int_type 1 [M_Destroy] h2"
    and d5: "mutations Int_type 1 [M_Destroy] h2 = Some h3" and d6: "vectors h3 1 = None"
    by auto
  have 7: "list_all (spares 0) ?ms" by simp
  have d7: "list_all (spares 0) (?ms @ [M_Destroy])" by simp
  have run: "mutations T w (as @ bs) g = Some g''"
    if "mutations T w as g = Some g'" "mutations T w bs g' = Some g''"
    for T :: "'b elem_type" and w as bs g g' g''
    using that by (induction as arbitrary: g) (auto split: outcome.splits)
  have fit: "within_size_t T w (as @ bs) g"
    if "within_size_t T w as g" "mutations T w as g = Some g'" "within_size_t T w bs g'"
    for T :: "'b elem_type" and w as bs g g'
    using that by (induction as arbitrary: g) (auto split: outcome.splits)
  note d = c [THEN conjunct1, rule_format, OF 4]
  from d have 8: "holds h1 1 [2, 4, 6] 3" by (rule conjunct1)
  from d [THEN conjunct2] have 10: "holds h1 0 [2, 4, 6] 3" by (rule conjunct1)
  from d [THEN conjunct2, THEN conjunct2, THEN conjunct2, rule_format, OF 7 ws 5]
  have 9: "holds h2 0 [2, 4, 6] 3" by (rule conjunct1)
  from d [THEN conjunct2, THEN conjunct2, THEN conjunct2, rule_format, OF d7
      fit [OF ws 5 wd] run [OF 5 d5]]
  have 11: "holds h3 0 [2, 4, 6] 3" by (rule conjunct1)
  from 1 2 3 nt' 4 5 6 7 ws 8 9 10 d5 d6 11 show ?thesis by blast
qed

text \<open>
  Claim C10: copy assignment from itself, move assignment from itself and a swap with
  itself leave a vector as it is; the store as a whole is unchanged.
\<close>

theorem self_assignment_and_self_swap:
  "vectors h v \<noteq> None \<Longrightarrow>
   copy_assign T v v h = Done h () \<and> move_assign v v h = Done h () \<and> Swap v v h = Done h ()"
  by (auto simp: copy_assign_def move_assign_def Swap_def)

theorem self_assignment_and_self_swap_witness:
  "vectors three_vectors 0 \<noteq> None \<and>
   copy_assign String_type 0 0 three_vectors = Done three_vectors () \<and>
   move_assign 0 0 three_vectors = Done three_vectors () \<and>
   Swap 0 0 three_vectors = Done three_vectors ()"
proof -
  have "vectors three_vectors 0 \<noteq> None" by (simp add: three_vectors_def)
  from this self_assignment_and_self_swap [OF this, of String_type] show ?thesis by simp
qed

end
